(* ===== verification/Prelude.thy ===== *)
theory Prelude
  imports Main "HOL-Library.Word"
begin

text \<open>
  The prelude of the development: the machine types the C++ sources compute with, the
  \<^verbatim>\<open>Status\<close> values they return, the collections of rewrite rules the component theories
  extend, and the generic lemmas on lists and words that several components share.

  A \<^verbatim>\<open>Slice\<close>, a \<^verbatim>\<open>std::string\<close> and a \<^verbatim>\<open>const char*\<close> with a limit are all byte lists here.
  A routine that advances a pointer returns the bytes that are left.
\<close>

unbundle bit_operations_syntax

section \<open>Machine types\<close>

type_synonym byte = "8 word"
type_synonym bytes = "byte list"
type_synonym u32 = "32 word"
type_synonym u64 = "64 word"

text \<open>
  A conversion \<^verbatim>\<open>static_cast<uint32_t>(s.size())\<close>, explicit or implicit, keeps the low 32 bits
  of the length.
\<close>

abbreviation size32 :: "'a list \<Rightarrow> u32" where
  "size32 xs \<equiv> word_of_nat (length xs)"

section \<open>Status values\<close>

text \<open>
  \<^verbatim>\<open>include/leveldb/status.h\<close>: the codes of \<^verbatim>\<open>Status::Code\<close> other than \<^verbatim>\<open>kOk\<close> carry a message;
  \<^verbatim>\<open>kOk\<close> is the null state.
\<close>

datatype status =
    OK
  | NotFound string
  | Corruption string
  | NotSupported string
  | InvalidArgument string
  | IOError string

definition status_ok :: "status \<Rightarrow> bool" where
  "status_ok s \<longleftrightarrow> (case s of OK \<Rightarrow> True | _ \<Rightarrow> False)"

definition IsNotFound :: "status \<Rightarrow> bool" where
  "IsNotFound s \<longleftrightarrow> (case s of NotFound _ \<Rightarrow> True | _ \<Rightarrow> False)"

text \<open>The constructor with two messages joins them with a colon, when the second is not empty.\<close>

definition status_msg2 :: "string \<Rightarrow> string \<Rightarrow> string" where
  "status_msg2 msg msg2 = (if msg2 = [] then msg else msg @ '': '' @ msg2)"

lemma status_ok_simps [simp]:
  "status_ok OK" "\<not> status_ok (NotFound m)" "\<not> status_ok (Corruption m)"
  "\<not> status_ok (NotSupported m)" "\<not> status_ok (InvalidArgument m)" "\<not> status_ok (IOError m)"
  by (simp_all add: status_ok_def)

lemma status_ok_iff: "status_ok s \<longleftrightarrow> s = OK"
  by (cases s) simp_all

section \<open>Decimal numbers\<close>

text \<open>The conversion \<^verbatim>\<open>%u\<close> (and \<^verbatim>\<open>%llu\<close>) of \<^verbatim>\<open>snprintf\<close>.\<close>

definition decimal_digit :: "nat \<Rightarrow> char" where
  "decimal_digit d = char_of (48 + d)"

fun decimal :: "nat \<Rightarrow> string" where
  "decimal n = (if n < 10 then [decimal_digit n] else decimal (n div 10) @ [decimal_digit (n mod 10)])"

declare decimal.simps [simp del]

text \<open>A string literal as the bytes of a \<^verbatim>\<open>std::string\<close> or a \<^verbatim>\<open>Slice\<close>.\<close>

definition string_bytes :: "string \<Rightarrow> bytes" where
  "string_bytes s = map (\<lambda>c. word_of_nat (of_char c)) s"

section \<open>Collections of rewrite rules\<close>

named_theorems coding_simps "lengths and round trips of the encoders"
named_theorems coding_defs "definitions of the encoders and decoders"

section \<open>Words\<close>

lemma word_drop_bit_less:
  fixes v :: "'a::len word"
  assumes "0 < n" and "v \<noteq> 0"
  shows "unat (drop_bit n v) < unat v"
proof -
  have "unat (drop_bit n v) = unat v div 2 ^ n"
    by (subst unat_drop_bit_eq) (simp add: drop_bit_eq_div)
  moreover have "1 < (2::nat) ^ n"
    using assms(1) by (intro one_less_power) simp_all
  moreover have "0 < unat v"
    using assms(2) by (simp add: unat_gt_0)
  ultimately show ?thesis
    by simp
qed

declare bit_numeral_word_iff [simp del]

text \<open>The bits of the continuation flag and of the payload of a varint byte.\<close>

lemma unat_drop_bit_div: "unat (drop_bit n (v :: 'a::len word)) = unat v div 2 ^ n"
  by (subst unat_drop_bit_eq) (simp add: drop_bit_eq_div)

lemma unat_128: "8 \<le> LENGTH('a) \<Longrightarrow> unat (128 :: 'a::len word) = 128"
proof -
  assume "8 \<le> LENGTH('a)"
  then have "(128::nat) < 2 ^ LENGTH('a)"
    using power_increasing [of 8 "LENGTH('a)" "2::nat"] by simp
  then show ?thesis
    by (simp add: unsigned_numeral take_bit_nat_eq_self)
qed

lemma bit_128: "bit (128 :: 'a::len word) n \<longleftrightarrow> n = 7 \<and> 7 < LENGTH('a)"
  using bit_exp_iff [where 'a = "'a word", of 7 n] by (auto simp: fold_possible_bit possible_bit_word)

lemma bit_127: "bit (127 :: 'a::len word) n \<longleftrightarrow> n < 7 \<and> n < LENGTH('a)"
  using bit_mask_iff [where 'a = "'a word", of 7 n] by (auto simp: mask_eq_exp_minus_1)

lemma unat_of_nat_small:
  "n < 2 ^ LENGTH('a) \<Longrightarrow> unat (word_of_nat n :: 'a::len word) = n"
  by (simp add: unat_of_nat take_bit_nat_eq_self)

lemma word_eq_unatI: "unat v = unat w \<Longrightarrow> v = w"
  by (rule unsigned_word_eqI)

lemma bit_255: "bit (255 :: 'a::len word) n \<longleftrightarrow> n < 8 \<and> n < LENGTH('a)"
  using bit_mask_iff [where 'a = "'a word", of 8 n] by (auto simp: mask_eq_exp_minus_1)

lemma unat_low_byte: "unat (ucast (v AND 0xff) :: byte) = unat (v :: u64) mod 256"
proof -
  have "(ucast (v AND 0xff) :: byte) = ucast v"
    by (rule bit_word_eqI) (auto simp: bit_ucast_iff bit_and_iff bit_255)
  then show ?thesis
    by (simp add: unsigned_ucast_eq take_bit_eq_mod)
qed

end
