(* ===== verification/Coding.thy ===== *)
theory Coding
  imports Prelude
begin

text \<open>
  \<^verbatim>\<open>util/coding.h\<close> and \<^verbatim>\<open>util/coding.cc\<close>: the little-endian fixed-width encodings, the
  base-128 varints and the length-prefixed strings every file format of the store is built
  from. The decoders are partial: a truncated or overlong varint is \<^const>\<open>None\<close>, the null
  pointer of the source. The lemmas are the round trips, the lengths, and what a decoder
  accepts.
\<close>

section \<open>Fixed-width integers\<close>

definition EncodeFixed32 :: "u32 \<Rightarrow> bytes" where
  "EncodeFixed32 value =
     [ucast value, ucast (drop_bit 8 value), ucast (drop_bit 16 value), ucast (drop_bit 24 value)]"

definition EncodeFixed64 :: "u64 \<Rightarrow> bytes" where
  "EncodeFixed64 value =
     [ucast value, ucast (drop_bit 8 value), ucast (drop_bit 16 value), ucast (drop_bit 24 value),
      ucast (drop_bit 32 value), ucast (drop_bit 40 value), ucast (drop_bit 48 value),
      ucast (drop_bit 56 value)]"

text \<open>The decoders read the first four or eight bytes without a bounds check, as the source does.\<close>

definition DecodeFixed32 :: "bytes \<Rightarrow> u32" where
  "DecodeFixed32 buffer =
     ucast (buffer ! 0) OR push_bit 8 (ucast (buffer ! 1)) OR push_bit 16 (ucast (buffer ! 2)) OR
     push_bit 24 (ucast (buffer ! 3))"

definition DecodeFixed64 :: "bytes \<Rightarrow> u64" where
  "DecodeFixed64 buffer =
     ucast (buffer ! 0) OR push_bit 8 (ucast (buffer ! 1)) OR push_bit 16 (ucast (buffer ! 2)) OR
     push_bit 24 (ucast (buffer ! 3)) OR push_bit 32 (ucast (buffer ! 4)) OR
     push_bit 40 (ucast (buffer ! 5)) OR push_bit 48 (ucast (buffer ! 6)) OR
     push_bit 56 (ucast (buffer ! 7))"

definition PutFixed32 :: "bytes \<Rightarrow> u32 \<Rightarrow> bytes" where
  "PutFixed32 dst value = dst @ EncodeFixed32 value"

definition PutFixed64 :: "bytes \<Rightarrow> u64 \<Rightarrow> bytes" where
  "PutFixed64 dst value = dst @ EncodeFixed64 value"

section \<open>Varints\<close>

definition EncodeVarint32 :: "u32 \<Rightarrow> bytes" where
  "EncodeVarint32 v =
     (if v < 2 ^ 7 then [ucast v]
      else if v < 2 ^ 14 then [ucast (v OR 128), ucast (drop_bit 7 v)]
      else if v < 2 ^ 21 then
        [ucast (v OR 128), ucast (drop_bit 7 v OR 128), ucast (drop_bit 14 v)]
      else if v < 2 ^ 28 then
        [ucast (v OR 128), ucast (drop_bit 7 v OR 128), ucast (drop_bit 14 v OR 128),
         ucast (drop_bit 21 v)]
      else
        [ucast (v OR 128), ucast (drop_bit 7 v OR 128), ucast (drop_bit 14 v OR 128),
         ucast (drop_bit 21 v OR 128), ucast (drop_bit 28 v)])"

function EncodeVarint64 :: "u64 \<Rightarrow> bytes" where
  "EncodeVarint64 v =
     (if 128 \<le> v then ucast (v OR 128) # EncodeVarint64 (drop_bit 7 v) else [ucast v])"
  by pat_completeness auto
termination
  by (relation "measure unat") (auto intro!: word_drop_bit_less)

declare EncodeVarint64.simps [simp del]

definition PutVarint32 :: "bytes \<Rightarrow> u32 \<Rightarrow> bytes" where
  "PutVarint32 dst v = dst @ EncodeVarint32 v"

definition PutVarint64 :: "bytes \<Rightarrow> u64 \<Rightarrow> bytes" where
  "PutVarint64 dst v = dst @ EncodeVarint64 v"

definition PutLengthPrefixedSlice :: "bytes \<Rightarrow> bytes \<Rightarrow> bytes" where
  "PutLengthPrefixedSlice dst value = PutVarint32 dst (size32 value) @ value"

function VarintLength :: "u64 \<Rightarrow> nat" where
  "VarintLength v = (if 128 \<le> v then Suc (VarintLength (drop_bit 7 v)) else 1)"
  by pat_completeness auto
termination
  by (relation "measure unat") (auto intro!: word_drop_bit_less)

declare VarintLength.simps [simp del]

text \<open>
  The loop of \<^verbatim>\<open>GetVarint32PtrFallback\<close> over the bytes from \<^verbatim>\<open>p\<close> to \<^verbatim>\<open>limit\<close>: the value and the
  bytes after it, or \<^const>\<open>None\<close> for the null pointer.
\<close>

fun GetVarint32Loop :: "nat \<Rightarrow> u32 \<Rightarrow> bytes \<Rightarrow> (u32 \<times> bytes) option" where
  "GetVarint32Loop shift result [] = None"
| "GetVarint32Loop shift result (b # p) =
     (if shift \<le> 28 then
        let byte = ucast b :: u32 in
        if byte AND 128 \<noteq> 0 then
          GetVarint32Loop (shift + 7) (result OR push_bit shift (byte AND 127)) p
        else Some (result OR push_bit shift byte, p)
      else None)"

definition GetVarint32PtrFallback :: "bytes \<Rightarrow> (u32 \<times> bytes) option" where
  "GetVarint32PtrFallback p = GetVarint32Loop 0 0 p"

definition GetVarint32Ptr :: "bytes \<Rightarrow> (u32 \<times> bytes) option" where
  "GetVarint32Ptr p =
     (case p of
        b # rest \<Rightarrow>
          let result = ucast b :: u32 in
          if result AND 128 = 0 then Some (result, rest) else GetVarint32PtrFallback p
      | [] \<Rightarrow> GetVarint32PtrFallback p)"

definition GetVarint32 :: "bytes \<Rightarrow> (u32 \<times> bytes) option" where
  "GetVarint32 input = GetVarint32Ptr input"

fun GetVarint64Loop :: "nat \<Rightarrow> u64 \<Rightarrow> bytes \<Rightarrow> (u64 \<times> bytes) option" where
  "GetVarint64Loop shift result [] = None"
| "GetVarint64Loop shift result (b # p) =
     (if shift \<le> 63 then
        let byte = ucast b :: u64 in
        if byte AND 128 \<noteq> 0 then
          GetVarint64Loop (shift + 7) (result OR push_bit shift (byte AND 127)) p
        else Some (result OR push_bit shift byte, p)
      else None)"

definition GetVarint64Ptr :: "bytes \<Rightarrow> (u64 \<times> bytes) option" where
  "GetVarint64Ptr p = GetVarint64Loop 0 0 p"

definition GetVarint64 :: "bytes \<Rightarrow> (u64 \<times> bytes) option" where
  "GetVarint64 input = GetVarint64Ptr input"

definition GetLengthPrefixedSlice :: "bytes \<Rightarrow> (bytes \<times> bytes) option" where
  "GetLengthPrefixedSlice input =
     (case GetVarint32 input of
        None \<Rightarrow> None
      | Some (len, rest) \<Rightarrow>
          if unat len \<le> length rest then Some (take (unat len) rest, drop (unat len) rest)
          else None)"

section \<open>Lengths and round trips\<close>

lemma length_EncodeFixed32 [coding_simps, simp]: "length (EncodeFixed32 v) = 4"
  by (simp add: EncodeFixed32_def)

lemma length_EncodeFixed64 [coding_simps, simp]: "length (EncodeFixed64 v) = 8"
  by (simp add: EncodeFixed64_def)

lemma DecodeFixed32_EncodeFixed32_append [coding_simps, simp]:
  "DecodeFixed32 (EncodeFixed32 v @ rest) = v"
proof (rule bit_word_eqI)
  fix n assume "n < LENGTH(32)"
  then consider "n < 8" | "8 \<le> n" "n < 16" | "16 \<le> n" "n < 24" | "24 \<le> n" "n < 32"
    by fastforce
  then show "bit (DecodeFixed32 (EncodeFixed32 v @ rest)) n = bit v n"
    by cases (simp_all add: DecodeFixed32_def EncodeFixed32_def bit_simps less_diff_conv2)
qed

lemma DecodeFixed64_EncodeFixed64_append [coding_simps, simp]:
  "DecodeFixed64 (EncodeFixed64 v @ rest) = v"
proof (rule bit_word_eqI)
  fix n assume "n < LENGTH(64)"
  then consider "n < 8" | "8 \<le> n" "n < 16" | "16 \<le> n" "n < 24" | "24 \<le> n" "n < 32"
    | "32 \<le> n" "n < 40" | "40 \<le> n" "n < 48" | "48 \<le> n" "n < 56" | "56 \<le> n" "n < 64"
    by fastforce
  then show "bit (DecodeFixed64 (EncodeFixed64 v @ rest)) n = bit v n"
    by cases (simp_all add: DecodeFixed64_def EncodeFixed64_def bit_simps less_diff_conv2)
qed

lemma DecodeFixed32_EncodeFixed32 [coding_simps, simp]: "DecodeFixed32 (EncodeFixed32 v) = v"
  using DecodeFixed32_EncodeFixed32_append [of v "[]"] by simp

lemma DecodeFixed64_EncodeFixed64 [coding_simps, simp]: "DecodeFixed64 (EncodeFixed64 v) = v"
  using DecodeFixed64_EncodeFixed64_append [of v "[]"] by simp

lemma bit_byte_outside: "8 \<le> n \<Longrightarrow> \<not> bit (b :: byte) n"
  using bit_imp_le_length [of b n] by auto

lemma bit_DecodeFixed64:
  assumes "m < 8"
  shows
  "bit (DecodeFixed64 b) m \<longleftrightarrow> bit (b ! 0) m"
  "bit (DecodeFixed64 b) (8 + m) \<longleftrightarrow> bit (b ! 1) m"
  "bit (DecodeFixed64 b) (16 + m) \<longleftrightarrow> bit (b ! 2) m"
  "bit (DecodeFixed64 b) (24 + m) \<longleftrightarrow> bit (b ! 3) m"
  "bit (DecodeFixed64 b) (32 + m) \<longleftrightarrow> bit (b ! 4) m"
  "bit (DecodeFixed64 b) (40 + m) \<longleftrightarrow> bit (b ! 5) m"
  "bit (DecodeFixed64 b) (48 + m) \<longleftrightarrow> bit (b ! 6) m"
  "bit (DecodeFixed64 b) (56 + m) \<longleftrightarrow> bit (b ! 7) m"
  using assms unfolding DecodeFixed64_def
  by (simp_all add: bit_or_iff bit_push_bit_iff bit_ucast_iff bit_byte_outside)

lemma byte_group:
  "(\<And>m. m < 8 \<Longrightarrow> bit w (s + m) = bit b m) \<Longrightarrow> ucast (drop_bit s (w :: u64)) = (b :: byte)"
  by (rule bit_word_eqI) (simp add: bit_ucast_iff bit_drop_bit_eq)

lemma EncodeFixed64_DecodeFixed64 [coding_simps, simp]:
  assumes "length b = 8"
  shows "EncodeFixed64 (DecodeFixed64 b) = b"
proof -
  have "ucast (DecodeFixed64 b) = b ! 0"
    using byte_group [of "DecodeFixed64 b" 0 "b ! 0"] by (simp add: bit_DecodeFixed64)
  moreover have
    "ucast (drop_bit 8 (DecodeFixed64 b)) = b ! 1" "ucast (drop_bit 16 (DecodeFixed64 b)) = b ! 2"
    "ucast (drop_bit 24 (DecodeFixed64 b)) = b ! 3" "ucast (drop_bit 32 (DecodeFixed64 b)) = b ! 4"
    "ucast (drop_bit 40 (DecodeFixed64 b)) = b ! 5" "ucast (drop_bit 48 (DecodeFixed64 b)) = b ! 6"
    "ucast (drop_bit 56 (DecodeFixed64 b)) = b ! 7"
    by (rule byte_group, erule bit_DecodeFixed64)+
  moreover have "map ((!) b) [0, 1, 2, 3, 4, 5, 6, 7] = b"
    using map_nth [of b] assms by (simp add: upt_conv_Cons numeral_eq_Suc)
  ultimately show ?thesis
    by (simp only: EncodeFixed64_def list.map)
qed

text \<open>The group that carries the continuation bit, and the last group, read back.\<close>

lemma varint_more_group:
  fixes v :: "'a::len word"
  assumes "8 \<le> LENGTH('a)"
  shows "(ucast (ucast (v OR 128) :: byte) :: 'a word) AND 128 \<noteq> 0"
    and "(ucast (ucast (v OR 128) :: byte) :: 'a word) AND 127 = v AND 127"
proof -
  have "bit ((ucast (ucast (v OR 128) :: byte) :: 'a word) AND 128) 7"
    using assms by (simp add: bit_and_iff bit_or_iff bit_ucast_iff bit_128)
  then show "(ucast (ucast (v OR 128) :: byte) :: 'a word) AND 128 \<noteq> 0"
    by auto
  show "(ucast (ucast (v OR 128) :: byte) :: 'a word) AND 127 = v AND 127"
    by (rule bit_word_eqI) (auto simp: bit_and_iff bit_or_iff bit_ucast_iff bit_128 bit_127)
qed

lemma varint_last_group:
  fixes v :: "'a::len word"
  assumes "v < 128" and "8 \<le> LENGTH('a)"
  shows "(ucast (ucast v :: byte) :: 'a word) = v" and "v AND 128 = 0"
proof -
  have "v = take_bit 7 v"
    using assms by (simp add: take_bit_eq_mod word_unat_eq_iff unat_mod word_less_nat_alt unat_128)
  then have high: "n < 7" if "bit v n" for n
    using that by (metis bit_take_bit_iff)
  show "(ucast (ucast v :: byte) :: 'a word) = v"
    by (rule bit_word_eqI) (auto simp: bit_ucast_iff dest: high)
  show "v AND 128 = 0"
    by (rule bit_word_eqI) (auto simp: bit_and_iff bit_128 dest: high)
qed


lemma varint_groups_join:
  fixes v :: "'a::len word"
  shows "push_bit s (v AND 127) OR push_bit (s + 7) (drop_bit 7 v) = push_bit s v"
proof (rule bit_word_eqI)
  fix n assume "n < LENGTH('a)"
  then show "bit (push_bit s (v AND 127) OR push_bit (s + 7) (drop_bit 7 v)) n = bit (push_bit s v) n"
    by (cases "s + 7 \<le> n")
      (auto simp: bit_push_bit_iff bit_and_iff bit_or_iff bit_drop_bit_eq bit_127)
qed

lemma GetVarint64Loop_Encode:
  assumes "unat v < 2 ^ (64 - shift)" and "shift \<le> 63"
  shows "GetVarint64Loop shift acc (EncodeVarint64 v @ rest) = Some (acc OR push_bit shift v, rest)"
  using assms
proof (induction v arbitrary: shift acc rule: EncodeVarint64.induct)
  case (1 v)
  show ?case
  proof (cases "128 \<le> v")
    case True
    then have "128 \<le> unat v" by (simp add: word_le_nat_alt)
    with 1(2) have "2 ^ 7 < (2::nat) ^ (64 - shift)" by simp
    then have "7 < 64 - shift" by (rule power_less_imp_less_exp [rotated]) simp
    then have s: "shift + 7 \<le> 63" and e: "64 - shift = (64 - (shift + 7)) + 7" by simp_all
    from 1(2) have "unat (drop_bit 7 v) < 2 ^ (64 - (shift + 7))"
      unfolding unat_drop_bit_div e power_add by (simp add: less_mult_imp_div_less)
    from 1(1) [OF True this s] True s show ?thesis
      by (subst EncodeVarint64.simps)
        (simp add: Let_def varint_more_group or.assoc varint_groups_join del: push_bit_and)
  next
    case False
    then have "v < 128" by simp
    with False 1 show ?thesis
      by (subst EncodeVarint64.simps) (simp add: Let_def varint_last_group)
  qed
qed

lemma GetVarint64_EncodeVarint64 [coding_simps, simp]:
  "GetVarint64 (EncodeVarint64 v @ rest) = Some (v, rest)"
  using GetVarint64Loop_Encode [of v 0 0 rest] unsigned_less [of v, where ?'a = nat]
  by (simp add: GetVarint64_def GetVarint64Ptr_def)

text \<open>
  The unrolled 32-bit encoder writes the same groups as the loop would; the reference loop is
  a proof device only.
\<close>

lemma GetVarint32Loop_more:
  "shift \<le> 28 \<Longrightarrow> GetVarint32Loop shift acc (ucast (v OR 128) # p) =
     GetVarint32Loop (shift + 7) (acc OR push_bit shift (v AND 127)) p"
  by (simp add: Let_def varint_more_group)

lemma GetVarint32Loop_last:
  "shift \<le> 28 \<Longrightarrow> v < 128 \<Longrightarrow> GetVarint32Loop shift acc (ucast v # p) = Some (acc OR push_bit shift v, p)"
  by (simp add: Let_def varint_last_group)

lemma GetVarint32Ptr_Fallback: "GetVarint32Ptr p = GetVarint32PtrFallback p"
  by (auto simp: GetVarint32Ptr_def GetVarint32PtrFallback_def Let_def split: list.splits)

lemma drop_bit_less_128:
  "unat (v :: u32) < 128 * 2 ^ n \<Longrightarrow> drop_bit n v < 128"
  by (simp add: word_less_nat_alt unat_drop_bit_div less_mult_imp_div_less)

lemma varint32_join: "push_bit s (drop_bit s v AND 127) OR push_bit (s + 7) (drop_bit (s + 7) v) = push_bit s (drop_bit s (v :: u32))"
  using varint_groups_join [of s "drop_bit s v"] by (simp add: add.commute)

lemma GetVarint32_EncodeVarint32 [coding_simps, simp]:
  "GetVarint32 (EncodeVarint32 v @ rest) = Some (v, rest)"
proof -
  have last: "drop_bit 28 v < 128"
    using unsigned_less [of v, where ?'a = nat] by (intro drop_bit_less_128) simp
  have join: "a OR (push_bit s (drop_bit s v AND 127) OR push_bit (s + 7) (drop_bit (s + 7) v)) =
      a OR push_bit s (drop_bit s v)" for a s
    by (simp only: varint32_join)
  note j = varint32_join [of 0 v] varint32_join [of 7 v] varint32_join [of 14 v] varint32_join [of 21 v]
  show ?thesis
    unfolding GetVarint32_def GetVarint32Ptr_Fallback GetVarint32PtrFallback_def EncodeVarint32_def
    using last j
    by (auto simp: GetVarint32Loop_more GetVarint32Loop_last or.assoc drop_bit_less_128
        word_less_nat_alt unat_drop_bit_div simp del: GetVarint32Loop.simps)
qed


lemma length_EncodeVarint32: "length (EncodeVarint32 v) \<le> 5" and EncodeVarint32_not_Nil [simp]: "EncodeVarint32 v \<noteq> []"
  by (simp_all add: EncodeVarint32_def)

lemma length_EncodeVarint64 [coding_simps]: "length (EncodeVarint64 v) = VarintLength v"
  by (induction v rule: EncodeVarint64.induct)
    (subst EncodeVarint64.simps, subst VarintLength.simps, simp)

lemma VarintLength_bound: "unat v < 2 ^ (7 * n) \<Longrightarrow> 0 < n \<Longrightarrow> VarintLength v \<le> n"
proof (induction n arbitrary: v)
  case (Suc n)
  show ?case
  proof (cases "128 \<le> v")
    case True
    have "unat (drop_bit 7 v) < 2 ^ (7 * n)"
      using Suc.prems(1) by (simp add: unat_drop_bit_div power_add less_mult_imp_div_less mult.commute)
    moreover have "n \<noteq> 0"
      using True Suc.prems(1) by (cases n) (auto simp: word_le_nat_alt)
    ultimately show ?thesis
      using Suc.IH [of "drop_bit 7 v"] by (subst VarintLength.simps) simp
  qed (subst VarintLength.simps, simp)
qed simp

lemma VarintLength_le_10: "VarintLength v \<le> 10"
  using unsigned_less [of v, where ?'a = nat] by (intro VarintLength_bound) simp_all

text \<open>\<^verbatim>\<open>MemTable::Add\<close> sizes the 32-bit encodings with \<^verbatim>\<open>VarintLength\<close>: the two agree.\<close>

lemma length_EncodeVarint32_VarintLength:
  "length (EncodeVarint32 v) = VarintLength (ucast v)"
proof -
  let ?u = "ucast v :: u64"
  have b: "unat v < 2 ^ 32"
    using unsigned_less [of v, where ?'a = nat] by simp
  then have "unat (drop_bit n ?u) = unat v div 2 ^ n" for n
    by (simp add: unat_drop_bit_div unsigned_ucast_eq take_bit_nat_eq_self)
  then have s: "VarintLength (drop_bit n ?u) =
      (if 2 ^ (n + 7) \<le> unat v then Suc (VarintLength (drop_bit (7 + n) ?u)) else 1)" for n
    by (subst VarintLength.simps)
      (simp add: word_le_nat_alt less_eq_div_iff_mult_less_eq power_add mult.commute)
  show ?thesis
    using b s [of 0] s [of 7] s [of 14] s [of 21] s [of 28]
    by (simp add: EncodeVarint32_def word_less_nat_alt not_le)
qed

lemma GetLengthPrefixedSlice_Put [coding_simps]:
  "length value < 2 ^ 32 \<Longrightarrow>
     GetLengthPrefixedSlice (PutLengthPrefixedSlice [] value @ rest) = Some (value, rest)"
  by (simp add: GetLengthPrefixedSlice_def PutLengthPrefixedSlice_def PutVarint32_def unat_of_nat take_bit_nat_eq_self)

lemma PutLengthPrefixedSlice_dst: "PutLengthPrefixedSlice dst value = dst @ PutLengthPrefixedSlice [] value"
  by (simp add: PutLengthPrefixedSlice_def PutVarint32_def)

lemma GetVarint32Loop_suffix:
  "GetVarint32Loop shift acc p = Some (v, rest) \<Longrightarrow> \<exists>used. p = used @ rest \<and> used \<noteq> [] \<and> shift + 7 * length used \<le> 35"
proof (induction shift acc p rule: GetVarint32Loop.induct)
  case (2 shift result b p)
  show ?case
  proof (cases "(ucast b :: u32) AND 128 = 0")
    case True
    with 2 show ?thesis by (auto simp: Let_def split: if_splits intro!: exI [of _ "[b]"])
  next
    case False
    with 2 obtain used where "p = used @ rest \<and> used \<noteq> [] \<and> shift + 7 + 7 * length used \<le> 35"
      by (auto simp: Let_def split: if_splits)
    then show ?thesis by (intro exI [of _ "b # used"]) auto
  qed
qed simp

section \<open>Properties\<close>

lemma GetVarint32_shorter: "GetVarint32 p = Some (v, rest) \<Longrightarrow> length rest < length p"
  using GetVarint32Loop_suffix [of 0 0 p v rest]
  by (auto simp: GetVarint32_def GetVarint32Ptr_Fallback GetVarint32PtrFallback_def)

lemma GetLengthPrefixedSlice_shorter:
  "GetLengthPrefixedSlice p = Some (v, rest) \<Longrightarrow> length rest < length p"
  by (auto simp: GetLengthPrefixedSlice_def split: option.splits prod.splits if_splits
      dest!: GetVarint32_shorter)

lemma GetVarint64_shorter: "GetVarint64 p = Some (v, rest) \<Longrightarrow> length rest < length p"
proof -
  have "GetVarint64Loop shift result p = Some (v, rest) \<Longrightarrow> length rest < length p" for shift result
    by (induction shift result p rule: GetVarint64Loop.induct) (auto simp: Let_def split: if_splits)
  then show "GetVarint64 p = Some (v, rest) \<Longrightarrow> length rest < length p"
    by (simp add: GetVarint64_def GetVarint64Ptr_def)
qed

text \<open>C7. Every slice shorter than 2^32 bytes that is written with its length in front is read back
  by \<^verbatim>\<open>GetLengthPrefixedSlice\<close>, which leaves exactly the bytes that follow it.\<close>

theorem length_prefixed_slice_roundtrip:
  assumes "length value < 2 ^ 32"
  shows "GetLengthPrefixedSlice (drop (length dst) (PutLengthPrefixedSlice dst value) @ rest) =
           Some (value, rest)"
  using GetLengthPrefixedSlice_Put [OF assms, of rest]
  by (subst PutLengthPrefixedSlice_dst) simp

theorem length_prefixed_slice_roundtrip_witness:
  "GetLengthPrefixedSlice (drop (length [7 :: byte]) (PutLengthPrefixedSlice [7] [1, 2, 3]) @ [9]) =
     Some ([1, 2, 3], [9])"
  by (rule length_prefixed_slice_roundtrip) simp

end
