(* ===== verification/Memenv.thy ===== *)
theory Memenv
  imports Prelude
begin

text \<open>
  Files. The interfaces \<^verbatim>\<open>SequentialFile\<close>, \<^verbatim>\<open>RandomAccessFile\<close> and \<^verbatim>\<open>WritableFile\<close> of
  include/leveldb/env.h are records of operations over a file state; what the log and the tables rely
  on are the locales \<^verbatim>\<open>sequential_file\<close>, \<^verbatim>\<open>random_access_file\<close> and \<^verbatim>\<open>writable_file\<close>. The in-memory environment of helpers/memenv/memenv.cc
  provides them: a file is a vector of 8 KB blocks and a size.

  The second half models the environment's directory operations on an explicit store of file
  states, because two names may come to share one state.
\<close>

section \<open>File interfaces\<close>

record 'f SequentialFile =
  SeqRead :: "'f \<Rightarrow> nat \<Rightarrow> status \<times> bytes \<times> 'f"
  SeqSkip :: "'f \<Rightarrow> nat \<Rightarrow> status \<times> 'f"

text \<open>A random read also says whether its result lies in the buffer the caller passed.\<close>

record 'f RandomAccessFile =
  RRead :: "'f \<Rightarrow> nat \<Rightarrow> nat \<Rightarrow> status \<times> bytes \<times> bool"

record 'f WritableFile =
  WAppend :: "'f \<Rightarrow> bytes \<Rightarrow> status \<times> 'f"
  WFlush :: "'f \<Rightarrow> status \<times> 'f"
  WSync :: "'f \<Rightarrow> status \<times> 'f"
  WClose :: "'f \<Rightarrow> status \<times> 'f"

locale sequential_file =
  fixes seq_ops :: "'f SequentialFile"
    and left_of :: "'f \<Rightarrow> bytes"
    and seq_ok :: "'f \<Rightarrow> bool"
  assumes seq_read:
      "seq_ok f \<Longrightarrow> \<exists>f'. SeqRead seq_ops f n = (OK, take n (left_of f), f') \<and> seq_ok f' \<and>
         left_of f' = drop n (left_of f)"
    and seq_skip:
      "seq_ok f \<Longrightarrow> \<exists>f'. SeqSkip seq_ops f n = (OK, f') \<and> seq_ok f' \<and> left_of f' = drop n (left_of f)"

locale random_access_file =
  fixes r_ops :: "'f RandomAccessFile"
    and r_contents :: "'f \<Rightarrow> bytes"
    and r_ok :: "'f \<Rightarrow> bool"
  assumes r_read:
      "r_ok f \<Longrightarrow> offset \<le> length (r_contents f) \<Longrightarrow>
         \<exists>scratch. RRead r_ops f offset n = (OK, take n (drop offset (r_contents f)), scratch)"

locale writable_file =
  fixes w_ops :: "'f WritableFile"
    and written :: "'f \<Rightarrow> bytes"
    and w_ok :: "'f \<Rightarrow> bool"
  assumes w_append:
      "w_ok f \<Longrightarrow> \<exists>f'. WAppend w_ops f data = (OK, f') \<and> w_ok f' \<and> written f' = written f @ data"
    and w_flush:
      "w_ok f \<Longrightarrow> \<exists>f'. WFlush w_ops f = (OK, f') \<and> w_ok f' \<and> written f' = written f"

section \<open>File states\<close>

definition kFileBlockSize :: nat where
  "kFileBlockSize = 8 * 1024"

lemma kFileBlockSize_pos [simp]: "0 < kFileBlockSize"
  by (simp add: kFileBlockSize_def)

record FileState =
  fs_refs :: int
  fs_blocks :: "bytes list"
  fs_size :: nat

definition new_FileState :: FileState where
  "new_FileState = \<lparr>fs_refs = 0, fs_blocks = [], fs_size = 0\<rparr>"

definition FileState_Ref :: "FileState \<Rightarrow> FileState" where
  "FileState_Ref f = f\<lparr>fs_refs := fs_refs f + 1\<rparr>"

text \<open>\<^verbatim>\<open>Unref\<close> also says whether the object deletes itself.\<close>

definition FileState_Unref :: "FileState \<Rightarrow> FileState \<times> bool" where
  "FileState_Unref f = (let refs = fs_refs f - 1 in (f\<lparr>fs_refs := refs\<rparr>, refs \<le> 0))"

definition FileState_Truncate :: "FileState \<Rightarrow> FileState" where
  "FileState_Truncate f = f\<lparr>fs_blocks := [], fs_size := 0\<rparr>"

function FileState_copy :: "bytes list \<Rightarrow> nat \<Rightarrow> nat \<Rightarrow> nat \<Rightarrow> bytes" where
  "FileState_copy blocks block block_offset bytes_to_copy =
     (if 0 < bytes_to_copy \<and> block_offset < kFileBlockSize then
        let avail = kFileBlockSize - block_offset;
            avail = (if bytes_to_copy < avail then bytes_to_copy else avail)
        in take avail (drop block_offset (blocks ! block)) @
           FileState_copy blocks (block + 1) 0 (bytes_to_copy - avail)
      else [])"
  by pat_completeness auto
termination
  by (relation "measure (\<lambda>(_, _, _, n). n)") (auto split: if_splits)

definition FileState_Read :: "FileState \<Rightarrow> nat \<Rightarrow> nat \<Rightarrow> status \<times> bytes" where
  "FileState_Read f offset n =
     (if fs_size f < offset then (IOError ''Offset greater than file size.'', [])
      else
        let available = fs_size f - offset;
            n = (if available < n then available else n)
        in if n = 0 then (OK, [])
           else (OK, FileState_copy (fs_blocks f) (offset div kFileBlockSize)
                       (offset mod kFileBlockSize) n))"

text \<open>A fresh block is uninitialised memory; the model fills it with zeros.\<close>

function FileState_append_loop :: "FileState \<Rightarrow> bytes \<Rightarrow> FileState" where
  "FileState_append_loop f src =
     (if src \<noteq> [] then
        let offset = fs_size f mod kFileBlockSize;
            blocks = (if offset \<noteq> 0 then fs_blocks f else fs_blocks f @ [replicate kFileBlockSize 0]);
            avail = kFileBlockSize - offset;
            avail = (if length src < avail then length src else avail);
            last_block = last blocks;
            block' = take offset last_block @ take avail src @ drop (offset + avail) last_block
        in FileState_append_loop
             (f\<lparr>fs_blocks := butlast blocks @ [block'], fs_size := fs_size f + avail\<rparr>) (drop avail src)
      else f)"
  by pat_completeness auto
termination
  by (relation "measure (\<lambda>(_, src). length src)") auto

definition FileState_Append :: "FileState \<Rightarrow> bytes \<Rightarrow> status \<times> FileState" where
  "FileState_Append f data = (OK, FileState_append_loop f data)"

declare FileState_copy.simps [simp del] FileState_append_loop.simps [simp del]

section \<open>File objects\<close>

record SequentialFileImpl =
  sq_file :: FileState
  sq_pos :: nat

definition SequentialFileImpl_Read :: "SequentialFileImpl \<Rightarrow> nat \<Rightarrow> status \<times> bytes \<times> SequentialFileImpl" where
  "SequentialFileImpl_Read q n =
     (case FileState_Read (sq_file q) (sq_pos q) n of
        (s, result) \<Rightarrow>
          (s, result, if status_ok s then q\<lparr>sq_pos := sq_pos q + length result\<rparr> else q))"

definition SequentialFileImpl_Skip :: "SequentialFileImpl \<Rightarrow> nat \<Rightarrow> status \<times> SequentialFileImpl" where
  "SequentialFileImpl_Skip q n =
     (if fs_size (sq_file q) < sq_pos q then (IOError ''pos_ > file_->Size()'', q)
      else
        let available = fs_size (sq_file q) - sq_pos q;
            n = (if available < n then available else n)
        in (OK, q\<lparr>sq_pos := sq_pos q + n\<rparr>))"

definition mem_SequentialFile :: "SequentialFileImpl SequentialFile" where
  "mem_SequentialFile = \<lparr>SeqRead = SequentialFileImpl_Read, SeqSkip = SequentialFileImpl_Skip\<rparr>"

definition RandomAccessFileImpl_Read :: "FileState \<Rightarrow> nat \<Rightarrow> nat \<Rightarrow> status \<times> bytes \<times> bool" where
  "RandomAccessFileImpl_Read f offset n = (case FileState_Read f offset n of (s, result) \<Rightarrow> (s, result, result \<noteq> []))"

definition mem_RandomAccessFile :: "FileState RandomAccessFile" where
  "mem_RandomAccessFile = \<lparr>RRead = RandomAccessFileImpl_Read\<rparr>"

definition mem_WritableFile :: "FileState WritableFile" where
  "mem_WritableFile =
     \<lparr>WAppend = FileState_Append, WFlush = Pair OK, WSync = Pair OK, WClose = Pair OK\<rparr>"

section \<open>A file state holds the bytes appended to it\<close>

definition fs_ok :: "FileState \<Rightarrow> bool" where
  "fs_ok f \<longleftrightarrow> (\<forall>b \<in> set (fs_blocks f). length b = kFileBlockSize) \<and>
     length (fs_blocks f) =
       fs_size f div kFileBlockSize + (if fs_size f mod kFileBlockSize = 0 then 0 else 1)"

definition fs_contents :: "FileState \<Rightarrow> bytes" where
  "fs_contents f = take (fs_size f) (concat (fs_blocks f))"

lemma length_concat_blocks:
  "(\<forall>b \<in> set bs. length b = k) \<Longrightarrow> length (concat bs) = length bs * k"
  by (induction bs) auto

lemma drop_concat_blocks:
  "(\<forall>b \<in> set bs. length b = k) \<Longrightarrow> drop (i * k) (concat bs) = concat (drop i bs)"
proof (induction bs arbitrary: i)
  case (Cons b bs)
  then show ?case by (cases i) auto
qed simp

lemma FileState_copy_spec:
  assumes "\<forall>b \<in> set blocks. length b = kFileBlockSize" and "off < kFileBlockSize"
    and "block * kFileBlockSize + off + n \<le> length blocks * kFileBlockSize"
  shows "FileState_copy blocks block off n = take n (drop (block * kFileBlockSize + off) (concat blocks))"
  using assms
proof (induction blocks block off n rule: FileState_copy.induct)
  case (1 blocks block off n)
  let ?B = kFileBlockSize
  show ?case
  proof (cases "n = 0")
    case True
    then show ?thesis by (simp add: FileState_copy.simps)
  next
    case False
    define a where "a = (if n < ?B - off then n else ?B - off)"
    have block: "block < length blocks"
      using "1.prems"(3) False by (metis add_gr_0 add_lessD1 linorder_not_less mult_le_mono1 nat_add_left_cancel_less
        not_gr_zero order.strict_trans2 less_add_same_cancel1 add.assoc)
    have rest: "drop (block * ?B) (concat blocks) = blocks ! block @ drop (Suc block * ?B) (concat blocks)"
      using block drop_concat_blocks [OF "1.prems"(1)] by (metis Cons_nth_drop_Suc concat.simps(2))
    have len: "length (blocks ! block) = ?B" using "1.prems"(1) block by simp
    have "FileState_copy blocks block off n =
        take a (drop off (blocks ! block)) @ FileState_copy blocks (Suc block) 0 (n - a)"
      using False "1.prems"(2) by (subst FileState_copy.simps) (simp add: a_def Let_def)
    also have "FileState_copy blocks (Suc block) 0 (n - a) = take (n - a) (drop (Suc block * ?B) (concat blocks))"
    proof (cases "n < ?B - off")
      case True
      then show ?thesis by (simp add: a_def FileState_copy.simps)
    next
      case F: False
      then show ?thesis
        using "1.IH" [OF _ refl refl] "1.prems" False by (simp add: a_def algebra_simps)
    qed
    also have "take a (drop off (blocks ! block)) @ take (n - a) (drop (Suc block * ?B) (concat blocks)) =
        take n (drop (block * ?B + off) (concat blocks))"
    proof -
      define R where "R = drop (Suc block * ?B) (concat blocks)"
      have "drop (block * ?B + off) (concat blocks) = drop off (drop (block * ?B) (concat blocks))"
        by (simp add: add.commute)
      then have "drop (block * ?B + off) (concat blocks) = drop off (blocks ! block @ R)"
        using rest by (simp add: R_def)
      then show ?thesis
        using len "1.prems"(2) unfolding R_def [symmetric] by (simp add: a_def)
    qed
    finally show ?thesis .
  qed
qed

lemma block_split:
  obtains q off where "n div kFileBlockSize = q" "n mod kFileBlockSize = off"
    "n = q * kFileBlockSize + off" "off < kFileBlockSize"
  using that [of "n div kFileBlockSize" "n mod kFileBlockSize"] by simp

lemma blocks_cover:
  assumes "fs_ok f"
  shows "fs_size f \<le> length (fs_blocks f) * kFileBlockSize"
proof -
  obtain q off where "fs_size f div kFileBlockSize = q" "fs_size f mod kFileBlockSize = off"
    "fs_size f = q * kFileBlockSize + off" "off < kFileBlockSize"
    by (rule block_split)
  then show ?thesis
    using assms by (auto simp: fs_ok_def)
qed

lemma length_fs_contents [simp]: "fs_ok f \<Longrightarrow> length (fs_contents f) = fs_size f"
  using blocks_cover [of f] length_concat_blocks [of "fs_blocks f" kFileBlockSize]
  by (simp add: fs_contents_def fs_ok_def)

lemma FileState_Read_spec:
  assumes "fs_ok f" and "offset \<le> fs_size f"
  shows "FileState_Read f offset n = (OK, take n (drop offset (fs_contents f)))"
proof -
  have "FileState_copy (fs_blocks f) (offset div kFileBlockSize) (offset mod kFileBlockSize) m =
      take m (drop offset (fs_contents f))" if "offset + m \<le> fs_size f" for m
    using that assms blocks_cover [OF assms(1)]
    by (subst FileState_copy_spec) (auto simp: fs_ok_def fs_contents_def drop_take min_def)
  then show ?thesis
    using assms by (auto simp: FileState_Read_def Let_def)
qed

text \<open>One round of the append loop fills the last block, or a fresh one.\<close>

definition append_round :: "FileState \<Rightarrow> bytes \<Rightarrow> FileState" where
  "append_round f src =
     (let offset = fs_size f mod kFileBlockSize;
          blocks = (if offset \<noteq> 0 then fs_blocks f else fs_blocks f @ [replicate kFileBlockSize 0]);
          avail = min (length src) (kFileBlockSize - offset)
      in f\<lparr>fs_blocks := butlast blocks @
               [take offset (last blocks) @ take avail src @ drop (offset + avail) (last blocks)],
           fs_size := fs_size f + avail\<rparr>)"

lemma append_loop_round:
  assumes "src \<noteq> []"
  shows "FileState_append_loop f src =
    FileState_append_loop (append_round f src)
      (drop (min (length src) (kFileBlockSize - fs_size f mod kFileBlockSize)) src)"
  using assms
  by (subst FileState_append_loop.simps) (auto simp: append_round_def Let_def min_def)

lemma append_round_spec:
  assumes ok: "fs_ok f" and src: "src \<noteq> []"
  defines "avail \<equiv> min (length src) (kFileBlockSize - fs_size f mod kFileBlockSize)"
  shows "fs_ok (append_round f src) \<and> fs_contents (append_round f src) = fs_contents f @ take avail src"
proof -
  let ?B = kFileBlockSize
  obtain q off where q: "fs_size f div ?B = q" "fs_size f mod ?B = off" "fs_size f = q * ?B + off" "off < ?B"
    by (rule block_split)
  define blocks where
    "blocks = (if off \<noteq> 0 then fs_blocks f else fs_blocks f @ [replicate ?B 0])"
  have len: "length blocks = Suc q" "\<forall>b \<in> set blocks. length b = ?B"
    using ok q(1,2) by (auto simp: blocks_def fs_ok_def)
  then obtain bs b where b: "blocks = bs @ [b]" "length b = ?B" "length bs = q"
    "\<forall>b \<in> set bs. length b = ?B"
    by (cases blocks rule: rev_cases) auto
  have bs: "length (concat bs) = q * ?B"
    using length_concat_blocks [OF b(4)] b(3) by simp
  have old: "fs_contents f = concat bs @ take off b"
    using b(1) bs q(3) by (cases "off = 0") (simp_all add: blocks_def fs_contents_def)
  define b' where "b' = take off b @ take avail src @ drop (off + avail) b"
  have avail: "0 < avail" "off + avail \<le> ?B" "avail \<le> length src"
    using src q(2,4) by (auto simp: avail_def)
  have round: "fs_blocks (append_round f src) = bs @ [b']" "fs_size (append_round f src) = q * ?B + (off + avail)"
    using b(1) unfolding blocks_def append_round_def Let_def q(2)
    by (auto simp: b'_def avail_def q)
  have "length b' = ?B"
    using avail b(2) by (simp add: b'_def)
  then have "fs_ok (append_round f src)"
    using avail b(3,4) by (cases "off + avail = ?B") (auto simp: fs_ok_def round)
  moreover have "fs_contents (append_round f src) = fs_contents f @ take avail src"
    using avail b(2) bs unfolding old fs_contents_def [of "append_round f src"] round
    by (simp add: b'_def)
  ultimately show ?thesis by simp
qed

lemma FileState_append_loop_spec:
  "fs_ok f \<Longrightarrow> fs_ok (FileState_append_loop f src) \<and>
     fs_contents (FileState_append_loop f src) = fs_contents f @ src"
proof (induction "length src" arbitrary: f src rule: less_induct)
  case less
  show ?case
  proof (cases "src = []")
    case True
    then show ?thesis using less.prems by (simp add: FileState_append_loop.simps)
  next
    case False
    let ?a = "min (length src) (kFileBlockSize - fs_size f mod kFileBlockSize)"
    have "fs_size f mod kFileBlockSize < kFileBlockSize" by simp
    then have "length (drop ?a src) < length src" using False by (simp add: min_def)
    from less.hyps [OF this] append_round_spec [OF less.prems False]
    show ?thesis
      unfolding append_loop_round [OF False] by simp
  qed
qed

lemma fs_ok_new [simp]:
  "fs_ok new_FileState" "fs_contents new_FileState = []" "fs_refs new_FileState = 0"
  by (simp_all add: fs_ok_def new_FileState_def fs_contents_def)

definition sq_ok :: "SequentialFileImpl \<Rightarrow> bool" where
  "sq_ok q \<longleftrightarrow> fs_ok (sq_file q) \<and> sq_pos q \<le> fs_size (sq_file q)"

definition sq_left :: "SequentialFileImpl \<Rightarrow> bytes" where
  "sq_left q = drop (sq_pos q) (fs_contents (sq_file q))"

lemma drop_min_length: "drop (min (length xs) n) xs = drop n xs"
  by (cases "n \<le> length xs") (simp_all add: min_def)

interpretation mem_seq: sequential_file mem_SequentialFile sq_left sq_ok
proof
  fix f n assume "sq_ok f"
  then show "\<exists>f'. SeqRead mem_SequentialFile f n = (OK, take n (sq_left f), f') \<and> sq_ok f' \<and>
      sq_left f' = drop n (sq_left f)"
    using drop_min_length [of "drop (sq_pos f) (fs_contents (sq_file f))" n]
    by (auto simp: mem_SequentialFile_def SequentialFileImpl_Read_def FileState_Read_spec sq_ok_def
        sq_left_def add.commute)
  show "\<exists>f'. SeqSkip mem_SequentialFile f n = (OK, f') \<and> sq_ok f' \<and> sq_left f' = drop n (sq_left f)"
    using \<open>sq_ok f\<close>
    by (auto simp: mem_SequentialFile_def SequentialFileImpl_Skip_def sq_ok_def sq_left_def Let_def
        add.commute)
qed

interpretation mem_random: random_access_file mem_RandomAccessFile fs_contents fs_ok
proof
  fix f offset n assume f: "fs_ok f" "offset \<le> length (fs_contents f)"
  then have "offset \<le> fs_size f" using length_fs_contents [OF f(1)] by simp
  then show "\<exists>scratch. RRead mem_RandomAccessFile f offset n = (OK, take n (drop offset (fs_contents f)), scratch)"
    using FileState_Read_spec [OF f(1)] by (simp add: mem_RandomAccessFile_def RandomAccessFileImpl_Read_def)
qed

interpretation mem_writable: writable_file mem_WritableFile fs_contents fs_ok
  by unfold_locales
     (auto simp: mem_WritableFile_def FileState_Append_def FileState_append_loop_spec)

section \<open>The environment\<close>

text \<open>
  \<^verbatim>\<open>file_map_\<close> maps names to pointers, which may be null; the file states live in a store indexed by
  address. \<open>None\<close> as the result of an operation is the dereference of a null pointer.
\<close>

record InMemoryEnv =
  file_map :: "string \<rightharpoonup> nat option"
  file_store :: "nat \<rightharpoonup> FileState"
  next_addr :: nat

definition new_InMemoryEnv :: InMemoryEnv where
  "new_InMemoryEnv = \<lparr>file_map = Map.empty, file_store = Map.empty, next_addr = 0\<rparr>"

text \<open>\<^verbatim>\<open>new FileState()\<close> followed by \<^verbatim>\<open>Ref()\<close>.\<close>

definition env_alloc :: "InMemoryEnv \<Rightarrow> nat \<times> InMemoryEnv" where
  "env_alloc e =
     (let a = next_addr e in
      (a, e\<lparr>file_store := (file_store e)(a \<mapsto> FileState_Ref new_FileState), next_addr := a + 1\<rparr>))"

definition env_update :: "nat \<Rightarrow> (FileState \<Rightarrow> FileState) \<Rightarrow> InMemoryEnv \<Rightarrow> InMemoryEnv" where
  "env_update a g e = e\<lparr>file_store := (file_store e)(a := map_option g (file_store e a))\<rparr>"

definition env_unref :: "nat \<Rightarrow> InMemoryEnv \<Rightarrow> InMemoryEnv" where
  "env_unref a e =
     (case file_store e a of
        None \<Rightarrow> e
      | Some f \<Rightarrow>
          (case FileState_Unref f of
             (f', do_delete) \<Rightarrow>
               e\<lparr>file_store := (file_store e)(a := if do_delete then None else Some f')\<rparr>))"

definition NewSequentialFile :: "InMemoryEnv \<Rightarrow> string \<Rightarrow> (status \<times> nat option \<times> InMemoryEnv) option" where
  "NewSequentialFile e fname =
     (case file_map e fname of
        None \<Rightarrow> Some (IOError (status_msg2 fname ''File not found''), None, e)
      | Some None \<Rightarrow> None
      | Some (Some a) \<Rightarrow> Some (OK, Some a, env_update a FileState_Ref e))"

definition NewRandomAccessFile :: "InMemoryEnv \<Rightarrow> string \<Rightarrow> (status \<times> nat option \<times> InMemoryEnv) option" where
  "NewRandomAccessFile e fname =
     (case file_map e fname of
        None \<Rightarrow> Some (IOError (status_msg2 fname ''File not found''), None, e)
      | Some None \<Rightarrow> None
      | Some (Some a) \<Rightarrow> Some (OK, Some a, env_update a FileState_Ref e))"

definition NewWritableFile :: "InMemoryEnv \<Rightarrow> string \<Rightarrow> (status \<times> nat \<times> InMemoryEnv) option" where
  "NewWritableFile e fname =
     (case file_map e fname of
        None \<Rightarrow>
          (case env_alloc e of
             (a, e) \<Rightarrow> Some (OK, a, env_update a FileState_Ref (e\<lparr>file_map := (file_map e)(fname \<mapsto> Some a)\<rparr>)))
      | Some None \<Rightarrow> None
      | Some (Some a) \<Rightarrow> Some (OK, a, env_update a FileState_Ref (env_update a FileState_Truncate e)))"

text \<open>
  \<^verbatim>\<open>file_map_[fname]\<close> enters a null pointer for a new name; the state that is then created is not
  stored there.
\<close>

definition NewAppendableFile :: "InMemoryEnv \<Rightarrow> string \<Rightarrow> (status \<times> nat \<times> InMemoryEnv) option" where
  "NewAppendableFile e fname =
     (let e = (if file_map e fname = None then e\<lparr>file_map := (file_map e)(fname \<mapsto> None)\<rparr> else e) in
      case file_map e fname of
        Some (Some a) \<Rightarrow> Some (OK, a, env_update a FileState_Ref e)
      | _ \<Rightarrow> (case env_alloc e of (a, e) \<Rightarrow> Some (OK, a, env_update a FileState_Ref e)))"

definition FileExists :: "InMemoryEnv \<Rightarrow> string \<Rightarrow> bool" where
  "FileExists e fname \<longleftrightarrow> file_map e fname \<noteq> None"

definition RemoveFileInternal :: "InMemoryEnv \<Rightarrow> string \<Rightarrow> InMemoryEnv option" where
  "RemoveFileInternal e fname =
     (case file_map e fname of
        None \<Rightarrow> Some e
      | Some None \<Rightarrow> None
      | Some (Some a) \<Rightarrow> Some ((env_unref a e)\<lparr>file_map := (file_map e)(fname := None)\<rparr>))"

definition RemoveFile :: "InMemoryEnv \<Rightarrow> string \<Rightarrow> (status \<times> InMemoryEnv) option" where
  "RemoveFile e fname =
     (if file_map e fname = None then Some (IOError (status_msg2 fname ''File not found''), e)
      else map_option (Pair OK) (RemoveFileInternal e fname))"

definition GetFileSize :: "InMemoryEnv \<Rightarrow> string \<Rightarrow> (status \<times> nat) option" where
  "GetFileSize e fname =
     (case file_map e fname of
        None \<Rightarrow> Some (IOError (status_msg2 fname ''File not found''), 0)
      | Some None \<Rightarrow> None
      | Some (Some a) \<Rightarrow> map_option (\<lambda>f. (OK, fs_size f)) (file_store e a))"

definition RenameFile :: "InMemoryEnv \<Rightarrow> string \<Rightarrow> string \<Rightarrow> (status \<times> InMemoryEnv) option" where
  "RenameFile e src target =
     (if file_map e src = None then Some (IOError (status_msg2 src ''File not found''), e)
      else
        case RemoveFileInternal e target of
          None \<Rightarrow> None
        | Some e \<Rightarrow>
            let m = file_map e;
                p = (case m src of None \<Rightarrow> None | Some p \<Rightarrow> p)
            in Some (OK, e\<lparr>file_map := (m(target \<mapsto> p))(src := None)\<rparr>))"

text \<open>The contents a name stands for, and the environments in which every name has a live state.\<close>

definition env_file :: "InMemoryEnv \<Rightarrow> string \<Rightarrow> bytes option" where
  "env_file e fname =
     (case file_map e fname of
        Some (Some a) \<Rightarrow> map_option fs_contents (file_store e a)
      | _ \<Rightarrow> None)"

definition env_ok :: "InMemoryEnv \<Rightarrow> bool" where
  "env_ok e \<longleftrightarrow>
     (\<forall>fname p. file_map e fname = Some p \<longrightarrow>
        (\<exists>a f. p = Some a \<and> file_store e a = Some f \<and> fs_ok f \<and> 0 < fs_refs f \<and> a < next_addr e)) \<and>
     (\<forall>m n a. file_map e m = Some (Some a) \<longrightarrow> file_map e n = Some (Some a) \<longrightarrow> m = n)"

lemma env_okE:
  assumes "env_ok e" and "file_map e fname = Some p"
  obtains a f where "p = Some a" "file_store e a = Some f" "fs_ok f" "0 < fs_refs f" "a < next_addr e"
  using assms unfolding env_ok_def by blast

lemma env_ok_inj:
  "env_ok e \<Longrightarrow> file_map e m = Some (Some a) \<Longrightarrow> file_map e n = Some (Some a) \<Longrightarrow> m = n"
  unfolding env_ok_def by blast

lemma fs_ok_Ref [simp]: "fs_ok (FileState_Ref f) = fs_ok f" "fs_contents (FileState_Ref f) = fs_contents f"
  "fs_refs (FileState_Ref f) = fs_refs f + 1"
  by (simp_all add: FileState_Ref_def fs_ok_def fs_contents_def)

lemma fs_ok_Truncate [simp]: "fs_ok (FileState_Truncate f)" "fs_contents (FileState_Truncate f) = []"
  "fs_refs (FileState_Truncate f) = fs_refs f"
  by (simp_all add: FileState_Truncate_def fs_ok_def fs_contents_def)

lemma env_update_fields [simp]:
  "file_map (env_update a g e) = file_map e" "next_addr (env_update a g e) = next_addr e"
  "file_store (env_update a g e) = (file_store e)(a := map_option g (file_store e a))"
  by (simp_all add: env_update_def)

lemma env_okI:
  assumes "\<And>g p. file_map e g = Some p \<Longrightarrow>
      \<exists>a f. p = Some a \<and> file_store e a = Some f \<and> fs_ok f \<and> 0 < fs_refs f \<and> a < next_addr e"
    and "\<And>m n a. file_map e m = Some (Some a) \<Longrightarrow> file_map e n = Some (Some a) \<Longrightarrow> m = n"
  shows "env_ok e"
  using assms unfolding env_ok_def by blast

lemma NewWritableFile_new:
  assumes "env_ok e" and "file_map e fname = None"
  shows "\<exists>a e'. NewWritableFile e fname = Some (OK, a, e') \<and> env_ok e' \<and> env_file e' fname = Some [] \<and>
    (\<forall>g. g \<noteq> fname \<longrightarrow> env_file e' g = env_file e g)"
proof -
  define a where "a = next_addr e"
  define e' where "e' = e\<lparr>file_map := (file_map e)(fname \<mapsto> Some a),
    file_store := (file_store e)(a \<mapsto> FileState_Ref (FileState_Ref new_FileState)), next_addr := a + 1\<rparr>"
  have new: "NewWritableFile e fname = Some (OK, a, e')"
    using assms(2) by (simp add: NewWritableFile_def env_alloc_def Let_def e'_def a_def env_update_def)
  have fresh: "b < a" if "file_map e g = Some (Some b)" for g b
    by (rule env_okE [OF assms(1) that]) (simp add: a_def)
  have "env_ok e'"
  proof (rule env_okI)
    fix g p assume g: "file_map e' g = Some p"
    show "\<exists>a f. p = Some a \<and> file_store e' a = Some f \<and> fs_ok f \<and> 0 < fs_refs f \<and> a < next_addr e'"
    proof (cases "g = fname")
      case True
      then show ?thesis using g by (auto simp: e'_def)
    next
      case False
      then have g': "file_map e g = Some p" using g by (simp add: e'_def)
      obtain b f where "p = Some b" "file_store e b = Some f" "fs_ok f" "0 < fs_refs f" "b < a"
        unfolding a_def by (rule env_okE [OF assms(1) g'])
      then show ?thesis by (simp add: e'_def)
    qed
  next
    fix m n b assume "file_map e' m = Some (Some b)" "file_map e' n = Some (Some b)"
    then show "m = n"
      using env_ok_inj [OF assms(1), of m b n] fresh [of m b] fresh [of n b]
      by (auto simp: e'_def split: if_splits)
  qed
  moreover have "env_file e' fname = Some []"
    by (simp add: env_file_def e'_def)
  moreover have "env_file e' g = env_file e g" if "g \<noteq> fname" for g
    using that fresh [of g] by (auto simp: env_file_def e'_def split: option.splits)
  ultimately show ?thesis using new by blast
qed

lemma NewWritableFile_old:
  assumes "env_ok e" and "file_map e fname = Some p"
  shows "\<exists>a e'. NewWritableFile e fname = Some (OK, a, e') \<and> env_ok e' \<and> env_file e' fname = Some [] \<and>
    (\<forall>g. g \<noteq> fname \<longrightarrow> env_file e' g = env_file e g)"
proof -
  obtain a f where a: "p = Some a" "file_store e a = Some f" "fs_ok f" "0 < fs_refs f" "a < next_addr e"
    by (rule env_okE [OF assms])
  define f' where "f' = FileState_Ref (FileState_Truncate f)"
  define e' where "e' = e\<lparr>file_store := (file_store e)(a \<mapsto> f')\<rparr>"
  have f': "fs_ok f'" "0 < fs_refs f'" "fs_contents f' = []"
    using a by (simp_all add: f'_def)
  have new: "NewWritableFile e fname = Some (OK, a, e')"
    using assms(2) a by (simp add: NewWritableFile_def e'_def env_update_def f'_def)
  have "env_ok e'"
  proof (rule env_okI)
    fix g q assume "file_map e' g = Some q"
    then have g: "file_map e g = Some q" by (simp add: e'_def)
    obtain b h where "q = Some b" "file_store e b = Some h" "fs_ok h" "0 < fs_refs h" "b < next_addr e"
      by (rule env_okE [OF assms(1) g])
    then show "\<exists>a f. q = Some a \<and> file_store e' a = Some f \<and> fs_ok f \<and> 0 < fs_refs f \<and> a < next_addr e'"
      using f' a(5) by (simp add: e'_def)
  next
    fix m n b assume "file_map e' m = Some (Some b)" "file_map e' n = Some (Some b)"
    then show "m = n" using env_ok_inj [OF assms(1)] by (simp add: e'_def)
  qed
  moreover have "env_file e' fname = Some []"
    using assms(2) a f' by (simp add: env_file_def e'_def)
  moreover have "env_file e' g = env_file e g" if "g \<noteq> fname" for g
    using that env_ok_inj [OF assms(1), of g a fname] assms(2) a(1)
    by (auto simp: env_file_def e'_def split: option.splits)
  ultimately show ?thesis using new by blast
qed

lemma env_unref_fields:
  assumes "env_ok e" and "file_map e fname = Some (Some a)"
  shows "next_addr (env_unref a e) = next_addr e"
    and "b \<noteq> a \<Longrightarrow> file_store (env_unref a e) b = file_store e b"
  by (rule env_okE [OF assms], simp add: env_unref_def split: prod.splits)+

lemma RemoveFileInternal_spec:
  assumes "env_ok e"
  shows "\<exists>e'. RemoveFileInternal e fname = Some e' \<and> env_ok e' \<and>
    file_map e' = (file_map e)(fname := None) \<and> (\<forall>g. g \<noteq> fname \<longrightarrow> env_file e' g = env_file e g)"
proof (cases "file_map e fname")
  case None
  then show ?thesis using assms by (auto simp: RemoveFileInternal_def)
next
  case (Some p)
  obtain a where a: "p = Some a"
    by (rule env_okE [OF assms Some])
  have map: "file_map e fname = Some (Some a)" using Some a by simp
  define e' where "e' = (env_unref a e)\<lparr>file_map := (file_map e)(fname := None)\<rparr>"
  have other: "b \<noteq> a" if "file_map e' g = Some (Some b)" for g b
    using that env_ok_inj [OF assms map] by (auto simp: e'_def split: if_splits)
  have store: "file_store e' b = file_store e b" if "b \<noteq> a" for b
    using env_unref_fields(2) [OF assms map that] by (simp add: e'_def)
  have "env_ok e'"
  proof (rule env_okI)
    fix g p assume g: "file_map e' g = Some p"
    then have g': "file_map e g = Some p" by (simp add: e'_def split: if_splits)
    obtain b f where b: "p = Some b" "file_store e b = Some f" "fs_ok f"
      "0 < fs_refs f" "b < next_addr e"
      by (rule env_okE [OF assms g'])
    then show "\<exists>b f. p = Some b \<and> file_store e' b = Some f \<and> fs_ok f \<and> 0 < fs_refs f \<and> b < next_addr e'"
      using other [of g b] g store [of b] env_unref_fields(1) [OF assms map] by (simp add: e'_def)
  next
    fix m n b assume "file_map e' m = Some (Some b)" "file_map e' n = Some (Some b)"
    then show "m = n"
      using env_ok_inj [OF assms] by (auto simp: e'_def split: if_splits)
  qed
  moreover have "env_file e' g = env_file e g" if "g \<noteq> fname" for g
    using that other [of g] store by (auto simp: env_file_def e'_def split: option.splits)
  ultimately show ?thesis
    using map by (auto simp: RemoveFileInternal_def e'_def)
qed

lemma RenameFile_ok:
  assumes "env_ok e" and "src \<noteq> target" and "file_map e src = Some p"
  shows "\<exists>e'. RenameFile e src target = Some (OK, e') \<and> env_ok e' \<and>
    env_file e' target = env_file e src \<and> file_map e' src = None \<and>
    (\<forall>g. g \<noteq> src \<longrightarrow> g \<noteq> target \<longrightarrow> env_file e' g = env_file e g)"
proof -
  obtain e1 where e1: "RemoveFileInternal e target = Some e1" "env_ok e1"
    "file_map e1 = (file_map e)(target := None)" "\<And>g. g \<noteq> target \<Longrightarrow> env_file e1 g = env_file e g"
    using RemoveFileInternal_spec [OF assms(1), of target] by blast
  have src: "file_map e1 src = Some p"
    using e1(3) assms(2,3) by simp
  define e' where "e' = e1\<lparr>file_map := ((file_map e1)(target \<mapsto> p))(src := None)\<rparr>"
  have rename: "RenameFile e src target = Some (OK, e')"
    using e1(1) assms(3) src by (simp add: RenameFile_def e'_def Let_def)
  have old: "\<exists>g'. file_map e1 g' = Some q \<and> (g' = g \<or> g' = src \<and> g = target)"
    if "file_map e' g = Some q" for g q
    using that src by (auto simp: e'_def split: if_splits)
  have "env_ok e'"
  proof (rule env_okI)
    fix g q assume "file_map e' g = Some q"
    then obtain g' where g: "file_map e1 g' = Some q" using old by blast
    obtain b h where "q = Some b" "file_store e1 b = Some h" "fs_ok h" "0 < fs_refs h" "b < next_addr e1"
      by (rule env_okE [OF e1(2) g])
    then show "\<exists>a f. q = Some a \<and> file_store e' a = Some f \<and> fs_ok f \<and> 0 < fs_refs f \<and> a < next_addr e'"
      by (simp add: e'_def)
  next
    fix m n b assume m: "file_map e' m = Some (Some b)" and n: "file_map e' n = Some (Some b)"
    obtain m' n' where m': "file_map e1 m' = Some (Some b)" "m' = m \<or> m' = src \<and> m = target"
      and n': "file_map e1 n' = Some (Some b)" "n' = n \<or> n' = src \<and> n = target"
      using old [OF m] old [OF n] by blast
    have "m \<noteq> src" "n \<noteq> src" "m' \<noteq> target" "n' \<noteq> target"
      using m n m'(1) n'(1) e1(3) by (auto simp: e'_def)
    then show "m = n"
      using env_ok_inj [OF e1(2) m'(1) n'(1)] m'(2) n'(2) by blast
  qed
  moreover have "env_file e' target = env_file e src"
    using e1(4) [of src] assms(2) src by (simp add: env_file_def e'_def cong: option.case_cong)
  moreover have "env_file e' g = env_file e g" if "g \<noteq> src" "g \<noteq> target" for g
    using e1(4) [of g] that by (simp add: env_file_def e'_def cong: option.case_cong)
  ultimately show ?thesis
    using rename by (auto simp: e'_def)
qed

section \<open>Properties\<close>

text \<open>C4. The in-memory environment renames a file onto another name: the target then holds the
  contents of the source, the source name is gone, every other name keeps its contents and no name
  is left without a live file state.\<close>

theorem RenameFile_moves_contents:
  assumes "env_ok e" and "src \<noteq> target" and "FileExists e src"
  shows "\<exists>e'. RenameFile e src target = Some (OK, e') \<and> env_ok e' \<and>
    env_file e' target = env_file e src \<and> \<not> FileExists e' src \<and>
    (\<forall>g. g \<noteq> src \<longrightarrow> g \<noteq> target \<longrightarrow> env_file e' g = env_file e g)"
  using RenameFile_ok [OF assms(1,2)] assms(3) by (auto simp: FileExists_def)

definition example_env :: InMemoryEnv where
  "example_env =
     \<lparr>file_map = [''a'' \<mapsto> Some 0, ''b'' \<mapsto> Some 1],
      file_store = [0 \<mapsto> FileState_Ref new_FileState, 1 \<mapsto> FileState_Ref new_FileState], next_addr = 2\<rparr>"

lemma example_env_ok: "env_ok example_env"
  by (rule env_okI) (auto simp: example_env_def split: if_splits)

theorem RenameFile_moves_contents_witness:
  "\<exists>e'. RenameFile example_env ''a'' ''b'' = Some (OK, e') \<and> env_ok e' \<and>
    env_file e' ''b'' = env_file example_env ''a'' \<and> \<not> FileExists e' ''a'' \<and>
    (\<forall>g. g \<noteq> ''a'' \<longrightarrow> g \<noteq> ''b'' \<longrightarrow> env_file e' g = env_file example_env g)"
  by (rule RenameFile_moves_contents [OF example_env_ok]) (simp_all add: example_env_def FileExists_def)

text \<open>C5. The in-memory environment loses a file that is opened for appending under a new name: the
  name then exists, but it maps to a null pointer, so that opening it for reading dereferences null
  whatever was appended.\<close>

theorem NewAppendableFile_loses_file:
  assumes "file_map e fname = None"
  shows "\<exists>a e'. NewAppendableFile e fname = Some (OK, a, e') \<and> FileExists e' fname \<and>
    NewSequentialFile (env_update a g e') fname = None \<and> env_file (env_update a g e') fname = None"
  using assms
  by (auto simp: NewAppendableFile_def env_alloc_def Let_def FileExists_def NewSequentialFile_def
      env_file_def)

theorem NewAppendableFile_loses_file_witness:
  "\<exists>a e'. NewAppendableFile new_InMemoryEnv ''log'' = Some (OK, a, e') \<and> FileExists e' ''log'' \<and>
    NewSequentialFile (env_update a (\<lambda>f. snd (FileState_Append f [1])) e') ''log'' = None \<and>
    env_file (env_update a (\<lambda>f. snd (FileState_Append f [1])) e') ''log'' = None"
  by (rule NewAppendableFile_loses_file) (simp add: new_InMemoryEnv_def)

text \<open>C6. Renaming a file of the in-memory environment to its own name reports success and removes
  the name.\<close>

theorem RenameFile_self_removes:
  assumes "env_ok e" and "FileExists e fname"
  shows "\<exists>e'. RenameFile e fname fname = Some (OK, e') \<and> \<not> FileExists e' fname"
  using RemoveFileInternal_spec [OF assms(1), of fname] assms(2)
  by (auto simp: RenameFile_def FileExists_def Let_def)

theorem RenameFile_self_removes_witness:
  "\<exists>e'. RenameFile example_env ''a'' ''a'' = Some (OK, e') \<and> \<not> FileExists e' ''a''"
  by (rule RenameFile_self_removes [OF example_env_ok]) (simp add: example_env_def FileExists_def)

end
