(* ===== verification/Log.thy ===== *)
theory Log
  imports Crc32c Memenv
begin

text \<open>
  The write-ahead log: db/log_format.h, db/log_writer.cc and db/log_reader.cc.

  The writer cuts each record into fragments that do not cross a 32 KB block and puts a header
  with a masked checksum in front of each. The reader reads the file block by block and joins the
  fragments again, dropping what it cannot trust. Both work on the file interfaces of Memenv; the
  reader's loop is a \<^verbatim>\<open>partial_function\<close>, so that a call that does not return is \<open>None\<close>.

  The main result is the round trip: reading a log file returns the records that were added, in
  their order, and reports no corruption.
\<close>

section \<open>Format\<close>

datatype RecordType = kZeroType | kFullType | kFirstType | kMiddleType | kLastType

fun RecordType_code :: "RecordType \<Rightarrow> nat" where
  "RecordType_code kZeroType = 0"
| "RecordType_code kFullType = 1"
| "RecordType_code kFirstType = 2"
| "RecordType_code kMiddleType = 3"
| "RecordType_code kLastType = 4"

abbreviation type_num :: "RecordType \<Rightarrow> u32" where
  "type_num t \<equiv> word_of_nat (RecordType_code t)"

definition kBlockSize :: nat where "kBlockSize = 32768"
definition kHeaderSize :: nat where "kHeaderSize = 4 + 2 + 1"

section \<open>Writer\<close>

record 'f log_writer =
  lw_dest :: 'f
  lw_block_offset :: nat

definition type_crc :: "RecordType \<Rightarrow> u32" where
  "type_crc t = Value [word_of_nat (RecordType_code t)]"

definition make_log_writer :: "'f \<Rightarrow> 'f log_writer" where
  "make_log_writer dest = \<lparr>lw_dest = dest, lw_block_offset = 0\<rparr>"

definition make_log_writer_at :: "'f \<Rightarrow> nat \<Rightarrow> 'f log_writer" where
  "make_log_writer_at dest dest_length =
     \<lparr>lw_dest = dest, lw_block_offset = dest_length mod kBlockSize\<rparr>"

definition physical_header :: "RecordType \<Rightarrow> bytes \<Rightarrow> bytes" where
  "physical_header t payload =
     EncodeFixed32 (Mask (Extend (type_crc t) payload)) @
     [word_of_nat (length payload mod 256), word_of_nat (length payload div 256),
      word_of_nat (RecordType_code t)]"

definition EmitPhysicalRecord ::
  "'f WritableFile \<Rightarrow> 'f log_writer \<Rightarrow> RecordType \<Rightarrow> bytes \<Rightarrow> status \<times> 'f log_writer" where
  "EmitPhysicalRecord ops w t payload =
     (let (s, f) = WAppend ops (lw_dest w) (physical_header t payload);
          (s, f) = (if status_ok s then
                      let (s, f) = WAppend ops f payload in
                      if status_ok s then WFlush ops f else (s, f)
                    else (s, f))
      in (s, w\<lparr>lw_dest := f, lw_block_offset := lw_block_offset w + (kHeaderSize + length payload)\<rparr>))"

text \<open>A block in which no header fits is filled with zeros; the status of that write is ignored.\<close>

definition switch_block :: "'f WritableFile \<Rightarrow> 'f log_writer \<Rightarrow> 'f log_writer" where
  "switch_block ops w =
     (let leftover = kBlockSize - lw_block_offset w in
      if leftover < kHeaderSize then
        w\<lparr>lw_dest := (if 0 < leftover then snd (WAppend ops (lw_dest w) (replicate leftover 0))
                       else lw_dest w),
          lw_block_offset := 0\<rparr>
      else w)"

definition fragment_type :: "bool \<Rightarrow> bool \<Rightarrow> RecordType" where
  "fragment_type begin end =
     (if begin \<and> end then kFullType else if begin then kFirstType
      else if end then kLastType else kMiddleType)"

lemma switch_block_offset:
  "lw_block_offset (switch_block ops w) + kHeaderSize \<le> kBlockSize"
  "lw_block_offset (switch_block ops w) = 0 \<or> lw_block_offset (switch_block ops w) = lw_block_offset w"
  by (auto simp: switch_block_def Let_def kBlockSize_def kHeaderSize_def)

lemma EmitPhysicalRecord_offset:
  "lw_block_offset (snd (EmitPhysicalRecord ops w t payload)) =
     lw_block_offset w + (kHeaderSize + length payload)"
  by (simp add: EmitPhysicalRecord_def Let_def split: prod.splits)

function AddRecord_loop ::
  "'f WritableFile \<Rightarrow> 'f log_writer \<Rightarrow> bool \<Rightarrow> bytes \<Rightarrow> status \<times> 'f log_writer" where
  "AddRecord_loop ops w begin ptr =
     (let w1 = switch_block ops w;
          avail = kBlockSize - lw_block_offset w1 - kHeaderSize;
          fragment_length = (if length ptr < avail then length ptr else avail);
          end = (length ptr = fragment_length);
          (s, w2) = EmitPhysicalRecord ops w1 (fragment_type begin end) (take fragment_length ptr);
          rest = drop fragment_length ptr
      in if status_ok s \<and> rest \<noteq> [] then AddRecord_loop ops w2 False rest else (s, w2))"
  by pat_completeness auto
termination
proof (relation "measure (\<lambda>(ops, w, _, ptr). 2 * length ptr +
    (if lw_block_offset w + kHeaderSize = kBlockSize then 1 else 0))", goal_cases)
  case 1
  show ?case by simp
next
  case (2 ops w b ptr w1 avail len e x s w2 rest)
  have off: "lw_block_offset w2 = lw_block_offset w1 + (kHeaderSize + length (take len ptr))"
    using EmitPhysicalRecord_offset [of ops w1 "fragment_type b e" "take len ptr"] 2 by (metis snd_conv)
  have w1: "lw_block_offset w1 + kHeaderSize \<le> kBlockSize"
    "lw_block_offset w1 = 0 \<or> lw_block_offset w1 = lw_block_offset w"
    using switch_block_offset [of ops w] 2(1) by simp_all
  show ?case
  proof (cases "len = 0")
    case True
    then have "lw_block_offset w1 + kHeaderSize = kBlockSize"
      using 2 w1(1) by (auto simp: kHeaderSize_def kBlockSize_def split: if_splits)
    then show ?thesis
      using 2 True off w1 by (auto simp: kHeaderSize_def kBlockSize_def)
  next
    case False
    then show ?thesis
      using 2 by (auto split: if_splits)
  qed
qed

declare AddRecord_loop.simps [simp del]

definition AddRecord :: "'f WritableFile \<Rightarrow> 'f log_writer \<Rightarrow> bytes \<Rightarrow> status \<times> 'f log_writer" where
  "AddRecord ops w data = AddRecord_loop ops w True data"

section \<open>Reader\<close>

definition kEof :: u32 where "kEof = 5"
definition kBadRecord :: u32 where "kBadRecord = 6"

record 'f log_reader =
  lr_file :: 'f
  lr_reporter :: bool
  lr_checksum :: bool
  lr_buffer :: bytes
  lr_eof :: bool
  lr_last_record_offset :: u64
  lr_end_of_buffer_offset :: u64
  lr_initial_offset :: u64
  lr_resyncing :: bool
  lr_reports :: "(u64 \<times> status) list"

definition make_log_reader :: "'f \<Rightarrow> bool \<Rightarrow> bool \<Rightarrow> u64 \<Rightarrow> 'f log_reader" where
  "make_log_reader file reporter checksum initial_offset =
     \<lparr>lr_file = file, lr_reporter = reporter, lr_checksum = checksum, lr_buffer = [], lr_eof = False,
      lr_last_record_offset = 0, lr_end_of_buffer_offset = 0, lr_initial_offset = initial_offset,
      lr_resyncing = (0 < initial_offset), lr_reports = []\<rparr>"

definition ReportDrop :: "u64 \<Rightarrow> status \<Rightarrow> 'f log_reader \<Rightarrow> 'f log_reader" where
  "ReportDrop n reason r =
     (if lr_reporter r \<and>
         lr_initial_offset r \<le> lr_end_of_buffer_offset r - word_of_nat (length (lr_buffer r)) - n
      then r\<lparr>lr_reports := lr_reports r @ [(n, reason)]\<rparr> else r)"

definition ReportCorruption :: "u64 \<Rightarrow> string \<Rightarrow> 'f log_reader \<Rightarrow> 'f log_reader" where
  "ReportCorruption n reason r = ReportDrop n (Corruption reason) r"

definition SkipToInitialBlock :: "'f SequentialFile \<Rightarrow> 'f log_reader \<Rightarrow> bool \<times> 'f log_reader" where
  "SkipToInitialBlock ops r =
     (let offset_in_block = lr_initial_offset r mod word_of_nat kBlockSize;
          block_start_location = lr_initial_offset r - offset_in_block;
          block_start_location =
            (if word_of_nat kBlockSize - 6 < offset_in_block
             then block_start_location + word_of_nat kBlockSize else block_start_location);
          r = r\<lparr>lr_end_of_buffer_offset := block_start_location\<rparr>
      in if 0 < block_start_location then
           let (skip_status, f) = SeqSkip ops (lr_file r) (unat block_start_location);
               r = r\<lparr>lr_file := f\<rparr>
           in if status_ok skip_status then (True, r)
              else (False, ReportDrop block_start_location skip_status r)
         else (True, r))"

text \<open>The second half of the loop body of \<^verbatim>\<open>ReadPhysicalRecord\<close>: a header is in the buffer.\<close>

definition ParsePhysicalRecord :: "'f log_reader \<Rightarrow> u32 \<times> bytes \<times> 'f log_reader" where
  "ParsePhysicalRecord r =
     (let header = lr_buffer r;
          a = ucast (header ! 4) AND (0xff :: u32);
          b = ucast (header ! 5) AND (0xff :: u32);
          type = (scast (header ! 6) :: u32);
          len = a OR push_bit 8 b
      in if length (lr_buffer r) < kHeaderSize + unat len then
           let drop_size = length (lr_buffer r);
               r = r\<lparr>lr_buffer := []\<rparr>
           in if \<not> lr_eof r then
                (kBadRecord, [], ReportCorruption (word_of_nat drop_size) ''bad record length'' r)
              else (kEof, [], r)
         else if type = type_num kZeroType \<and> len = 0 then (kBadRecord, [], r\<lparr>lr_buffer := []\<rparr>)
         else if lr_checksum r \<and>
                 Value (take (1 + unat len) (drop 6 header)) \<noteq> Unmask (DecodeFixed32 header)
         then
           let drop_size = length (lr_buffer r);
               r = r\<lparr>lr_buffer := []\<rparr>
           in (kBadRecord, [], ReportCorruption (word_of_nat drop_size) ''checksum mismatch'' r)
         else
           let r = r\<lparr>lr_buffer := drop (kHeaderSize + unat len) (lr_buffer r)\<rparr>
           in if lr_end_of_buffer_offset r - word_of_nat (length (lr_buffer r)) -
                   word_of_nat kHeaderSize - ucast len < lr_initial_offset r
              then (kBadRecord, [], r)
              else (type, take (unat len) (drop kHeaderSize header), r))"

text \<open>
  \<^verbatim>\<open>ReadPhysicalRecord\<close>: its loop goes round at most twice, since a read that leaves less than a
  header in the buffer was short and sets \<^verbatim>\<open>eof_\<close>.
\<close>

definition ReadPhysicalRecord :: "'f SequentialFile \<Rightarrow> 'f log_reader \<Rightarrow> u32 \<times> bytes \<times> 'f log_reader" where
  "ReadPhysicalRecord ops r =
     (if length (lr_buffer r) < kHeaderSize then
        if \<not> lr_eof r then
          let (status, data, f) = SeqRead ops (lr_file r) kBlockSize;
              r = r\<lparr>lr_file := f, lr_buffer := data,
                    lr_end_of_buffer_offset := lr_end_of_buffer_offset r + word_of_nat (length data)\<rparr>
          in if \<not> status_ok status then
               (kEof, [],
                (ReportDrop (word_of_nat kBlockSize) status (r\<lparr>lr_buffer := []\<rparr>))\<lparr>lr_eof := True\<rparr>)
             else
               let r = (if length data < kBlockSize then r\<lparr>lr_eof := True\<rparr> else r) in
               if length (lr_buffer r) < kHeaderSize then (kEof, [], r\<lparr>lr_buffer := []\<rparr>)
               else ParsePhysicalRecord r
        else (kEof, [], r\<lparr>lr_buffer := []\<rparr>)
      else ParsePhysicalRecord r)"

definition unknown_record_type :: "u32 \<Rightarrow> string" where
  "unknown_record_type t = ''unknown record type '' @ decimal (unat t)"

text \<open>The offset of the physical record just read, from where the buffer now stands.\<close>

definition physical_record_offset :: "'f log_reader \<Rightarrow> bytes \<Rightarrow> u64" where
  "physical_record_offset r fragment =
     lr_end_of_buffer_offset r - word_of_nat (length (lr_buffer r)) - word_of_nat kHeaderSize -
     word_of_nat (length fragment)"

partial_function (option) ReadRecord_loop ::
  "'f SequentialFile \<Rightarrow> bool \<Rightarrow> bytes \<Rightarrow> u64 \<Rightarrow> 'f log_reader \<Rightarrow> (bytes option \<times> 'f log_reader) option" where
  "ReadRecord_loop ops in_fragmented_record scratch prospective r0 =
     (case ReadPhysicalRecord ops r0 of
        (record_type, fragment, r) \<Rightarrow>
          if lr_resyncing r \<and> record_type = type_num kMiddleType then
            ReadRecord_loop ops in_fragmented_record scratch prospective r
          else if lr_resyncing r \<and> record_type = type_num kLastType then
            ReadRecord_loop ops in_fragmented_record scratch prospective (r\<lparr>lr_resyncing := False\<rparr>)
          else if record_type = type_num kFullType then
            Some (Some fragment,
              (if in_fragmented_record \<and> scratch \<noteq> []
               then ReportCorruption (word_of_nat (length scratch)) ''partial record without end(1)''
                      (r\<lparr>lr_resyncing := False\<rparr>)
               else r\<lparr>lr_resyncing := False\<rparr>)
              \<lparr>lr_last_record_offset := physical_record_offset r fragment\<rparr>)
          else if record_type = type_num kFirstType then
            ReadRecord_loop ops True fragment (physical_record_offset r fragment)
              (if in_fragmented_record \<and> scratch \<noteq> []
               then ReportCorruption (word_of_nat (length scratch)) ''partial record without end(2)''
                      (r\<lparr>lr_resyncing := False\<rparr>)
               else r\<lparr>lr_resyncing := False\<rparr>)
          else if record_type = type_num kMiddleType then
            (if \<not> in_fragmented_record then
               ReadRecord_loop ops in_fragmented_record scratch prospective
                 (ReportCorruption (word_of_nat (length fragment))
                    ''missing start of fragmented record(1)'' (r\<lparr>lr_resyncing := False\<rparr>))
             else
               ReadRecord_loop ops in_fragmented_record (scratch @ fragment) prospective
                 (r\<lparr>lr_resyncing := False\<rparr>))
          else if record_type = type_num kLastType then
            (if \<not> in_fragmented_record then
               ReadRecord_loop ops in_fragmented_record scratch prospective
                 (ReportCorruption (word_of_nat (length fragment))
                    ''missing start of fragmented record(2)'' (r\<lparr>lr_resyncing := False\<rparr>))
             else
               Some (Some (scratch @ fragment),
                 r\<lparr>lr_resyncing := False, lr_last_record_offset := prospective\<rparr>))
          else if record_type = kEof then Some (None, r\<lparr>lr_resyncing := False\<rparr>)
          else if record_type = kBadRecord then
            (if in_fragmented_record then
               ReadRecord_loop ops False [] prospective
                 (ReportCorruption (word_of_nat (length scratch)) ''error in middle of record''
                    (r\<lparr>lr_resyncing := False\<rparr>))
             else ReadRecord_loop ops in_fragmented_record scratch prospective (r\<lparr>lr_resyncing := False\<rparr>))
          else
            ReadRecord_loop ops False [] prospective
              (ReportCorruption
                 (word_of_nat (length fragment + (if in_fragmented_record then length scratch else 0)))
                 (unknown_record_type record_type) (r\<lparr>lr_resyncing := False\<rparr>)))"

definition ReadRecord :: "'f SequentialFile \<Rightarrow> 'f log_reader \<Rightarrow> (bytes option \<times> 'f log_reader) option" where
  "ReadRecord ops r =
     (if lr_last_record_offset r < lr_initial_offset r then
        (case SkipToInitialBlock ops r of
           (ok, r) \<Rightarrow> if ok then ReadRecord_loop ops False [] 0 r else Some (None, r))
      else ReadRecord_loop ops False [] 0 r)"

section \<open>What the writer appends\<close>

lemma physical_header_length [simp]: "length (physical_header t payload) = kHeaderSize"
  by (simp add: physical_header_def kHeaderSize_def)

text \<open>The bytes one call of \<^verbatim>\<open>AddRecord\<close> appends at a block offset, and the offset after it.\<close>

function record_image :: "nat \<Rightarrow> bool \<Rightarrow> bytes \<Rightarrow> bytes \<times> nat" where
  "record_image off b data =
     (let pad = (if kBlockSize - off < kHeaderSize then replicate (kBlockSize - off) 0 else []);
          off1 = (if kBlockSize - off < kHeaderSize then 0 else off);
          len = min (length data) (kBlockSize - off1 - kHeaderSize);
          t = fragment_type b (length data = len);
          image = pad @ physical_header t (take len data) @ take len data;
          off2 = off1 + (kHeaderSize + len)
      in if drop len data \<noteq> []
         then let (image', off') = record_image off2 False (drop len data) in (image @ image', off')
         else (image, off2))"
  by pat_completeness auto
termination
  by (relation "measure (\<lambda>(off, _, data). 2 * length data + (if off + kHeaderSize = kBlockSize then 1 else 0))")
     (auto simp: kHeaderSize_def kBlockSize_def min_def split: if_splits)

declare record_image.simps [simp del]

context writable_file
begin

lemma switch_block_image:
  assumes "w_ok (lw_dest w)"
  shows "w_ok (lw_dest (switch_block w_ops w)) \<and>
    written (lw_dest (switch_block w_ops w)) = written (lw_dest w) @
      (if kBlockSize - lw_block_offset w < kHeaderSize then replicate (kBlockSize - lw_block_offset w) 0 else []) \<and>
    lw_block_offset (switch_block w_ops w) =
      (if kBlockSize - lw_block_offset w < kHeaderSize then 0 else lw_block_offset w)"
  using w_append [OF assms, of "replicate (kBlockSize - lw_block_offset w) 0"] assms
  by (auto simp: switch_block_def Let_def)

lemma EmitPhysicalRecord_image:
  assumes "w_ok (lw_dest w)"
  shows "\<exists>w'. EmitPhysicalRecord w_ops w t payload = (OK, w') \<and> w_ok (lw_dest w') \<and>
    written (lw_dest w') = written (lw_dest w) @ physical_header t payload @ payload \<and>
    lw_block_offset w' = lw_block_offset w + (kHeaderSize + length payload)"
proof -
  obtain f1 where f1: "WAppend w_ops (lw_dest w) (physical_header t payload) = (OK, f1)" "w_ok f1"
    "written f1 = written (lw_dest w) @ physical_header t payload"
    using w_append [OF assms] by blast
  obtain f2 where f2: "WAppend w_ops f1 payload = (OK, f2)" "w_ok f2" "written f2 = written f1 @ payload"
    using w_append [OF f1(2)] by blast
  obtain f3 where f3: "WFlush w_ops f2 = (OK, f3)" "w_ok f3" "written f3 = written f2"
    using w_flush [OF f2(2)] by blast
  show ?thesis
    using f1 f2 f3 by (simp add: EmitPhysicalRecord_def)
qed

lemma AddRecord_loop_image:
  "w_ok (lw_dest w) \<Longrightarrow>
   \<exists>w'. AddRecord_loop w_ops w b data = (OK, w') \<and> w_ok (lw_dest w') \<and>
     (written (lw_dest w'), lw_block_offset w') =
       map_prod (\<lambda>image. written (lw_dest w) @ image) id (record_image (lw_block_offset w) b data)"
proof (induction "lw_block_offset w" b data arbitrary: w rule: record_image.induct)
  case (1 b data w)
  let ?off = "lw_block_offset w"
  let ?sw = "kBlockSize - ?off < kHeaderSize"
  define w1 where "w1 = switch_block w_ops w"
  define len where "len = min (length data) (kBlockSize - lw_block_offset w1 - kHeaderSize)"
  define t where "t = fragment_type b (length data = len)"
  have len': "len = min (length data) (kBlockSize - (if ?sw then 0 else ?off) - kHeaderSize)"
    using switch_block_image [OF 1(2)] by (simp add: len_def w1_def)
  have w1: "w_ok (lw_dest w1)" "lw_block_offset w1 = (if ?sw then 0 else ?off)"
    "written (lw_dest w1) = written (lw_dest w) @ (if ?sw then replicate (kBlockSize - ?off) 0 else [])"
    using switch_block_image [OF 1(2)] by (simp_all add: w1_def)
  obtain w2 where w2: "EmitPhysicalRecord w_ops w1 t (take len data) = (OK, w2)" "w_ok (lw_dest w2)"
    "written (lw_dest w2) = written (lw_dest w1) @ physical_header t (take len data) @ take len data"
    "lw_block_offset w2 = lw_block_offset w1 + (kHeaderSize + len)"
    using EmitPhysicalRecord_image [OF w1(1), of t "take len data"]
    by (auto simp: len_def)
  have loop: "AddRecord_loop w_ops w b data =
      (if drop len data \<noteq> [] then AddRecord_loop w_ops w2 False (drop len data) else (OK, w2))"
    using w2(1) unfolding AddRecord_loop.simps [of w_ops w b data] w1_def [symmetric]
    by (auto simp: Let_def len_def min_def t_def)
  have image: "record_image ?off b data =
      (let image = (if ?sw then replicate (kBlockSize - ?off) 0 else []) @
         physical_header t (take len data) @ take len data
       in if drop len data \<noteq> []
          then map_prod ((@) image) id (record_image (lw_block_offset w2) False (drop len data))
          else (image, lw_block_offset w2))"
    unfolding record_image.simps [of ?off b data]
    by (simp add: Let_def w1(2) w2(4) len_def t_def map_prod_def split: prod.splits)
  show ?case
  proof (cases "drop len data = []")
    case True
    then show ?thesis
      using loop image w2 w1 by (simp add: Let_def)
  next
    case False
    have "\<exists>w'. AddRecord_loop w_ops w2 False (drop len data) = (OK, w') \<and> w_ok (lw_dest w') \<and>
     (written (lw_dest w'), lw_block_offset w') = map_prod (\<lambda>image. written (lw_dest w2) @ image) id
        (record_image (lw_block_offset w2) False (drop len data))"
      by (rule 1(1) [OF refl refl len' refl refl]) (use False w2(2,4) w1(2) in simp_all)
    then show ?thesis
      using False loop image w2(3) w1(3)
      by (auto simp: Let_def prod.map_comp o_def map_prod_def split: prod.splits)
  qed
qed

end

section \<open>What the reader returns\<close>

lemma scast_type_code [simp]:
  "(scast (word_of_nat (RecordType_code t) :: byte) :: u32) = type_num t"
  by (cases t) simp_all

lemma type_num_eq [simp]: "type_num s = type_num t \<longleftrightarrow> s = t"
  by (cases s; cases t) simp_all

lemma type_num_0 [simp]: "type_num t = 0 \<longleftrightarrow> t = kZeroType"
  by (cases t) simp_all

lemma type_num_special [simp]:
  "type_num t \<noteq> kEof" "type_num t \<noteq> kBadRecord" "kEof \<noteq> type_num t" "kBadRecord \<noteq> type_num t"
  by (cases t; simp add: kEof_def kBadRecord_def)+

lemma header_length_field:
  assumes "n < 65536"
  shows "(ucast (word_of_nat (n mod 256) :: byte) AND 0xff :: u32) OR
         push_bit 8 (ucast (word_of_nat (n div 256) :: byte) AND 0xff) = word_of_nat n"
proof -
  have byte: "(ucast (word_of_nat m :: byte) :: u32) = word_of_nat m" if "m < 256" for m
    using that by (intro word_eq_unatI) (simp add: unsigned_ucast_eq unat_of_nat take_bit_nat_eq_self)
  have mask: "(ucast b AND 0xff :: u32) = ucast b" for b :: byte
    by (rule bit_word_eqI) (auto simp: bit_and_iff bit_ucast_iff bit_255 dest: bit_imp_le_length)
  have join: "(ucast b OR push_bit 8 (ucast c) :: u32) = ucast b + push_bit 8 (ucast c)" for b c :: byte
    by (rule disjunctive_add [symmetric]) (auto simp: bit_push_bit_iff bit_ucast_iff dest: bit_imp_le_length)
  have small: "n mod 256 < 256" "n div 256 < 256"
    using assms by (simp_all add: less_mult_imp_div_less)
  have "word_of_nat (n mod 256) + push_bit 8 (word_of_nat (n div 256)) =
      (word_of_nat (n mod 256 + n div 256 * 256) :: u32)"
    by (simp only: push_bit_eq_mult of_nat_add of_nat_mult) simp
  then show ?thesis
    unfolding mask join by (simp only: byte small mod_div_mult_eq)
qed

lemma ParsePhysicalRecord_image:
  assumes "lr_buffer r = physical_header t payload @ payload @ rest" and "length payload < 65536"
    and "t \<noteq> kZeroType" and "lr_initial_offset r = 0"
  shows "ParsePhysicalRecord r = (type_num t, payload, r\<lparr>lr_buffer := rest\<rparr>)"
proof -
  let ?h = "lr_buffer r"
  have nth: "?h ! 4 = word_of_nat (length payload mod 256)" "?h ! 5 = word_of_nat (length payload div 256)"
    "?h ! 6 = word_of_nat (RecordType_code t)"
    by (simp_all add: assms(1) physical_header_def nth_append)
  have drop6: "drop 6 ?h = word_of_nat (RecordType_code t) # payload @ rest"
    by (simp add: assms(1) physical_header_def)
  have len: "unat (word_of_nat (length payload) :: u32) = length payload"
    using assms(2) by (intro unat_of_nat_small) simp
  have crc: "Value (word_of_nat (RecordType_code t) # payload) = Unmask (DecodeFixed32 ?h)"
    by (simp add: assms(1) physical_header_def type_crc_def Value_def Extend_append)
  have drop7: "drop kHeaderSize ?h = payload @ rest"
    by (simp add: assms(1))
  show ?thesis
    using assms(3,4) unfolding ParsePhysicalRecord_def Let_def nth header_length_field [OF assms(2)] len
      scast_type_code drop6
    by (simp add: crc drop7 assms(1))
qed

text \<open>Whether the reader must refill its buffer, from positions alone.\<close>

lemma refill_position:
  fixes nB mB off L k k' :: nat
  assumes "nB \<le> mB \<or> nB = mB + 32768 \<or> mB + 65536 \<le> nB"
    and "k \<le> nB" "nB \<le> k + 32768" "k = mB + off" "off \<le> 32768"
    and "k' = (if 32768 - off < 7 then mB + 32768 else k)" and "k' + 7 \<le> L"
  shows "min nB L - k < 7 \<Longrightarrow> nB = k'" "\<not> min nB L - k < 7 \<Longrightarrow> k' = k \<and> k' < nB"
proof -
  show "nB = k'" if "min nB L - k < 7"
  proof (cases "nB \<le> L")
    case True
    then have "nB - k < 7" using that by simp
    then show ?thesis using assms(1-6) by (cases "32768 - off < 7") (simp_all, linarith+)
  next
    case False
    then have "L - k < 7" using that by simp
    then show ?thesis using assms False by (cases "32768 - off < 7") simp_all
  qed
  show "k' = k \<and> k' < nB" if "\<not> min nB L - k < 7"
  proof -
    have "\<not> nB - k < 7" "\<not> L - k < 7" using that by simp_all
    then show ?thesis using assms by (cases "32768 - off < 7") (simp_all, linarith+)
  qed
qed

context sequential_file
begin

text \<open>
  The reader stands at position \<open>k\<close> of a file with contents \<open>F\<close> after \<open>n\<close> block reads: the buffer is
  the rest of what was read, and \<^verbatim>\<open>eof_\<close> says whether the last read was short.
\<close>

definition reader_at :: "bytes \<Rightarrow> nat \<Rightarrow> 'f log_reader \<Rightarrow> bool" where
  "reader_at F k r \<longleftrightarrow>
     (\<exists>n. seq_ok (lr_file r) \<and> left_of (lr_file r) = drop (n * kBlockSize) F \<and>
        lr_buffer r = drop k (take (n * kBlockSize) F) \<and>
        lr_eof r = (length F < n * kBlockSize) \<and> k \<le> n * kBlockSize \<and> n * kBlockSize \<le> k + kBlockSize) \<and>
     \<not> lr_resyncing r \<and> lr_initial_offset r = 0"

lemma ReadPhysicalRecord_refill:
  assumes r: "seq_ok (lr_file r)" "left_of (lr_file r) = drop (n * kBlockSize) F"
      "lr_eof r = (length F < n * kBlockSize)" "length (lr_buffer r) < kHeaderSize"
    and F: "n * kBlockSize + kHeaderSize \<le> length F"
  shows "\<exists>r1. ReadPhysicalRecord seq_ops r = ParsePhysicalRecord r1 \<and>
    seq_ok (lr_file r1) \<and> left_of (lr_file r1) = drop (Suc n * kBlockSize) F \<and>
    lr_buffer r1 = take kBlockSize (drop (n * kBlockSize) F) \<and> lr_eof r1 = (length F < Suc n * kBlockSize) \<and>
    lr_resyncing r1 = lr_resyncing r \<and> lr_initial_offset r1 = lr_initial_offset r \<and>
    lr_reports r1 = lr_reports r"
proof -
  let ?data = "take kBlockSize (drop (n * kBlockSize) F)"
  obtain f where f: "SeqRead seq_ops (lr_file r) kBlockSize = (OK, ?data, f)" "seq_ok f"
    "left_of f = drop kBlockSize (drop (n * kBlockSize) F)"
    using seq_read [OF r(1), of kBlockSize] r(2) by auto
  define r1 where "r1 = (let r = r\<lparr>lr_file := f, lr_buffer := ?data,
      lr_end_of_buffer_offset := lr_end_of_buffer_offset r + word_of_nat (length ?data)\<rparr> in
      if length ?data < kBlockSize then r\<lparr>lr_eof := True\<rparr> else r)"
  have big: "\<not> length ?data < kHeaderSize"
    using F by (simp add: kBlockSize_def kHeaderSize_def)
  have "ReadPhysicalRecord seq_ops r = ParsePhysicalRecord r1"
    using r(3,4) F f(1) big unfolding ReadPhysicalRecord_def r1_def Let_def by auto
  moreover have "lr_file r1 = f" "lr_buffer r1 = ?data" "lr_resyncing r1 = lr_resyncing r"
    "lr_initial_offset r1 = lr_initial_offset r" "lr_reports r1 = lr_reports r"
    by (simp_all add: r1_def Let_def)
  moreover have "lr_eof r1 = (length F < Suc n * kBlockSize)"
    using r(3) F by (auto simp: r1_def Let_def)
  ultimately show ?thesis
    using f by (auto simp: add.commute)
qed

lemma ReadPhysicalRecord_parse:
  "\<not> length (lr_buffer r) < kHeaderSize \<Longrightarrow> ReadPhysicalRecord seq_ops r = ParsePhysicalRecord r"
  by (simp add: ReadPhysicalRecord_def)

lemma ReadPhysicalRecord_locate:
  assumes at: "reader_at F k r" and k: "k = m * kBlockSize + off" "off \<le> kBlockSize"
    and k': "k' = (if kBlockSize - off < kHeaderSize then Suc m * kBlockSize else k)"
    and F: "k' + kHeaderSize \<le> length F"
  shows "\<exists>r1 n. ReadPhysicalRecord seq_ops r = ParsePhysicalRecord r1 \<and>
    seq_ok (lr_file r1) \<and> left_of (lr_file r1) = drop (n * kBlockSize) F \<and>
    lr_buffer r1 = drop k' (take (n * kBlockSize) F) \<and> lr_eof r1 = (length F < n * kBlockSize) \<and>
    k' < n * kBlockSize \<and> n * kBlockSize \<le> k' + kBlockSize \<and>
    \<not> lr_resyncing r1 \<and> lr_initial_offset r1 = 0 \<and> lr_reports r1 = lr_reports r"
proof -
  obtain n where n: "seq_ok (lr_file r)" "left_of (lr_file r) = drop (n * kBlockSize) F"
    "lr_buffer r = drop k (take (n * kBlockSize) F)" "lr_eof r = (length F < n * kBlockSize)"
    "k \<le> n * kBlockSize" "n * kBlockSize \<le> k + kBlockSize" and fl: "\<not> lr_resyncing r" "lr_initial_offset r = 0"
    using at unfolding reader_at_def by blast
  have B: "kBlockSize = 32768" "kHeaderSize = 7" by (simp_all add: kBlockSize_def kHeaderSize_def)
  have len: "length (lr_buffer r) = min (n * kBlockSize) (length F) - k"
    by (simp add: n(3) min.commute)
  have "n \<le> m \<or> n = Suc m \<or> Suc (Suc m) \<le> n"
    by linarith
  then have cases: "n * 32768 \<le> m * 32768 \<or> n * 32768 = m * 32768 + 32768 \<or> m * 32768 + 65536 \<le> n * 32768"
    by linarith
  have k'': "k' = (if 32768 - off < 7 then m * 32768 + 32768 else k)"
    using k' by (simp add: B)
  note pos = refill_position [OF cases n(5,6) [unfolded B] k [unfolded B] k'' F [unfolded B]]
  show ?thesis
  proof (cases "length (lr_buffer r) < kHeaderSize")
    case True
    then have k'n: "n * kBlockSize = k'"
      using pos(1) unfolding B len by blast
    then have F': "n * kBlockSize + kHeaderSize \<le> length F" using F by simp
    have buf: "take kBlockSize (drop (n * kBlockSize) F) = drop k' (take (Suc n * kBlockSize) F)"
      using k'n by (simp add: take_drop add.commute)
    obtain r1 where r1: "ReadPhysicalRecord seq_ops r = ParsePhysicalRecord r1 \<and>
      seq_ok (lr_file r1) \<and> left_of (lr_file r1) = drop (Suc n * kBlockSize) F \<and>
      lr_buffer r1 = drop k' (take (Suc n * kBlockSize) F) \<and> lr_eof r1 = (length F < Suc n * kBlockSize) \<and>
      lr_resyncing r1 = lr_resyncing r \<and> lr_initial_offset r1 = lr_initial_offset r \<and>
      lr_reports r1 = lr_reports r"
      using ReadPhysicalRecord_refill [OF n(1,2,4) True F'] unfolding buf by (rule exE)
    have "k' < Suc n * kBlockSize" "Suc n * kBlockSize \<le> k' + kBlockSize"
      using k'n B by simp_all
    with r1 fl show ?thesis
      by (intro exI [of _ r1] exI [of _ "Suc n"]) (simp only: simp_thms)
  next
    case False
    then have "k' = k" "k' < n * kBlockSize"
      using pos(2) unfolding B len by blast+
    then show ?thesis
      using n fl ReadPhysicalRecord_parse [OF False]
      by (intro exI [of _ r] exI [of _ n]) (simp only: simp_thms)
  qed
qed

lemma ReadPhysicalRecord_image:
  assumes at: "reader_at F k r" and k: "k = m * kBlockSize + off" "off \<le> kBlockSize"
    and pad: "pad = (if kBlockSize - off < kHeaderSize then replicate (kBlockSize - off) 0 else [])"
    and off1: "off1 = (if kBlockSize - off < kHeaderSize then 0 else off)"
    and fits: "off1 + (kHeaderSize + length payload) \<le> kBlockSize" and t: "t \<noteq> kZeroType"
    and F: "F = pre @ pad @ physical_header t payload @ payload @ post" "length pre = k"
  shows "\<exists>r' m'. ReadPhysicalRecord seq_ops r = (type_num t, payload, r') \<and>
    reader_at F (k + length pad + (kHeaderSize + length payload)) r' \<and> lr_reports r' = lr_reports r \<and>
    k + length pad + (kHeaderSize + length payload) = m' * kBlockSize + (off1 + (kHeaderSize + length payload))"
proof -
  let ?k = "k + length pad" and ?n = "kHeaderSize + length payload"
  have pos: "?k = (if kBlockSize - off < kHeaderSize then Suc m * kBlockSize else k)"
    using k pad by auto
  then obtain m' where m': "?k = m' * kBlockSize + off1"
    using k off1 by (metis add.right_neutral)
  have long: "?k + kHeaderSize \<le> length F"
    using F by simp
  obtain r1 n where r1: "ReadPhysicalRecord seq_ops r = ParsePhysicalRecord r1"
    "seq_ok (lr_file r1)" "left_of (lr_file r1) = drop (n * kBlockSize) F"
    "lr_buffer r1 = drop ?k (take (n * kBlockSize) F)" "lr_eof r1 = (length F < n * kBlockSize)"
    "?k < n * kBlockSize" "n * kBlockSize \<le> ?k + kBlockSize"
    "\<not> lr_resyncing r1" "lr_initial_offset r1 = 0" "lr_reports r1 = lr_reports r"
    using ReadPhysicalRecord_locate [OF at k pos long] by (elim exE conjE)
  have n: "n = Suc m'"
  proof -
    have "m' * kBlockSize < n * kBlockSize" using r1(6) m' by linarith
    moreover have "n * kBlockSize < Suc (Suc m') * kBlockSize"
      using r1(7) m' fits by (simp add: kHeaderSize_def)
    ultimately show ?thesis unfolding mult_less_cancel2 by linarith
  qed
  have inside: "?k + ?n \<le> n * kBlockSize"
    using m' fits by (simp add: n)
  have dropF: "drop ?k F = physical_header t payload @ payload @ post"
    using F by simp
  have buf: "lr_buffer r1 = physical_header t payload @ payload @ take (n * kBlockSize - (?k + ?n)) post"
    unfolding r1(4) drop_take dropF using inside by (simp add: add.assoc)
  have "length payload < 65536"
    using fits by (simp add: kBlockSize_def)
  from ParsePhysicalRecord_image [OF buf this t r1(9)]
  have read: "ReadPhysicalRecord seq_ops r =
      (type_num t, payload, r1\<lparr>lr_buffer := take (n * kBlockSize - (?k + ?n)) post\<rparr>)"
    unfolding r1(1) .
  have "take (n * kBlockSize - (?k + ?n)) post = drop (?k + ?n) (take (n * kBlockSize) F)"
    unfolding drop_take using F by (simp add: add.assoc)
  then have "reader_at F (?k + ?n) (r1\<lparr>lr_buffer := take (n * kBlockSize - (?k + ?n)) post\<rparr>)"
    using r1 inside unfolding reader_at_def by (auto intro!: exI [of _ n])
  then show ?thesis
    using read r1(10) m' by auto
qed

lemma ReadRecord_loop_image:
  assumes "record_image off b data = (whole, off')" and "off \<le> kBlockSize"
    and "F = pre @ whole @ post" and "length pre = m * kBlockSize + off"
    and "reader_at F (length pre) r" and "b \<Longrightarrow> acc = []"
  shows "\<exists>r' m'. ReadRecord_loop seq_ops (\<not> b) acc prosp r = Some (Some (acc @ data), r') \<and>
    reader_at F (length (pre @ whole)) r' \<and> lr_reports r' = lr_reports r \<and>
    length (pre @ whole) = m' * kBlockSize + off' \<and> off' \<le> kBlockSize"
  using assms
proof (induction off b data arbitrary: whole pre m r acc prosp rule: record_image.induct)
  case (1 off b data whole pre m r acc prosp)
  let ?sw = "kBlockSize - off < kHeaderSize"
  define pad where "pad = (if ?sw then replicate (kBlockSize - off) (0 :: byte) else [])"
  define off1 where "off1 = (if ?sw then 0 else off)"
  define len where "len = min (length data) (kBlockSize - off1 - kHeaderSize)"
  define t where "t = fragment_type b (length data = len)"
  define frag where "frag = take len data"
  have lenfrag: "length frag = len" by (simp add: frag_def len_def)
  define img where "img = pad @ physical_header t frag @ frag"
  have fits: "off1 + (kHeaderSize + length frag) \<le> kBlockSize"
    by (auto simp: lenfrag len_def off1_def kHeaderSize_def kBlockSize_def)
  have t: "t \<noteq> kZeroType" by (simp add: t_def fragment_type_def)
  have layout: "record_image off b data =
    (if drop len data \<noteq> []
     then case record_image (off1 + (kHeaderSize + len)) False (drop len data) of (image', off') \<Rightarrow> (img @ image', off')
     else (img, off1 + (kHeaderSize + len)))"
    unfolding record_image.simps [of off b data]
    by (simp add: Let_def pad_def off1_def len_def t_def img_def frag_def)
  obtain rest where rest: "whole = img @ rest"
    using "1.prems"(1) unfolding layout by (auto split: if_splits prod.splits)
  have F: "F = pre @ pad @ physical_header t frag @ frag @ (rest @ post)"
    using "1.prems"(3) rest by (simp add: img_def)
  have L: "length (pre @ img) = length pre + length pad + (kHeaderSize + len)"
    by (simp add: img_def lenfrag)
  obtain r1 m1 where r1: "ReadPhysicalRecord seq_ops r = (type_num t, frag, r1)"
    "reader_at F (length (pre @ img)) r1" "lr_reports r1 = lr_reports r"
    "length (pre @ img) = m1 * kBlockSize + (off1 + (kHeaderSize + len))"
    using ReadPhysicalRecord_image [OF "1.prems"(5,4,2) pad_def off1_def fits t F refl]
    unfolding lenfrag unfolding L [symmetric] by (elim exE conjE)
  have nores: "\<not> lr_resyncing r1" and same: "r1\<lparr>lr_resyncing := False\<rparr> = r1"
    using r1(2) by (auto simp: reader_at_def)
  show ?case
  proof (cases "drop len data = []")
    case True
    then have last: "length data = len" "frag = data" and im: "whole = img" "off' = off1 + (kHeaderSize + len)"
      using "1.prems"(1) unfolding layout by (auto simp: frag_def len_def)
    have "\<exists>r'. ReadRecord_loop seq_ops (\<not> b) acc prosp r = Some (Some (acc @ data), r') \<and>
        reader_at F (length (pre @ img)) r' \<and> lr_reports r' = lr_reports r"
      using r1 nores last "1.prems"(6)
      by (subst ReadRecord_loop.simps) (auto simp: t_def fragment_type_def same reader_at_def)
    then show ?thesis
      using r1(4) fits im lenfrag by auto
  next
    case False
    then have notlast: "length data \<noteq> len" by auto
    obtain image' where im: "record_image (off1 + (kHeaderSize + len)) False (drop len data) = (image', off')"
      "whole = img @ image'"
      using "1.prems"(1) False unfolding layout by (auto split: prod.splits)
    have F': "F = (pre @ img) @ image' @ post"
      using "1.prems"(3) im(2) by simp
    have step: "ReadRecord_loop seq_ops (\<not> b) acc prosp r =
        ReadRecord_loop seq_ops True (acc @ frag) (if b then physical_record_offset r1 frag else prosp) r1"
      using r1(1) nores notlast "1.prems"(6)
      by (subst ReadRecord_loop.simps) (auto simp: t_def fragment_type_def same)
    have "\<exists>r' m'. ReadRecord_loop seq_ops (\<not> False) (acc @ frag)
        (if b then physical_record_offset r1 frag else prosp) r1 = Some (Some ((acc @ frag) @ drop len data), r') \<and>
      reader_at F (length ((pre @ img) @ image')) r' \<and> lr_reports r' = lr_reports r1 \<and>
      length ((pre @ img) @ image') = m' * kBlockSize + off' \<and> off' \<le> kBlockSize"
      by (rule "1.IH" [OF pad_def off1_def len_def t_def _ refl False im(1) _ F' r1(4) r1(2)])
         (use fits [unfolded lenfrag] in \<open>auto simp: img_def frag_def\<close>)
    then show ?thesis
      using step r1(3) im(2) by (simp add: frag_def)
  qed
qed

lemma ReadRecord_at_end:
  assumes "reader_at F (length F) r"
  shows "\<exists>r'. ReadRecord_loop seq_ops False [] prosp r = Some (None, r') \<and> lr_reports r' = lr_reports r"
proof -
  obtain n where n: "seq_ok (lr_file r)" "left_of (lr_file r) = drop (n * kBlockSize) F"
    "lr_buffer r = drop (length F) (take (n * kBlockSize) F)" "length F \<le> n * kBlockSize"
    "\<not> lr_resyncing r"
    using assms unfolding reader_at_def by blast
  have left: "left_of (lr_file r) = []" and buf: "lr_buffer r = []"
    using n(2,3,4) by simp_all
  have "\<exists>r'. ReadPhysicalRecord seq_ops r = (kEof, [], r') \<and> \<not> lr_resyncing r' \<and> lr_reports r' = lr_reports r"
    using seq_read [OF n(1), of kBlockSize] n(5)
    by (auto simp: left buf ReadPhysicalRecord_def Let_def kHeaderSize_def kBlockSize_def)
  then show ?thesis
    by (subst ReadRecord_loop.simps) (auto simp: kEof_def)
qed

lemma ReadRecord_loop_from_start:
  "lr_initial_offset r = 0 \<Longrightarrow> ReadRecord seq_ops r = ReadRecord_loop seq_ops False [] 0 r"
  by (simp add: ReadRecord_def)

end

text \<open>Adding and reading several records.\<close>

fun AddRecords :: "'f WritableFile \<Rightarrow> 'f log_writer \<Rightarrow> bytes list \<Rightarrow> status \<times> 'f log_writer" where
  "AddRecords ops w [] = (OK, w)"
| "AddRecords ops w (x # xs) =
     (case AddRecord ops w x of (s, w) \<Rightarrow> if status_ok s then AddRecords ops w xs else (s, w))"

fun ReadRecords :: "'f SequentialFile \<Rightarrow> nat \<Rightarrow> 'f log_reader \<Rightarrow> (bytes option list \<times> 'f log_reader) option" where
  "ReadRecords ops 0 r = Some ([], r)"
| "ReadRecords ops (Suc n) r =
     (case ReadRecord ops r of
        None \<Rightarrow> None
      | Some (x, r) \<Rightarrow> map_option (\<lambda>(xs, r). (x # xs, r)) (ReadRecords ops n r))"

fun records_image :: "nat \<Rightarrow> bytes list \<Rightarrow> bytes" where
  "records_image off [] = []"
| "records_image off (x # xs) =
     (case record_image off True x of (im, off') \<Rightarrow> im @ records_image off' xs)"

context writable_file
begin

lemma AddRecords_image:
  "w_ok (lw_dest w) \<Longrightarrow> \<exists>w'. AddRecords w_ops w xs = (OK, w') \<and> w_ok (lw_dest w') \<and>
     written (lw_dest w') = written (lw_dest w) @ records_image (lw_block_offset w) xs"
proof (induction xs arbitrary: w)
  case (Cons x xs)
  obtain im off' where im: "record_image (lw_block_offset w) True x = (im, off')" by fastforce
  obtain w1 where w1: "AddRecord w_ops w x = (OK, w1)" "w_ok (lw_dest w1)"
    "written (lw_dest w1) = written (lw_dest w) @ im" "lw_block_offset w1 = off'"
    using AddRecord_loop_image [OF Cons.prems, of True x] im by (auto simp: AddRecord_def)
  show ?case
    using Cons.IH [OF w1(2)] w1 im by auto
qed simp

end

context sequential_file
begin

lemma ReadRecords_image:
  assumes "F = pre @ records_image off xs" and "length pre = m * kBlockSize + off" "off \<le> kBlockSize"
    and "reader_at F (length pre) r"
  shows "\<exists>r'. ReadRecords seq_ops (Suc (length xs)) r = Some (map Some xs @ [None], r') \<and>
    lr_reports r' = lr_reports r"
  using assms
proof (induction xs arbitrary: pre off m r)
  case Nil
  then have "lr_initial_offset r = 0" by (simp add: reader_at_def)
  then show ?case
    using ReadRecord_at_end [of F r 0] Nil by (auto simp: ReadRecord_loop_from_start)
next
  case (Cons x xs)
  obtain im off' where im: "record_image off True x = (im, off')" by fastforce
  have F: "F = pre @ im @ records_image off' xs" using Cons.prems(1) im by simp
  obtain r1 m1 where r1: "ReadRecord_loop seq_ops False [] 0 r = Some (Some x, r1)"
    "reader_at F (length (pre @ im)) r1" "lr_reports r1 = lr_reports r"
    "length (pre @ im) = m1 * kBlockSize + off'" "off' \<le> kBlockSize"
    using ReadRecord_loop_image [OF im Cons.prems(3) F Cons.prems(2,4), of "[]" 0] by auto
  have "lr_initial_offset r = 0" using Cons.prems(4) by (simp add: reader_at_def)
  then have read: "ReadRecord seq_ops r = Some (Some x, r1)"
    using r1(1) by (simp add: ReadRecord_loop_from_start)
  have "F = (pre @ im) @ records_image off' xs" using F by simp
  from Cons.IH [OF this r1(4,5,2)] obtain r' where
    "ReadRecords seq_ops (Suc (length xs)) r1 = Some (map Some xs @ [None], r')" "lr_reports r' = lr_reports r1"
    by blast
  then show ?case
    using read r1(3) by (simp del: ReadRecords.simps add: ReadRecords.simps(2) [of _ "Suc (length xs)"])
qed

lemma reader_at_start:
  assumes "seq_ok f" and "left_of f = F"
  shows "reader_at F 0 (make_log_reader f reporter checksum 0)"
  using assms by (auto simp: reader_at_def make_log_reader_def intro!: exI [of _ 0])

end

section \<open>Properties\<close>

text \<open>C1. Log round trip: whatever records are added to a fresh log file of the in-memory
  environment, every \<^verbatim>\<open>AddRecord\<close> succeeds, and a reader of that file returns exactly those records in
  their order, then the end of the log, and reports no corruption, with checksums verified or not.\<close>

theorem log_roundtrip:
  "\<exists>w r. AddRecords mem_WritableFile (make_log_writer new_FileState) records = (OK, w) \<and>
     ReadRecords mem_SequentialFile (Suc (length records))
       (make_log_reader \<lparr>sq_file = lw_dest w, sq_pos = 0\<rparr> reporter checksum 0) =
       Some (map Some records @ [None], r) \<and> lr_reports r = []"
proof -
  obtain w where w: "AddRecords mem_WritableFile (make_log_writer new_FileState) records = (OK, w)"
    "fs_ok (lw_dest w)" "fs_contents (lw_dest w) = records_image 0 records"
    using mem_writable.AddRecords_image [of "make_log_writer new_FileState" records]
    by (auto simp: make_log_writer_def)
  let ?f = "\<lparr>sq_file = lw_dest w, sq_pos = 0\<rparr>"
  have "mem_seq.reader_at (records_image 0 records) (length []) (make_log_reader ?f reporter checksum 0)"
    using w mem_seq.reader_at_start [of ?f] by (simp add: sq_ok_def sq_left_def)
  then have "\<exists>r. ReadRecords mem_SequentialFile (Suc (length records)) (make_log_reader ?f reporter checksum 0) =
      Some (map Some records @ [None], r) \<and> lr_reports r = lr_reports (make_log_reader ?f reporter checksum 0)"
    by (intro mem_seq.ReadRecords_image [where pre = "[]" and off = 0 and m = 0]) simp_all
  then show ?thesis using w(1) by (auto simp: make_log_reader_def)
qed

end
