(* ===== verification/Comparators.thy ===== *)
theory Comparators
  imports Prelude "HOL-Library.List_Lexorder"
begin

text \<open>
  \<^verbatim>\<open>Slice::compare\<close> (include/leveldb/slice.h), the \<^verbatim>\<open>Comparator\<close> interface
  (include/leveldb/comparator.h) and its bytewise implementation (util/comparator.cc).

  The interface is a record of operations. What the rest of the store relies on is the locale
  \<^verbatim>\<open>key_comparator\<close>: the three-way comparison is a total preorder on the keys of a domain, a
  separator lies between its arguments, a successor is not smaller than its argument. The
  bytewise comparator satisfies the laws on all keys.
\<close>

section \<open>Slices\<close>

text \<open>\<^verbatim>\<open>memcmp\<close> on the first \<open>n\<close> bytes; only the sign of the result matters to its callers.\<close>

fun memcmp :: "bytes \<Rightarrow> bytes \<Rightarrow> nat \<Rightarrow> int" where
  "memcmp (x # a) (y # b) (Suc n) =
     (if x < y then -1 else if y < x then 1 else memcmp a b n)"
| "memcmp a b n = 0"

definition Slice_compare :: "bytes \<Rightarrow> bytes \<Rightarrow> int" where
  "Slice_compare a b =
     (let min_len = (if length a < length b then length a else length b);
          r = memcmp a b min_len
      in if r = 0 then if length a < length b then -1 else if length b < length a then 1 else r
         else r)"

definition Slice_starts_with :: "bytes \<Rightarrow> bytes \<Rightarrow> bool" where
  "Slice_starts_with s x \<longleftrightarrow> length x \<le> length s \<and> memcmp s x (length x) = 0"

definition Slice_eq :: "bytes \<Rightarrow> bytes \<Rightarrow> bool" where
  "Slice_eq x y \<longleftrightarrow> length x = length y \<and> memcmp x y (length x) = 0"

lemma Slice_compare_Cons:
  "Slice_compare (x # a) (y # b) = (if x < y then -1 else if y < x then 1 else Slice_compare a b)"
  by (simp add: Slice_compare_def Let_def)

lemma Slice_compare_Nil:
  "Slice_compare [] b = (if b = [] then 0 else -1)"
  "Slice_compare a [] = (if a = [] then 0 else 1)"
  by (cases a; cases b; simp add: Slice_compare_def)+

text \<open>The comparison is the lexicographic order of the library, so its linear order applies.\<close>

lemma Slice_compare_values:
  "Slice_compare a b = (if a < b then -1 else if a = b then 0 else 1)"
  by (induction a arbitrary: b; case_tac b) (auto simp: Slice_compare_Cons Slice_compare_Nil)

lemma Slice_compare_less [simp]: "Slice_compare a b < 0 \<longleftrightarrow> a < b"
  and Slice_compare_eq [simp]: "Slice_compare a b = 0 \<longleftrightarrow> a = b"
  and Slice_compare_greater [simp]: "0 < Slice_compare a b \<longleftrightarrow> b < a"
  and Slice_compare_le [simp]: "Slice_compare a b \<le> 0 \<longleftrightarrow> a \<le> b"
  and Slice_compare_ge [simp]: "0 \<le> Slice_compare a b \<longleftrightarrow> b \<le> a"
  by (auto simp: Slice_compare_values)

lemma memcmp_prefix:
  "memcmp s x n = 0 \<longleftrightarrow> take (min n (min (length s) (length x))) s = take (min n (min (length s) (length x))) x"
  by (induction s x n rule: memcmp.induct) auto

lemma Slice_eq_iff [simp]: "Slice_eq x y \<longleftrightarrow> x = y"
  by (auto simp: Slice_eq_def memcmp_prefix)

lemma Slice_starts_with_iff: "Slice_starts_with s x \<longleftrightarrow> take (length x) s = x"
  by (auto simp: Slice_starts_with_def memcmp_prefix min_def)

section \<open>The comparator interface\<close>

record comparator =
  Compare :: "bytes \<Rightarrow> bytes \<Rightarrow> int"
  Name :: string
  FindShortestSeparator :: "bytes \<Rightarrow> bytes \<Rightarrow> bytes"
  FindShortSuccessor :: "bytes \<Rightarrow> bytes"

text \<open>A three-way comparison that orders the keys of a domain.\<close>

locale three_way =
  fixes compare :: "'k \<Rightarrow> 'k \<Rightarrow> int"
    and key_ok :: "'k \<Rightarrow> bool"
  assumes compare_flip: "key_ok a \<Longrightarrow> key_ok b \<Longrightarrow> compare a b < 0 \<longleftrightarrow> 0 < compare b a"
    and compare_trans:
      "key_ok a \<Longrightarrow> key_ok b \<Longrightarrow> key_ok c \<Longrightarrow> compare a b \<le> 0 \<Longrightarrow> compare b c \<le> 0 \<Longrightarrow> compare a c \<le> 0"
begin

lemma compare_refl: "key_ok a \<Longrightarrow> compare a a = 0"
  using compare_flip [of a a] by linarith

lemma compare_flip_le: "key_ok a \<Longrightarrow> key_ok b \<Longrightarrow> compare a b \<le> 0 \<longleftrightarrow> 0 \<le> compare b a"
  using compare_flip [of b a] by linarith

lemma compare_flip_eq: "key_ok a \<Longrightarrow> key_ok b \<Longrightarrow> compare a b = 0 \<longleftrightarrow> compare b a = 0"
  using compare_flip [of a b] compare_flip [of b a] by linarith

lemma compare_less_le_trans:
  "key_ok a \<Longrightarrow> key_ok b \<Longrightarrow> key_ok c \<Longrightarrow> compare a b < 0 \<Longrightarrow> compare b c \<le> 0 \<Longrightarrow> compare a c < 0"
  using compare_trans [of b c a] compare_flip [of a b] compare_flip [of a c] by linarith

lemma compare_le_less_trans:
  "key_ok a \<Longrightarrow> key_ok b \<Longrightarrow> key_ok c \<Longrightarrow> compare a b \<le> 0 \<Longrightarrow> compare b c < 0 \<Longrightarrow> compare a c < 0"
  using compare_trans [of c a b] compare_flip [of b c] compare_flip [of a c] by linarith

lemma compare_less_trans:
  "key_ok a \<Longrightarrow> key_ok b \<Longrightarrow> key_ok c \<Longrightarrow> compare a b < 0 \<Longrightarrow> compare b c < 0 \<Longrightarrow> compare a c < 0"
  using compare_less_le_trans by (meson less_imp_le)

lemma compare_eq_trans:
  "key_ok a \<Longrightarrow> key_ok b \<Longrightarrow> key_ok c \<Longrightarrow> compare a b = 0 \<Longrightarrow>
   (compare a c < 0 \<longleftrightarrow> compare b c < 0) \<and> (compare a c = 0 \<longleftrightarrow> compare b c = 0)"
  using compare_le_less_trans [of a b c] compare_le_less_trans [of b a c] compare_flip_eq [of a b]
    compare_trans [of a b c] compare_trans [of b a c]
  by linarith

end

locale key_comparator = three_way "Compare cmp" key_ok
  for cmp :: comparator and key_ok :: "bytes \<Rightarrow> bool" +
  assumes separator_ok: "key_ok a \<Longrightarrow> key_ok b \<Longrightarrow> key_ok (FindShortestSeparator cmp a b)"
    and separator_between:
      "key_ok a \<Longrightarrow> key_ok b \<Longrightarrow> Compare cmp a b < 0 \<Longrightarrow>
       Compare cmp a (FindShortestSeparator cmp a b) \<le> 0 \<and>
       Compare cmp (FindShortestSeparator cmp a b) b < 0"
    and separator_unordered:
      "key_ok a \<Longrightarrow> key_ok b \<Longrightarrow> \<not> Compare cmp a b < 0 \<Longrightarrow> FindShortestSeparator cmp a b = a"
    and successor_ok: "key_ok a \<Longrightarrow> key_ok (FindShortSuccessor cmp a)"
    and successor_le: "key_ok a \<Longrightarrow> Compare cmp a (FindShortSuccessor cmp a) \<le> 0"

section \<open>The bytewise comparator\<close>

fun common_prefix_length :: "bytes \<Rightarrow> bytes \<Rightarrow> nat" where
  "common_prefix_length (x # a) (y # b) = (if x = y then Suc (common_prefix_length a b) else 0)"
| "common_prefix_length a b = 0"

definition Bytewise_FindShortestSeparator :: "bytes \<Rightarrow> bytes \<Rightarrow> bytes" where
  "Bytewise_FindShortestSeparator start limit =
     (let min_length = min (length start) (length limit);
          diff_index = common_prefix_length start limit
      in if min_length \<le> diff_index then start
         else
           let diff_byte = start ! diff_index in
           if diff_byte < 0xff \<and> unat diff_byte + 1 < unat (limit ! diff_index)
           then take diff_index start @ [diff_byte + 1]
           else start)"

fun Bytewise_FindShortSuccessor :: "bytes \<Rightarrow> bytes" where
  "Bytewise_FindShortSuccessor [] = []"
| "Bytewise_FindShortSuccessor (b # key) =
     (if b \<noteq> 0xff then [b + 1] else b # Bytewise_FindShortSuccessor key)"

definition BytewiseComparator :: comparator where
  "BytewiseComparator =
     \<lparr>Compare = Slice_compare, Name = ''leveldb.BytewiseComparator'',
      FindShortestSeparator = Bytewise_FindShortestSeparator,
      FindShortSuccessor = Bytewise_FindShortSuccessor\<rparr>"

lemma BytewiseComparator_simps [simp]:
  "Compare BytewiseComparator = Slice_compare"
  "FindShortestSeparator BytewiseComparator = Bytewise_FindShortestSeparator"
  "FindShortSuccessor BytewiseComparator = Bytewise_FindShortSuccessor"
  by (simp_all add: BytewiseComparator_def)

lemma Bytewise_FindShortestSeparator_simps:
  "Bytewise_FindShortestSeparator [] b = []"
  "Bytewise_FindShortestSeparator a [] = a"
  "Bytewise_FindShortestSeparator (x # a) (y # b) =
     (if x = y then x # Bytewise_FindShortestSeparator a b
      else if x < 0xff \<and> unat x + 1 < unat y then [x + 1] else x # a)"
  by (auto simp: Bytewise_FindShortestSeparator_def Let_def)

lemma byte_inc:
  fixes x y :: byte
  assumes "unat x + 1 < unat y"
  shows "x < x + 1" "x + 1 < y"
  using assms unsigned_less [of y, where ?'a = nat]
  by (simp_all add: word_less_nat_alt unat_word_ariths)

lemma byte_inc_not_max:
  fixes x :: byte
  assumes "x \<noteq> 0xff"
  shows "x < x + 1"
proof -
  have "unat x \<noteq> unat (255 :: byte)"
    using assms unsigned_word_eqI by blast
  then show ?thesis
    using unsigned_less [of x, where ?'a = nat] by (simp add: word_less_nat_alt unat_word_ariths)
qed

lemma Bytewise_separator_between:
  "a < b \<Longrightarrow> a \<le> Bytewise_FindShortestSeparator a b \<and> Bytewise_FindShortestSeparator a b < b"
  by (induction a arbitrary: b; case_tac b)
     (auto simp: Bytewise_FindShortestSeparator_simps byte_inc less_imp_le)

lemma Bytewise_separator_unordered:
  "\<not> a < b \<Longrightarrow> Bytewise_FindShortestSeparator a b = a"
  by (induction a arbitrary: b; case_tac b)
     (auto simp: Bytewise_FindShortestSeparator_simps word_less_nat_alt)

lemma Bytewise_separator_length:
  "length (Bytewise_FindShortestSeparator a b) \<le> length a"
  by (induction a arbitrary: b; case_tac b) (auto simp: Bytewise_FindShortestSeparator_simps)

lemma Bytewise_successor_le: "key \<le> Bytewise_FindShortSuccessor key"
  by (induction key) (auto simp: byte_inc_not_max)

interpretation bytewise: key_comparator BytewiseComparator "\<lambda>_. True"
  by unfold_locales
     (auto simp: Bytewise_separator_between Bytewise_separator_unordered Bytewise_successor_le)

end
