(* ===== verification/Dbformat.thy ===== *)
theory Dbformat
  imports Comparators Coding
begin

text \<open>
  Internal keys (db/dbformat.h, db/dbformat.cc): the packing of a user key, a sequence number and a
  value type, the comparator on packed keys, the lookup key of a read, and the list of range
  deletions that this fork adds to the store.

  The main results are the round trip of \<^verbatim>\<open>AppendInternalKey\<close> and \<^verbatim>\<open>ParseInternalKey\<close>, and that
  \<^verbatim>\<open>InternalKeyComparator\<close> keeps the comparator laws of the user comparator it wraps.
\<close>

section \<open>Constants and value types\<close>

definition kNumLevels :: nat where "kNumLevels = 7"
definition kL0_CompactionTrigger :: nat where "kL0_CompactionTrigger = 4"
definition kL0_SlowdownWritesTrigger :: nat where "kL0_SlowdownWritesTrigger = 8"
definition kL0_StopWritesTrigger :: nat where "kL0_StopWritesTrigger = 12"
definition kMaxMemCompactLevel :: nat where "kMaxMemCompactLevel = 2"
definition kReadBytesPeriod :: nat where "kReadBytesPeriod = 1048576"

datatype ValueType = kTypeDeletion | kTypeValue | kTypeRangeDeletion

fun ValueType_code :: "ValueType \<Rightarrow> nat" where
  "ValueType_code kTypeDeletion = 0"
| "ValueType_code kTypeValue = 1"
| "ValueType_code kTypeRangeDeletion = 2"

text \<open>The enumerators are ordered by their codes, as \<^verbatim>\<open>t <= kValueTypeForSeek\<close> compares them.\<close>

instantiation ValueType :: linorder
begin

definition less_eq_ValueType :: "ValueType \<Rightarrow> ValueType \<Rightarrow> bool" where
  "less_eq_ValueType s t \<longleftrightarrow> ValueType_code s \<le> ValueType_code t"

definition less_ValueType :: "ValueType \<Rightarrow> ValueType \<Rightarrow> bool" where
  "less_ValueType s t \<longleftrightarrow> ValueType_code s < ValueType_code t"

instance
proof
  fix x y z :: ValueType
  show "x \<le> y \<Longrightarrow> y \<le> x \<Longrightarrow> x = y"
    by (cases x; cases y) (simp_all add: less_eq_ValueType_def)
qed (auto simp: less_eq_ValueType_def less_ValueType_def)

end

text \<open>
  \<^verbatim>\<open>static_cast<ValueType>(c)\<close> of a byte: \<open>None\<close> is a value that is no enumerator, which the
  sources test for (\<^verbatim>\<open>ParseInternalKey\<close>) or run into in a \<^verbatim>\<open>switch\<close>.
\<close>

definition ValueType_of :: "byte \<Rightarrow> ValueType option" where
  "ValueType_of c =
     (if c = 0 then Some kTypeDeletion else if c = 1 then Some kTypeValue
      else if c = 2 then Some kTypeRangeDeletion else None)"

definition kValueTypeForSeek :: ValueType where
  "kValueTypeForSeek = kTypeRangeDeletion"

definition kMaxSequenceNumber :: u64 where
  "kMaxSequenceNumber = push_bit 56 1 - 1"

section \<open>Internal keys\<close>

record ParsedInternalKey =
  user_key :: bytes
  sequence_no :: u64
  value_type :: ValueType

definition InternalKeyEncodingLength :: "ParsedInternalKey \<Rightarrow> nat" where
  "InternalKeyEncodingLength key = length (user_key key) + 8"

definition PackSequenceAndType :: "u64 \<Rightarrow> ValueType \<Rightarrow> u64" where
  "PackSequenceAndType seq t = push_bit 8 seq OR word_of_nat (ValueType_code t)"

definition AppendInternalKey :: "bytes \<Rightarrow> ParsedInternalKey \<Rightarrow> bytes" where
  "AppendInternalKey result key =
     PutFixed64 (result @ user_key key) (PackSequenceAndType (sequence_no key) (value_type key))"

definition InternalKey :: "bytes \<Rightarrow> u64 \<Rightarrow> ValueType \<Rightarrow> bytes" where
  "InternalKey ukey s t =
     AppendInternalKey [] \<lparr>user_key = ukey, sequence_no = s, value_type = t\<rparr>"

definition InternalKey_DecodeFrom :: "bytes \<Rightarrow> bytes \<times> bool" where
  "InternalKey_DecodeFrom s = (s, s \<noteq> [])"

definition ExtractUserKey :: "bytes \<Rightarrow> bytes" where
  "ExtractUserKey internal_key = take (length internal_key - 8) internal_key"

text \<open>The trailing eight bytes of an internal key, read as a number.\<close>

definition ExtractTag :: "bytes \<Rightarrow> u64" where
  "ExtractTag internal_key = DecodeFixed64 (drop (length internal_key - 8) internal_key)"

definition ParseInternalKey :: "bytes \<Rightarrow> ParsedInternalKey option" where
  "ParseInternalKey internal_key =
     (let n = length internal_key in
      if n < 8 then None
      else
        let num = DecodeFixed64 (drop (n - 8) internal_key);
            c = (ucast (num AND 0xff) :: byte)
        in if c \<le> 2 then
             map_option
               (\<lambda>t. \<lparr>user_key = take (n - 8) internal_key, sequence_no = drop_bit 8 num,
                     value_type = t\<rparr>) (ValueType_of c)
           else None)"

section \<open>The comparator of internal keys\<close>

definition IKC_Compare :: "comparator \<Rightarrow> bytes \<Rightarrow> bytes \<Rightarrow> int" where
  "IKC_Compare user_comparator akey bkey =
     (let r = Compare user_comparator (ExtractUserKey akey) (ExtractUserKey bkey) in
      if r = 0 then
        let anum = ExtractTag akey; bnum = ExtractTag bkey in
        if bnum < anum then -1 else if anum < bnum then 1 else r
      else r)"

definition IKC_FindShortestSeparator :: "comparator \<Rightarrow> bytes \<Rightarrow> bytes \<Rightarrow> bytes" where
  "IKC_FindShortestSeparator user_comparator start limit =
     (let user_start = ExtractUserKey start; user_limit = ExtractUserKey limit;
          tmp = FindShortestSeparator user_comparator user_start user_limit
      in if length tmp < length user_start \<and> Compare user_comparator user_start tmp < 0
         then PutFixed64 tmp (PackSequenceAndType kMaxSequenceNumber kValueTypeForSeek)
         else start)"

definition IKC_FindShortSuccessor :: "comparator \<Rightarrow> bytes \<Rightarrow> bytes" where
  "IKC_FindShortSuccessor user_comparator key =
     (let ukey = ExtractUserKey key; tmp = FindShortSuccessor user_comparator ukey
      in if length tmp < length ukey \<and> Compare user_comparator ukey tmp < 0
         then PutFixed64 tmp (PackSequenceAndType kMaxSequenceNumber kValueTypeForSeek)
         else key)"

definition InternalKeyComparator :: "comparator \<Rightarrow> comparator" where
  "InternalKeyComparator user_comparator =
     \<lparr>Compare = IKC_Compare user_comparator, Name = ''leveldb.InternalKeyComparator'',
      FindShortestSeparator = IKC_FindShortestSeparator user_comparator,
      FindShortSuccessor = IKC_FindShortSuccessor user_comparator\<rparr>"

section \<open>Filter policies\<close>

record FilterPolicy =
  FilterName :: string
  CreateFilter :: "bytes list \<Rightarrow> bytes \<Rightarrow> bytes"
  KeyMayMatch :: "bytes \<Rightarrow> bytes \<Rightarrow> bool"

definition InternalFilterPolicy :: "FilterPolicy \<Rightarrow> FilterPolicy" where
  "InternalFilterPolicy user_policy =
     \<lparr>FilterName = FilterName user_policy,
      CreateFilter = \<lambda>keys dst. CreateFilter user_policy (map ExtractUserKey keys) dst,
      KeyMayMatch = \<lambda>key f. KeyMayMatch user_policy (ExtractUserKey key) f\<rparr>"

section \<open>Lookup keys\<close>

text \<open>The three views of one buffer: from \<^verbatim>\<open>start_\<close>, from \<^verbatim>\<open>kstart_\<close>, and without the tag.\<close>

record LookupKey =
  lk_start :: bytes
  lk_kstart :: bytes

definition make_LookupKey :: "bytes \<Rightarrow> u64 \<Rightarrow> LookupKey" where
  "make_LookupKey ukey s =
     (let usize = length ukey;
          varint = EncodeVarint32 (word_of_nat (usize + 8));
          rest = ukey @ EncodeFixed64 (PackSequenceAndType s kValueTypeForSeek)
      in \<lparr>lk_start = varint @ rest, lk_kstart = rest\<rparr>)"

definition memtable_key :: "LookupKey \<Rightarrow> bytes" where
  "memtable_key k = lk_start k"

definition lookup_internal_key :: "LookupKey \<Rightarrow> bytes" where
  "lookup_internal_key k = lk_kstart k"

definition lookup_user_key :: "LookupKey \<Rightarrow> bytes" where
  "lookup_user_key k = take (length (lk_kstart k) - 8) (lk_kstart k)"

section \<open>Range deletions\<close>

record RangeDeletion =
  start_key :: bytes
  end_key :: bytes
  del_seq :: u64

type_synonym RangeDeletionList = "RangeDeletion list"

definition RDL_Add :: "RangeDeletionList \<Rightarrow> bytes \<Rightarrow> bytes \<Rightarrow> u64 \<Rightarrow> RangeDeletionList" where
  "RDL_Add deletions start end seq =
     deletions @ [\<lparr>start_key = start, end_key = end, del_seq = seq\<rparr>]"

fun RDL_IsDeleted :: "RangeDeletionList \<Rightarrow> bytes \<Rightarrow> u64 \<Rightarrow> u64 \<Rightarrow> bool" where
  "RDL_IsDeleted [] key found_seq read_seq = False"
| "RDL_IsDeleted (del # deletions) key found_seq read_seq =
     (if 0 \<le> Slice_compare key (start_key del) \<and> Slice_compare key (end_key del) < 0 \<and>
         del_seq del \<le> read_seq \<and> found_seq < del_seq del
      then True else RDL_IsDeleted deletions key found_seq read_seq)"

definition RDL_MergeInto :: "RangeDeletionList \<Rightarrow> RangeDeletionList option \<Rightarrow> RangeDeletionList" where
  "RDL_MergeInto deletions other =
     (case other of None \<Rightarrow> deletions | Some others \<Rightarrow> deletions @ others)"

section \<open>Packing and parsing\<close>

lemma ValueType_code_le: "ValueType_code t \<le> 2"
  by (cases t) simp_all

lemma ValueType_of_code [simp]: "ValueType_of (word_of_nat (ValueType_code t)) = Some t"
  by (cases t) (simp_all add: ValueType_of_def)

lemma ValueType_of_le: "c \<le> 2 \<longleftrightarrow> ValueType_of c \<noteq> None"
proof -
  have "c \<le> 2 \<longleftrightarrow> unat c = unat (0 :: byte) \<or> unat c = unat (1 :: byte) \<or> unat c = unat (2 :: byte)"
    by (auto simp: word_le_nat_alt)
  also have "\<dots> \<longleftrightarrow> c = 0 \<or> c = 1 \<or> c = 2"
    using unsigned_word_eqI [where ?'a = nat] by blast
  finally show ?thesis
    by (auto simp: ValueType_of_def)
qed

lemma bit_type_code: "bit (word_of_nat (ValueType_code t) :: u64) n \<Longrightarrow> n < 8"
  by (cases t) (auto simp: bit_1_iff bit_2_iff bit_numeral_word_iff)

lemma kMaxSequenceNumber_mask: "kMaxSequenceNumber = mask 56"
  by (simp add: kMaxSequenceNumber_def mask_eq_exp_minus_1)

lemma unat_PackSequenceAndType:
  assumes "seq \<le> kMaxSequenceNumber"
  shows "unat (PackSequenceAndType seq t) = unat seq * 256 + ValueType_code t"
proof -
  have seq: "unat seq < 2 ^ 56"
    using assms by (simp add: kMaxSequenceNumber_def word_le_nat_alt)
  have "PackSequenceAndType seq t = push_bit 8 seq + word_of_nat (ValueType_code t)"
    unfolding PackSequenceAndType_def
    by (rule disjunctive_add [symmetric]) (auto simp: bit_push_bit_iff dest: bit_type_code)
  also have "\<dots> = word_of_nat (unat seq * 256 + ValueType_code t)"
    by (simp add: push_bit_eq_mult)
  finally have pack: "PackSequenceAndType seq t = word_of_nat (unat seq * 256 + ValueType_code t)" .
  show ?thesis
    unfolding pack using seq ValueType_code_le [of t] by (intro unat_of_nat_small) simp
qed

lemma drop_bit_PackSequenceAndType:
  assumes "seq \<le> kMaxSequenceNumber"
  shows "drop_bit 8 (PackSequenceAndType seq t) = seq"
  using ValueType_code_le [of t]
  by (intro word_eq_unatI) (simp add: unat_drop_bit_div unat_PackSequenceAndType [OF assms])

lemma type_PackSequenceAndType:
  assumes "seq \<le> kMaxSequenceNumber"
  shows "ucast (PackSequenceAndType seq t AND 0xff) = (word_of_nat (ValueType_code t) :: byte)"
  using ValueType_code_le [of t]
  by (intro word_eq_unatI)
     (simp only: unat_low_byte unat_PackSequenceAndType [OF assms],
      simp add: unat_of_nat)

lemma PackSequenceAndType_less_iff:
  assumes "s \<le> kMaxSequenceNumber" and "s' \<le> kMaxSequenceNumber"
  shows "PackSequenceAndType s t < PackSequenceAndType s' t' \<longleftrightarrow> s < s' \<or> s = s' \<and> t < t'"
proof -
  have "unat s = unat s' \<longleftrightarrow> s = s'"
    by (metis word_eq_unatI)
  then show ?thesis
    using ValueType_code_le [of t] ValueType_code_le [of t']
    by (auto simp: word_less_nat_alt unat_PackSequenceAndType assms less_ValueType_def)
qed

lemma length_AppendInternalKey [simp]:
  "length (AppendInternalKey result key) = length result + InternalKeyEncodingLength key"
  by (simp add: AppendInternalKey_def InternalKeyEncodingLength_def PutFixed64_def)

lemma ExtractUserKey_append [simp]: "ExtractUserKey (ukey @ EncodeFixed64 num) = ukey"
  and ExtractTag_append [simp]: "ExtractTag (ukey @ EncodeFixed64 num) = num"
  by (simp_all add: ExtractUserKey_def ExtractTag_def)

lemma InternalKey_eq: "InternalKey ukey s t = ukey @ EncodeFixed64 (PackSequenceAndType s t)"
  by (simp add: InternalKey_def AppendInternalKey_def PutFixed64_def)

lemma internal_key_split:
  "8 \<le> length ik \<Longrightarrow> ik = ExtractUserKey ik @ EncodeFixed64 (ExtractTag ik)"
  by (simp add: ExtractUserKey_def ExtractTag_def EncodeFixed64_DecodeFixed64)

lemma ParseInternalKey_eq:
  "ParseInternalKey ik =
     (if length ik < 8 then None
      else map_option (\<lambda>t. \<lparr>user_key = ExtractUserKey ik, sequence_no = drop_bit 8 (ExtractTag ik),
                            value_type = t\<rparr>)
             (ValueType_of (ucast (ExtractTag ik AND 0xff))))"
  by (auto simp: ParseInternalKey_def ExtractUserKey_def ExtractTag_def Let_def
      simp flip: ValueType_of_le)
     (use ValueType_of_le in auto)

lemma ParseInternalKey_InternalKey [simp]:
  "s \<le> kMaxSequenceNumber \<Longrightarrow>
   ParseInternalKey (InternalKey ukey s t) =
     Some \<lparr>user_key = ukey, sequence_no = s, value_type = t\<rparr>"
  by (simp add: ParseInternalKey_eq InternalKey_eq drop_bit_PackSequenceAndType
      type_PackSequenceAndType)

lemma ValueType_of_Some: "ValueType_of c = Some t \<Longrightarrow> unat c = ValueType_code t"
  by (auto simp: ValueType_of_def split: if_splits)

lemma ParseInternalKey_Some:
  assumes "ParseInternalKey ik = Some k"
  shows "sequence_no k \<le> kMaxSequenceNumber"
    and "ik = InternalKey (user_key k) (sequence_no k) (value_type k)"
proof -
  from assms obtain t where len: "8 \<le> length ik"
    and t: "ValueType_of (ucast (ExtractTag ik AND 0xff)) = Some t"
    and k: "k = \<lparr>user_key = ExtractUserKey ik, sequence_no = drop_bit 8 (ExtractTag ik), value_type = t\<rparr>"
    by (auto simp: ParseInternalKey_eq split: if_splits)
  show seq: "sequence_no k \<le> kMaxSequenceNumber"
    using unsigned_less [of "ExtractTag ik", where ?'a = nat]
    by (simp add: k word_le_nat_alt unat_drop_bit_div kMaxSequenceNumber_def)
  have code: "ValueType_code t = unat (ExtractTag ik) mod 256"
    using ValueType_of_Some [OF t] by (simp only: unat_low_byte)
  have "PackSequenceAndType (drop_bit 8 (ExtractTag ik)) t = ExtractTag ik"
    using seq unfolding k
    by (intro word_eq_unatI) (simp add: unat_PackSequenceAndType unat_drop_bit_div code)
  then show "ik = InternalKey (user_key k) (sequence_no k) (value_type k)"
    using internal_key_split [OF len] by (simp add: k InternalKey_eq)
qed

section \<open>The comparator laws carry over to internal keys\<close>

lemma InternalKeyComparator_simps [simp]:
  "Compare (InternalKeyComparator c) = IKC_Compare c"
  "FindShortestSeparator (InternalKeyComparator c) = IKC_FindShortestSeparator c"
  "FindShortSuccessor (InternalKeyComparator c) = IKC_FindShortSuccessor c"
  by (simp_all add: InternalKeyComparator_def)

definition internal_key_ok :: "(bytes \<Rightarrow> bool) \<Rightarrow> bytes \<Rightarrow> bool" where
  "internal_key_ok key_ok ik \<longleftrightarrow> 8 \<le> length ik \<and> key_ok (ExtractUserKey ik)"

lemma IKC_Compare_less:
  "IKC_Compare c a b < 0 \<longleftrightarrow>
     Compare c (ExtractUserKey a) (ExtractUserKey b) < 0 \<or>
     Compare c (ExtractUserKey a) (ExtractUserKey b) = 0 \<and> ExtractTag b < ExtractTag a"
  and IKC_Compare_greater:
  "0 < IKC_Compare c a b \<longleftrightarrow>
     0 < Compare c (ExtractUserKey a) (ExtractUserKey b) \<or>
     Compare c (ExtractUserKey a) (ExtractUserKey b) = 0 \<and> ExtractTag a < ExtractTag b"
  by (auto simp: IKC_Compare_def Let_def)

lemma IKC_Compare_le:
  "IKC_Compare c a b \<le> 0 \<longleftrightarrow>
     Compare c (ExtractUserKey a) (ExtractUserKey b) < 0 \<or>
     Compare c (ExtractUserKey a) (ExtractUserKey b) = 0 \<and> ExtractTag b \<le> ExtractTag a"
  by (auto simp: IKC_Compare_def Let_def)

lemma internal_key_ok_put [simp]:
  "internal_key_ok key_ok (PutFixed64 ukey num) = key_ok ukey"
  by (simp add: internal_key_ok_def PutFixed64_def)

context key_comparator
begin

lemma IKC_separator_between:
  assumes "internal_key_ok key_ok a" and "internal_key_ok key_ok b" and "IKC_Compare cmp a b < 0"
  shows "IKC_Compare cmp a (IKC_FindShortestSeparator cmp a b) \<le> 0 \<and>
         IKC_Compare cmp (IKC_FindShortestSeparator cmp a b) b < 0"
proof -
  let ?ua = "ExtractUserKey a" and ?ub = "ExtractUserKey b"
  have ok: "key_ok ?ua" "key_ok ?ub"
    using assms by (simp_all add: internal_key_ok_def)
  show ?thesis
  proof (cases "Compare cmp ?ua ?ub < 0")
    case True
    then show ?thesis
      using separator_between [OF ok True] assms(3) compare_refl [OF ok(1)]
      by (auto simp: IKC_FindShortestSeparator_def Let_def IKC_Compare_less IKC_Compare_le
          PutFixed64_def)
  next
    case False
    then show ?thesis
      using separator_unordered [OF ok False] assms(3) compare_refl [OF ok(1)]
      by (auto simp: IKC_FindShortestSeparator_def Let_def IKC_Compare_le)
  qed
qed

lemma IKC_separator_unordered:
  assumes "internal_key_ok key_ok a" and "internal_key_ok key_ok b" and "\<not> IKC_Compare cmp a b < 0"
  shows "IKC_FindShortestSeparator cmp a b = a"
  using assms separator_unordered [of "ExtractUserKey a" "ExtractUserKey b"]
  by (auto simp: IKC_FindShortestSeparator_def Let_def IKC_Compare_less internal_key_ok_def)

lemma IKC_successor_le:
  assumes "internal_key_ok key_ok a"
  shows "IKC_Compare cmp a (IKC_FindShortSuccessor cmp a) \<le> 0"
  using assms compare_refl
  by (auto simp: IKC_FindShortSuccessor_def Let_def IKC_Compare_le PutFixed64_def internal_key_ok_def)

lemma IKC_flip:
  assumes "internal_key_ok key_ok a" and "internal_key_ok key_ok b"
  shows "IKC_Compare cmp a b < 0 \<longleftrightarrow> 0 < IKC_Compare cmp b a"
  using assms compare_flip compare_flip_eq
  by (auto simp: IKC_Compare_less IKC_Compare_greater internal_key_ok_def)

lemma IKC_trans:
  assumes "internal_key_ok key_ok a" "internal_key_ok key_ok b" "internal_key_ok key_ok c"
    and "IKC_Compare cmp a b \<le> 0" "IKC_Compare cmp b c \<le> 0"
  shows "IKC_Compare cmp a c \<le> 0"
proof -
  let ?a = "ExtractUserKey a" and ?b = "ExtractUserKey b" and ?c = "ExtractUserKey c"
  have ok: "key_ok ?a" "key_ok ?b" "key_ok ?c"
    using assms by (simp_all add: internal_key_ok_def)
  show ?thesis
    using assms(4,5) compare_less_trans [OF ok] compare_less_le_trans [OF ok]
      compare_le_less_trans [OF ok] compare_eq_trans [OF ok]
    by (auto simp: IKC_Compare_le)
qed

lemma IKC_separator_ok:
  "internal_key_ok key_ok a \<Longrightarrow> internal_key_ok key_ok b \<Longrightarrow>
   internal_key_ok key_ok (IKC_FindShortestSeparator cmp a b)"
  by (auto simp: IKC_FindShortestSeparator_def Let_def)
     (simp add: internal_key_ok_def separator_ok)

lemma IKC_successor_ok:
  "internal_key_ok key_ok a \<Longrightarrow> internal_key_ok key_ok (IKC_FindShortSuccessor cmp a)"
  by (auto simp: IKC_FindShortSuccessor_def Let_def) (simp add: internal_key_ok_def successor_ok)

theorem internal_comparator_laws:
  "key_comparator (InternalKeyComparator cmp) (internal_key_ok key_ok)"
  by (unfold_locales; simp only: InternalKeyComparator_simps)
     (erule (1) IKC_flip, erule (4) IKC_trans, erule (1) IKC_separator_ok,
      erule (2) IKC_separator_between, erule (2) IKC_separator_unordered, erule IKC_successor_ok,
      erule IKC_successor_le)

end

interpretation internal: key_comparator "InternalKeyComparator BytewiseComparator" "internal_key_ok (\<lambda>_. True)"
  by (rule bytewise.internal_comparator_laws)

section \<open>Lookup keys and range deletions\<close>

lemma make_LookupKey_views:
  "lookup_user_key (make_LookupKey ukey s) = ukey"
  "lookup_internal_key (make_LookupKey ukey s) = InternalKey ukey s kValueTypeForSeek"
  by (simp_all add: make_LookupKey_def lookup_user_key_def lookup_internal_key_def InternalKey_eq Let_def)

lemma RDL_IsDeleted_iff:
  "RDL_IsDeleted deletions key found_seq read_seq \<longleftrightarrow>
     (\<exists>del \<in> set deletions. start_key del \<le> key \<and> key < end_key del \<and>
        found_seq < del_seq del \<and> del_seq del \<le> read_seq)"
  by (induction deletions) auto

lemma RDL_IsDeleted_MergeInto:
  "RDL_IsDeleted (RDL_MergeInto deletions (Some others)) key f r \<longleftrightarrow>
     RDL_IsDeleted deletions key f r \<or> RDL_IsDeleted others key f r"
  by (auto simp: RDL_MergeInto_def RDL_IsDeleted_iff)

lemma RDL_IsDeleted_Add:
  "RDL_IsDeleted (RDL_Add deletions start end seq) key f r \<longleftrightarrow>
     RDL_IsDeleted deletions key f r \<or> start \<le> key \<and> key < end \<and> f < seq \<and> seq \<le> r"
  by (auto simp: RDL_Add_def RDL_IsDeleted_iff)

end
