(* ===== verification/Store_Spec.thy ===== *)
theory Store_Spec
  imports Dbformat
begin

text \<open>
  The abstract store: what a reader at a snapshot sees after a history of writes. An update carries
  the sequence number it was given; a read at sequence number \<open>snap\<close> is answered by the latest update
  with a number up to \<open>snap\<close> that affects the key, where a range deletion affects the keys of its
  half-open range. Memtables, the write path and the iterators are shown to implement this.
\<close>

datatype write_op =
    Put bytes bytes
  | Delete bytes
  | DeleteRange bytes bytes

type_synonym history = "(u64 \<times> write_op) list"

fun affects :: "bytes \<Rightarrow> write_op \<Rightarrow> bool" where
  "affects key (Put k v) \<longleftrightarrow> k = key"
| "affects key (Delete k) \<longleftrightarrow> k = key"
| "affects key (DeleteRange a b) \<longleftrightarrow> a \<le> key \<and> key < b"

datatype lookup_result = Found bytes | Deleted | Absent

fun result_of :: "write_op \<Rightarrow> lookup_result" where
  "result_of (Put k v) = Found v"
| "result_of (Delete k) = Deleted"
| "result_of (DeleteRange a b) = Deleted"

definition visible :: "history \<Rightarrow> bytes \<Rightarrow> u64 \<Rightarrow> history" where
  "visible h key snap = filter (\<lambda>(seq, p). seq \<le> snap \<and> affects key p) h"

text \<open>The update with the largest number; among equal numbers the later one.\<close>

fun latest :: "history \<Rightarrow> (u64 \<times> write_op) option" where
  "latest [] = None"
| "latest ((seq, p) # h) =
     (case latest h of
        None \<Rightarrow> Some (seq, p)
      | Some (seq', p') \<Rightarrow> if seq' < seq then Some (seq, p) else Some (seq', p'))"

definition spec_get :: "history \<Rightarrow> bytes \<Rightarrow> u64 \<Rightarrow> lookup_result" where
  "spec_get h key snap =
     (case latest (visible h key snap) of None \<Rightarrow> Absent | Some (seq, p) \<Rightarrow> result_of p)"

text \<open>The value a client reads, with deleted and absent keys not told apart.\<close>

definition spec_value :: "history \<Rightarrow> bytes \<Rightarrow> u64 \<Rightarrow> bytes option" where
  "spec_value h key snap = (case spec_get h key snap of Found v \<Rightarrow> Some v | _ \<Rightarrow> None)"

text \<open>Consecutive numbering of the updates of a batch; the counter wraps like \<^verbatim>\<open>uint64_t\<close>.\<close>

fun number_ops :: "u64 \<Rightarrow> write_op list \<Rightarrow> history" where
  "number_ops seq [] = []"
| "number_ops seq (p # ps) = (seq, p) # number_ops (seq + 1) ps"

section \<open>Facts about the latest update\<close>

lemma latest_None [simp]: "latest h = None \<longleftrightarrow> h = []"
  by (cases h) (auto split: option.splits)

lemma latest_in: "latest h = Some e \<Longrightarrow> e \<in> set h"
  by (induction h arbitrary: e) (auto split: option.splits if_splits)

lemma latest_max: "latest h = Some (seq, p) \<Longrightarrow> (s, q) \<in> set h \<Longrightarrow> s \<le> seq"
  by (induction h arbitrary: seq p) (force split: option.splits if_splits)+

lemma latest_unique:
  assumes "distinct (map fst h)" and "(seq, p) \<in> set h" and "\<And>s q. (s, q) \<in> set h \<Longrightarrow> s \<le> seq"
  shows "latest h = Some (seq, p)"
proof (cases "latest h")
  case None
  then show ?thesis using assms(2) by simp
next
  case (Some e)
  obtain s q where e: "e = (s, q)" by fastforce
  have "s \<le> seq" using latest_in [OF Some] assms(3) e by blast
  moreover have "seq \<le> s" using latest_max [of h s q] Some e assms(2) by blast
  ultimately have "s = seq" by simp
  then show ?thesis
    using assms(1,2) latest_in [OF Some] Some e by (metis eq_key_imp_eq_value)
qed

lemma in_visible [simp]:
  "(seq, p) \<in> set (visible h key snap) \<longleftrightarrow> (seq, p) \<in> set h \<and> seq \<le> snap \<and> affects key p"
  by (auto simp: visible_def)

lemma distinct_visible: "distinct (map fst h) \<Longrightarrow> distinct (map fst (visible h key snap))"
  by (simp add: visible_def distinct_map_filter)

text \<open>The answer from the one update that decides it.\<close>

lemma spec_getI:
  assumes "distinct (map fst h)" and "(seq, p) \<in> set h" and "seq \<le> snap" and "affects key p"
    and "\<And>s q. (s, q) \<in> set h \<Longrightarrow> s \<le> snap \<Longrightarrow> affects key q \<Longrightarrow> s \<le> seq"
  shows "spec_get h key snap = result_of p"
proof -
  have "latest (visible h key snap) = Some (seq, p)"
    by (rule latest_unique [OF distinct_visible [OF assms(1)]]) (use assms in auto)
  then show ?thesis by (simp add: spec_get_def)
qed

lemma spec_get_Absent:
  "spec_get h key snap = Absent \<longleftrightarrow> (\<forall>(seq, p) \<in> set h. seq \<le> snap \<longrightarrow> \<not> affects key p)"
proof -
  have "result_of p \<noteq> Absent" for p by (cases p) simp_all
  then have "spec_get h key snap = Absent \<longleftrightarrow> visible h key snap = []"
    by (auto simp: spec_get_def split: option.splits dest: latest_in)
  then show ?thesis
    by (auto simp: visible_def filter_empty_conv)
qed

lemma spec_get_order:
  assumes "distinct (map fst h)" and "set h = set h'" and "distinct (map fst h')"
  shows "spec_get h key snap = spec_get h' key snap"
proof (cases "latest (visible h key snap)")
  case None
  then show ?thesis
    using assms(2) spec_get_Absent [of h key snap] spec_get_Absent [of h' key snap]
    by (auto simp: spec_get_def)
next
  case (Some e)
  obtain seq p where e: "e = (seq, p)" by fastforce
  have "(seq, p) \<in> set (visible h key snap)"
    using latest_in [OF Some] e by simp
  moreover have "s \<le> seq" if "(s, q) \<in> set h'" "s \<le> snap" "affects key q" for s q
    using latest_max [of "visible h key snap" seq p s q] Some e that assms(2) by simp
  ultimately have "spec_get h' key snap = result_of p"
    using assms(2) by (intro spec_getI [OF assms(3), where seq = seq]) auto
  then show ?thesis
    using Some e by (simp add: spec_get_def)
qed

end
