(* ===== verification/Write_Batch.thy ===== *)
theory Write_Batch
  imports Store_Spec
begin

text \<open>
  Write batches (db/write_batch.cc): the serialised list of updates that is written to the log and
  then applied to a memtable. A batch is its representation \<^verbatim>\<open>rep_\<close>; a handler is a record of the
  three callbacks over a state. The results say which updates a representation stands for, that the
  builders append to them, and that iterating replays exactly them.
\<close>

record 'h Handler =
  h_Put :: "'h \<Rightarrow> bytes \<Rightarrow> bytes \<Rightarrow> 'h"
  h_Delete :: "'h \<Rightarrow> bytes \<Rightarrow> 'h"
  h_DeleteRange :: "'h \<Rightarrow> bytes \<Rightarrow> bytes \<Rightarrow> 'h"

type_synonym WriteBatch = bytes

definition kHeader :: nat where "kHeader = 12"

definition WriteBatch_Clear :: WriteBatch where
  "WriteBatch_Clear = replicate kHeader 0"

definition ApproximateSize :: "WriteBatch \<Rightarrow> nat" where
  "ApproximateSize b = length b"

definition Count :: "WriteBatch \<Rightarrow> u32" where
  "Count b = DecodeFixed32 (drop 8 b)"

definition SetCount :: "WriteBatch \<Rightarrow> u32 \<Rightarrow> WriteBatch" where
  "SetCount b n = take 8 b @ EncodeFixed32 n @ drop 12 b"

definition Sequence :: "WriteBatch \<Rightarrow> u64" where
  "Sequence b = DecodeFixed64 b"

definition SetSequence :: "WriteBatch \<Rightarrow> u64 \<Rightarrow> WriteBatch" where
  "SetSequence b seq = EncodeFixed64 seq @ drop 8 b"

definition type_byte :: "ValueType \<Rightarrow> byte" where
  "type_byte t = word_of_nat (ValueType_code t)"

definition WriteBatch_Put :: "WriteBatch \<Rightarrow> bytes \<Rightarrow> bytes \<Rightarrow> WriteBatch" where
  "WriteBatch_Put b key v =
     (let b = SetCount b (Count b + 1); b = b @ [type_byte kTypeValue]
      in PutLengthPrefixedSlice (PutLengthPrefixedSlice b key) v)"

definition WriteBatch_Delete :: "WriteBatch \<Rightarrow> bytes \<Rightarrow> WriteBatch" where
  "WriteBatch_Delete b key =
     (let b = SetCount b (Count b + 1); b = b @ [type_byte kTypeDeletion]
      in PutLengthPrefixedSlice b key)"

definition WriteBatch_DeleteRange :: "WriteBatch \<Rightarrow> bytes \<Rightarrow> bytes \<Rightarrow> WriteBatch" where
  "WriteBatch_DeleteRange b start limit =
     (let b = SetCount b (Count b + 1); b = b @ [type_byte kTypeRangeDeletion]
      in PutLengthPrefixedSlice (PutLengthPrefixedSlice b start) limit)"

definition WriteBatch_Append :: "WriteBatch \<Rightarrow> WriteBatch \<Rightarrow> WriteBatch" where
  "WriteBatch_Append dst src = SetCount dst (Count dst + Count src) @ drop kHeader src"

definition SetContents :: "bytes \<Rightarrow> WriteBatch" where
  "SetContents contents = contents"

text \<open>Two length-prefixed slices in a row, as the \<^verbatim>\<open>&&\<close> of the sources reads them.\<close>

definition GetTwoSlices :: "bytes \<Rightarrow> (bytes \<times> bytes \<times> bytes) option" where
  "GetTwoSlices input =
     (case GetLengthPrefixedSlice input of
        None \<Rightarrow> None
      | Some (a, input) \<Rightarrow>
          (case GetLengthPrefixedSlice input of
             None \<Rightarrow> None
           | Some (b, input) \<Rightarrow> Some (a, b, input)))"

lemma GetTwoSlices_shorter: "GetTwoSlices p = Some (a, b, rest) \<Longrightarrow> length rest < length p"
  by (auto simp: GetTwoSlices_def split: option.splits prod.splits
      dest!: GetLengthPrefixedSlice_shorter)

function Iterate_loop :: "'h Handler \<Rightarrow> bytes \<Rightarrow> u32 \<Rightarrow> 'h \<Rightarrow> (status + u32) \<times> 'h" where
  "Iterate_loop hn input found h =
     (case input of
        [] \<Rightarrow> (Inr found, h)
      | tag # input' \<Rightarrow>
          if tag = type_byte kTypeValue then
            (case GetTwoSlices input' of
               Some (key, v, rest) \<Rightarrow> Iterate_loop hn rest (found + 1) (h_Put hn h key v)
             | None \<Rightarrow> (Inl (Corruption ''bad WriteBatch Put''), h))
          else if tag = type_byte kTypeDeletion then
            (case GetLengthPrefixedSlice input' of
               Some (key, rest) \<Rightarrow> Iterate_loop hn rest (found + 1) (h_Delete hn h key)
             | None \<Rightarrow> (Inl (Corruption ''bad WriteBatch Delete''), h))
          else if tag = type_byte kTypeRangeDeletion then
            (case GetTwoSlices input' of
               Some (key, v, rest) \<Rightarrow> Iterate_loop hn rest (found + 1) (h_DeleteRange hn h key v)
             | None \<Rightarrow> (Inl (Corruption ''bad WriteBatch DeleteRange''), h))
          else (Inl (Corruption ''unknown WriteBatch tag''), h))"
  by pat_completeness auto
termination
  by (relation "measure (\<lambda>(_, input, _, _). length input)")
     (auto dest: GetTwoSlices_shorter GetLengthPrefixedSlice_shorter)

declare Iterate_loop.simps [simp del]

definition Iterate :: "'h Handler \<Rightarrow> WriteBatch \<Rightarrow> 'h \<Rightarrow> status \<times> 'h" where
  "Iterate hn b h =
     (if length b < kHeader then (Corruption ''malformed WriteBatch (too small)'', h)
      else
        case Iterate_loop hn (drop kHeader b) 0 h of
          (Inl s, h) \<Rightarrow> (s, h)
        | (Inr found, h) \<Rightarrow>
            (if found \<noteq> Count b then Corruption ''WriteBatch has wrong count'' else OK, h))"

section \<open>The updates a batch stands for\<close>

definition handle :: "'h Handler \<Rightarrow> 'h \<Rightarrow> write_op \<Rightarrow> 'h" where
  "handle hn h p =
     (case p of Put k v \<Rightarrow> h_Put hn h k v | Delete k \<Rightarrow> h_Delete hn h k
      | DeleteRange a b \<Rightarrow> h_DeleteRange hn h a b)"

fun encode_op :: "write_op \<Rightarrow> bytes" where
  "encode_op (Put k v) =
     type_byte kTypeValue # PutLengthPrefixedSlice (PutLengthPrefixedSlice [] k) v"
| "encode_op (Delete k) = type_byte kTypeDeletion # PutLengthPrefixedSlice [] k"
| "encode_op (DeleteRange a b) =
     type_byte kTypeRangeDeletion # PutLengthPrefixedSlice (PutLengthPrefixedSlice [] a) b"

text \<open>Slices longer than a 32-bit length are outside what the format can hold.\<close>

fun op_fits :: "write_op \<Rightarrow> bool" where
  "op_fits (Put k v) \<longleftrightarrow> length k < 2 ^ 32 \<and> length v < 2 ^ 32"
| "op_fits (Delete k) \<longleftrightarrow> length k < 2 ^ 32"
| "op_fits (DeleteRange a b) \<longleftrightarrow> length a < 2 ^ 32 \<and> length b < 2 ^ 32"

definition batch_rep :: "u64 \<Rightarrow> write_op list \<Rightarrow> WriteBatch" where
  "batch_rep seq ps = EncodeFixed64 seq @ EncodeFixed32 (size32 ps) @ concat (map encode_op ps)"

lemma type_byte_neq [simp]: "type_byte s = type_byte t \<longleftrightarrow> s = t"
  by (cases s; cases t) (simp_all add: type_byte_def)

lemma GetTwoSlices_Put:
  "length a < 2 ^ 32 \<Longrightarrow> length b < 2 ^ 32 \<Longrightarrow>
   GetTwoSlices (PutLengthPrefixedSlice (PutLengthPrefixedSlice [] a) b @ rest) = Some (a, b, rest)"
  by (subst PutLengthPrefixedSlice_dst) (simp add: GetTwoSlices_def GetLengthPrefixedSlice_Put)

lemma Iterate_loop_encode:
  "list_all op_fits ps \<Longrightarrow>
   Iterate_loop hn (concat (map encode_op ps) @ rest) found h =
     Iterate_loop hn rest (found + size32 ps) (foldl (handle hn) h ps)"
proof (induction ps arbitrary: found h)
  case (Cons p ps)
  have "Iterate_loop hn (encode_op p @ concat (map encode_op ps) @ rest) found h =
      Iterate_loop hn (concat (map encode_op ps) @ rest) (found + 1) (handle hn h p)"
    using Cons.prems
    by (subst Iterate_loop.simps, cases p)
       (simp_all add: GetTwoSlices_Put GetLengthPrefixedSlice_Put handle_def)
  then show ?case
    using Cons by (simp add: add.assoc)
qed simp

lemma Iterate_loop_Nil [simp]: "Iterate_loop hn [] found h = (Inr found, h)"
  by (simp add: Iterate_loop.simps)

lemma Count_batch_rep [simp]: "Count (batch_rep seq ps) = size32 ps"
  by (simp add: Count_def batch_rep_def)

lemma Sequence_batch_rep [simp]: "Sequence (batch_rep seq ps) = seq"
  by (simp add: Sequence_def batch_rep_def)

lemma SetSequence_batch_rep [simp]: "SetSequence (batch_rep seq ps) seq' = batch_rep seq' ps"
  by (simp add: SetSequence_def batch_rep_def)

lemma WriteBatch_Clear_rep: "WriteBatch_Clear = batch_rep 0 []"
  by (simp add: WriteBatch_Clear_def batch_rep_def kHeader_def EncodeFixed64_def EncodeFixed32_def
      numeral_eq_Suc)

lemma SetCount_batch_rep:
  "SetCount (batch_rep seq ps) n = EncodeFixed64 seq @ EncodeFixed32 n @ concat (map encode_op ps)"
  by (simp add: SetCount_def batch_rep_def)

lemma PutTwo_dst:
  "PutLengthPrefixedSlice (PutLengthPrefixedSlice dst a) b =
   dst @ PutLengthPrefixedSlice (PutLengthPrefixedSlice [] a) b"
  by (metis PutLengthPrefixedSlice_dst append.assoc)

lemma batch_rep_snoc:
  "WriteBatch_Put (batch_rep seq ps) k v = batch_rep seq (ps @ [Put k v])"
  "WriteBatch_Delete (batch_rep seq ps) k = batch_rep seq (ps @ [Delete k])"
  "WriteBatch_DeleteRange (batch_rep seq ps) a b = batch_rep seq (ps @ [DeleteRange a b])"
  unfolding WriteBatch_Put_def WriteBatch_Delete_def WriteBatch_DeleteRange_def Let_def
    Count_batch_rep SetCount_batch_rep
  by (subst PutTwo_dst PutLengthPrefixedSlice_dst, simp add: batch_rep_def add.commute)+

lemma WriteBatch_Append_rep:
  "WriteBatch_Append (batch_rep seq ps) (batch_rep seq' qs) = batch_rep seq (ps @ qs)"
  by (simp add: WriteBatch_Append_def SetCount_batch_rep) (simp add: batch_rep_def kHeader_def)

lemma Iterate_batch_rep:
  assumes "list_all op_fits ps"
  shows "Iterate hn (batch_rep seq ps) h = (OK, foldl (handle hn) h ps)"
proof -
  have "drop kHeader (batch_rep seq ps) = concat (map encode_op ps)" "\<not> length (batch_rep seq ps) < kHeader"
    by (simp_all add: batch_rep_def kHeader_def)
  then show ?thesis
    using Iterate_loop_encode [OF assms, of hn "[]" 0 h] by (simp add: Iterate_def)
qed

text \<open>Building a batch by the public operations.\<close>

fun add_op :: "WriteBatch \<Rightarrow> write_op \<Rightarrow> WriteBatch" where
  "add_op b (Put k v) = WriteBatch_Put b k v"
| "add_op b (Delete k) = WriteBatch_Delete b k"
| "add_op b (DeleteRange a c) = WriteBatch_DeleteRange b a c"

lemma foldl_add_op: "foldl add_op (batch_rep seq ps) qs = batch_rep seq (ps @ qs)"
proof (induction qs arbitrary: ps)
  case (Cons q qs)
  have "add_op (batch_rep seq ps) q = batch_rep seq (ps @ [q])"
    by (cases q) (simp_all add: batch_rep_snoc)
  then show ?case using Cons by simp
qed simp

section \<open>Properties\<close>

text \<open>C13. A batch replays what was put into it: iterating over a batch built from an empty one by any
  sequence of puts, deletes and range deletes succeeds and calls the handler with exactly those
  updates in that order, whatever sequence number the batch is given.\<close>

theorem write_batch_replay:
  assumes "list_all op_fits ps"
  shows "Iterate hn (SetSequence (foldl add_op WriteBatch_Clear ps) seq) h = (OK, foldl (handle hn) h ps)"
  using Iterate_batch_rep [OF assms] by (simp add: WriteBatch_Clear_rep foldl_add_op)

definition log_handler :: "write_op list Handler" where
  "log_handler = \<lparr>h_Put = \<lambda>h k v. h @ [Put k v], h_Delete = \<lambda>h k. h @ [Delete k],
                  h_DeleteRange = \<lambda>h a b. h @ [DeleteRange a b]\<rparr>"

theorem write_batch_replay_witness:
  "Iterate log_handler (SetSequence (foldl add_op WriteBatch_Clear [Put [1] [2], DeleteRange [1] [3]]) 7) [] =
     (OK, [Put [1] [2], DeleteRange [1] [3]])"
  by (subst write_batch_replay) (simp_all add: log_handler_def handle_def)

text \<open>C14. Appending a batch to another one keeps the sequence number of the first, adds up the counts
  and replays the updates of the first and then those of the second.\<close>

theorem write_batch_append:
  assumes "list_all op_fits ps" and "list_all op_fits qs"
  shows "let b = WriteBatch_Append (SetSequence (foldl add_op WriteBatch_Clear ps) s)
                   (SetSequence (foldl add_op WriteBatch_Clear qs) t)
         in Sequence b = s \<and> Count b = size32 (ps @ qs) \<and>
            Iterate hn b h = (OK, foldl (handle hn) h (ps @ qs))"
  using Iterate_batch_rep [of "ps @ qs" hn s h] assms
  by (simp add: WriteBatch_Clear_rep foldl_add_op WriteBatch_Append_rep)

theorem write_batch_append_witness:
  "let b = WriteBatch_Append (SetSequence (foldl add_op WriteBatch_Clear [Put [1] [2]]) 5)
             (SetSequence (foldl add_op WriteBatch_Clear [Delete [1]]) 9)
   in Sequence b = 5 \<and> Count b = size32 ([Put [1] [2]] @ [Delete [1]]) \<and>
      Iterate log_handler b [] = (OK, foldl (handle log_handler) [] ([Put [1] [2]] @ [Delete [1]]))"
  by (rule write_batch_append) simp_all

text \<open>C15. A batch whose records end in an unknown tag is reported as corrupt, but only after every
  record before the tag has been handed to the handler.\<close>

theorem write_batch_bad_tag_partial:
  assumes "list_all op_fits ps" and "\<forall>t. tag \<noteq> type_byte t" and "length header = kHeader"
  shows "Iterate hn (header @ concat (map encode_op ps) @ tag # rest) h =
           (Corruption ''unknown WriteBatch tag'', foldl (handle hn) h ps)"
proof -
  have "Iterate_loop hn (tag # rest) found h' = (Inl (Corruption ''unknown WriteBatch tag''), h')" for found h'
    using assms(2) by (simp add: Iterate_loop.simps)
  then show ?thesis
    using Iterate_loop_encode [OF assms(1), of hn "tag # rest" 0 h] assms(3) by (simp add: Iterate_def)
qed

theorem write_batch_bad_tag_partial_witness:
  "Iterate log_handler (replicate 12 0 @ concat (map encode_op [Put [1] [2]]) @ 3 # []) [] =
     (Corruption ''unknown WriteBatch tag'', foldl (handle log_handler) [] [Put [1] [2]])"
proof (rule write_batch_bad_tag_partial)
  show "\<forall>t. 3 \<noteq> type_byte t"
  proof
    fix t show "3 \<noteq> type_byte t" by (cases t) (simp_all add: type_byte_def)
  qed
qed (simp_all add: kHeader_def)

end
