(* ===== verification/Skiplist.thy ===== *)
theory Skiplist
  imports Comparators "HOL-Library.Multiset"
begin

text \<open>
  The skip list of db/skiplist.h and the generator of util/random.h it draws its heights from.

  Nodes live in an explicit store: an address has a key and, per level, the address of the next
  node; address 0 is \<^verbatim>\<open>head_\<close>. The searches are \<^verbatim>\<open>partial_function\<close>s, so that a search that runs
  forever is \<open>None\<close>. The invariant \<^verbatim>\<open>sl_ok\<close> relates the store to the list of its addresses in key
  order: on every level the links visit, in that order, the nodes that are high enough. Under it every
  search returns, finds what a scan of the sorted list finds, and \<^verbatim>\<open>Insert\<close> refines insertion into a
  sorted list, whatever heights the generator draws.
\<close>

section \<open>Random numbers\<close>

definition make_Random :: "u32 \<Rightarrow> u32" where
  "make_Random s =
     (let seed = s AND 0x7fffffff in if seed = 0 \<or> seed = 2147483647 then 1 else seed)"

definition Random_Next :: "u32 \<Rightarrow> u32" where
  "Random_Next seed =
     (let M = 2147483647;
          product = (ucast seed :: u64) * 16807;
          seed = (ucast (drop_bit 31 product + (product AND M)) :: u32)
      in if ucast M < seed then seed - ucast M else seed)"

definition OneIn :: "u32 \<Rightarrow> nat \<Rightarrow> bool \<times> u32" where
  "OneIn seed n = (let seed = Random_Next seed in (unat seed mod n = 0, seed))"

section \<open>The list\<close>

record 'k skiplist =
  sl_key :: "nat \<Rightarrow> 'k"
  sl_next :: "nat \<Rightarrow> nat \<Rightarrow> nat option"
  sl_alloc :: nat
  sl_max_height :: nat
  sl_rnd :: u32

definition kMaxHeight :: nat where "kMaxHeight = 12"

definition head_node :: nat where "head_node = 0"

definition make_SkipList :: "'k \<Rightarrow> 'k skiplist" where
  "make_SkipList any_key =
     \<lparr>sl_key = \<lambda>_. any_key, sl_next = \<lambda>_ _. None, sl_alloc = 1, sl_max_height = 1,
      sl_rnd = make_Random 0xdeadbeef\<rparr>"

definition SetNext :: "nat \<Rightarrow> nat \<Rightarrow> nat option \<Rightarrow> 'k skiplist \<Rightarrow> 'k skiplist" where
  "SetNext x n y l = l\<lparr>sl_next := (sl_next l)(x := (sl_next l x)(n := y))\<rparr>"

definition NewNode :: "'k \<Rightarrow> 'k skiplist \<Rightarrow> nat \<times> 'k skiplist" where
  "NewNode key l =
     (let x = sl_alloc l in (x, l\<lparr>sl_key := (sl_key l)(x := key), sl_alloc := x + 1\<rparr>))"

fun RandomHeight_loop :: "nat \<Rightarrow> nat \<Rightarrow> u32 \<Rightarrow> nat \<times> u32" where
  "RandomHeight_loop 0 height seed = (height, seed)"
| "RandomHeight_loop (Suc room) height seed =
     (case OneIn seed 4 of
        (one, seed) \<Rightarrow> if one then RandomHeight_loop room (height + 1) seed else (height, seed))"

definition RandomHeight :: "'k skiplist \<Rightarrow> nat \<times> 'k skiplist" where
  "RandomHeight l =
     (case RandomHeight_loop (kMaxHeight - 1) 1 (sl_rnd l) of
        (height, seed) \<Rightarrow> (height, l\<lparr>sl_rnd := seed\<rparr>))"

definition KeyIsAfterNode :: "('k \<Rightarrow> 'k \<Rightarrow> int) \<Rightarrow> 'k skiplist \<Rightarrow> 'k \<Rightarrow> nat option \<Rightarrow> bool" where
  "KeyIsAfterNode compare l key n =
     (case n of None \<Rightarrow> False | Some a \<Rightarrow> compare (sl_key l a) key < 0)"

text \<open>The search keeps \<^verbatim>\<open>prev\<close> as a function from levels to nodes.\<close>

partial_function (option) FindGreaterOrEqual_loop ::
  "('k \<Rightarrow> 'k \<Rightarrow> int) \<Rightarrow> 'k skiplist \<Rightarrow> 'k \<Rightarrow> nat \<Rightarrow> nat \<Rightarrow> (nat \<Rightarrow> nat) \<Rightarrow> (nat option \<times> (nat \<Rightarrow> nat)) option" where
  "FindGreaterOrEqual_loop compare l key x level prev =
     (if KeyIsAfterNode compare l key (sl_next l x level) then
        FindGreaterOrEqual_loop compare l key (the (sl_next l x level)) level prev
      else if level = 0 then Some (sl_next l x level, prev(level := x))
      else FindGreaterOrEqual_loop compare l key x (level - 1) (prev(level := x)))"

definition FindGreaterOrEqual ::
  "('k \<Rightarrow> 'k \<Rightarrow> int) \<Rightarrow> 'k skiplist \<Rightarrow> 'k \<Rightarrow> (nat option \<times> (nat \<Rightarrow> nat)) option" where
  "FindGreaterOrEqual compare l key =
     FindGreaterOrEqual_loop compare l key head_node (sl_max_height l - 1) (\<lambda>_. head_node)"

partial_function (option) FindLessThan_loop ::
  "('k \<Rightarrow> 'k \<Rightarrow> int) \<Rightarrow> 'k skiplist \<Rightarrow> 'k \<Rightarrow> nat \<Rightarrow> nat \<Rightarrow> nat option" where
  "FindLessThan_loop compare l key x level =
     (if sl_next l x level = None \<or> 0 \<le> compare (sl_key l (the (sl_next l x level))) key then
        if level = 0 then Some x else FindLessThan_loop compare l key x (level - 1)
      else FindLessThan_loop compare l key (the (sl_next l x level)) level)"

definition FindLessThan :: "('k \<Rightarrow> 'k \<Rightarrow> int) \<Rightarrow> 'k skiplist \<Rightarrow> 'k \<Rightarrow> nat option" where
  "FindLessThan compare l key = FindLessThan_loop compare l key head_node (sl_max_height l - 1)"

partial_function (option) FindLast_loop :: "'k skiplist \<Rightarrow> nat \<Rightarrow> nat \<Rightarrow> nat option" where
  "FindLast_loop l x level =
     (if sl_next l x level = None then
        if level = 0 then Some x else FindLast_loop l x (level - 1)
      else FindLast_loop l (the (sl_next l x level)) level)"

definition FindLast :: "'k skiplist \<Rightarrow> nat option" where
  "FindLast l = FindLast_loop l head_node (sl_max_height l - 1)"

text \<open>The loop of \<^verbatim>\<open>Insert\<close> that links the new node in, from level \<open>i\<close> upwards.\<close>

fun link_levels :: "nat \<Rightarrow> nat \<Rightarrow> nat \<Rightarrow> (nat \<Rightarrow> nat) \<Rightarrow> 'k skiplist \<Rightarrow> 'k skiplist" where
  "link_levels 0 i x prev l = l"
| "link_levels (Suc n) i x prev l =
     link_levels n (i + 1) x prev (SetNext (prev i) i (Some x) (SetNext x i (sl_next l (prev i) i) l))"

definition Insert :: "('k \<Rightarrow> 'k \<Rightarrow> int) \<Rightarrow> 'k \<Rightarrow> 'k skiplist \<Rightarrow> 'k skiplist option" where
  "Insert compare key l =
     (case FindGreaterOrEqual compare l key of
        None \<Rightarrow> None
      | Some (_, prev) \<Rightarrow>
          (case RandomHeight l of
             (height, l) \<Rightarrow>
               let prev = (\<lambda>i. if sl_max_height l \<le> i then head_node else prev i);
                   l = (if sl_max_height l < height then l\<lparr>sl_max_height := height\<rparr> else l);
                   (x, l) = NewNode key l
               in Some (link_levels height 0 x prev l)))"

definition Contains :: "('k \<Rightarrow> 'k \<Rightarrow> int) \<Rightarrow> 'k skiplist \<Rightarrow> 'k \<Rightarrow> bool option" where
  "Contains compare l key =
     map_option
       (\<lambda>(x, _). case x of None \<Rightarrow> False | Some a \<Rightarrow> compare key (sl_key l a) = 0)
       (FindGreaterOrEqual compare l key)"

section \<open>Iterators\<close>

text \<open>An iterator is the node it stands on; \<open>None\<close> as a result is a search that does not return.\<close>

type_synonym sl_iterator = "nat option"

definition SL_Valid :: "sl_iterator \<Rightarrow> bool" where "SL_Valid it \<longleftrightarrow> it \<noteq> None"

definition SL_key :: "'k skiplist \<Rightarrow> sl_iterator \<Rightarrow> 'k" where "SL_key l it = sl_key l (the it)"

definition SL_Next :: "'k skiplist \<Rightarrow> sl_iterator \<Rightarrow> sl_iterator" where
  "SL_Next l it = sl_next l (the it) 0"

definition SL_Prev :: "('k \<Rightarrow> 'k \<Rightarrow> int) \<Rightarrow> 'k skiplist \<Rightarrow> sl_iterator \<Rightarrow> sl_iterator option" where
  "SL_Prev compare l it =
     map_option (\<lambda>n. if n = head_node then None else Some n) (FindLessThan compare l (sl_key l (the it)))"

definition SL_Seek :: "('k \<Rightarrow> 'k \<Rightarrow> int) \<Rightarrow> 'k skiplist \<Rightarrow> 'k \<Rightarrow> sl_iterator option" where
  "SL_Seek compare l target = map_option fst (FindGreaterOrEqual compare l target)"

definition SL_SeekToFirst :: "'k skiplist \<Rightarrow> sl_iterator" where
  "SL_SeekToFirst l = sl_next l head_node 0"

definition SL_SeekToLast :: "'k skiplist \<Rightarrow> sl_iterator option" where
  "SL_SeekToLast l = map_option (\<lambda>n. if n = head_node then None else Some n) (FindLast l)"

section \<open>Linked levels\<close>

fun linked :: "(nat \<Rightarrow> nat option) \<Rightarrow> nat list \<Rightarrow> bool" where
  "linked nx [] \<longleftrightarrow> True"
| "linked nx [x] \<longleftrightarrow> nx x = None"
| "linked nx (x # y # zs) \<longleftrightarrow> nx x = Some y \<and> linked nx (y # zs)"

definition first_of :: "nat list \<Rightarrow> nat option" where
  "first_of xs = (case xs of [] \<Rightarrow> None | x # _ \<Rightarrow> Some x)"

lemma first_of_simps [simp]: "first_of [] = None" "first_of (x # xs) = Some x"
  by (simp_all add: first_of_def)

lemma linked_Cons: "linked nx (x # ys) \<longleftrightarrow> nx x = first_of ys \<and> linked nx ys"
  by (cases ys) simp_all

lemma linked_at: "linked nx (us @ x # vs) \<Longrightarrow> nx x = first_of vs"
  by (induction us) (auto simp: linked_Cons)

lemma linked_cong: "(\<And>x. x \<in> set xs \<Longrightarrow> nx x = nx' x) \<Longrightarrow> linked nx xs = linked nx' xs"
  by (induction xs) (auto simp: linked_Cons)

lemma linked_insert:
  assumes "linked nx (us @ x # vs)" and "n \<notin> set (us @ x # vs)" and "distinct (us @ x # vs)"
    and "f x = Some n" and "f n = nx x" and other: "\<And>a. a \<noteq> x \<Longrightarrow> a \<noteq> n \<Longrightarrow> f a = nx a"
  shows "linked f (us @ x # n # vs)"
  using assms(1-5)
proof (induction us)
  case Nil
  then have "linked f vs = linked nx vs"
    by (intro linked_cong other) auto
  then show ?case using Nil by (auto simp: linked_Cons)
next
  case (Cons u us)
  then have "f u = nx u" by (intro other) auto
  then show ?case using Cons by (cases us) (auto simp: linked_Cons)
qed

definition level_nodes :: "(nat \<Rightarrow> nat) \<Rightarrow> nat \<Rightarrow> nat list \<Rightarrow> nat list" where
  "level_nodes h i P = filter (\<lambda>a. i < h a) P"

lemma level_nodes_append [simp]: "level_nodes h i (A @ B) = level_nodes h i A @ level_nodes h i B"
  by (simp add: level_nodes_def)

lemma level_nodes_Cons: "level_nodes h i (n # B) = (if i < h n then n # level_nodes h i B else level_nodes h i B)"
  by (simp add: level_nodes_def)

lemma level_nodes_subset: "set (level_nodes h i A) \<subseteq> set A"
  by (auto simp: level_nodes_def)

lemma level_nodes_mono: "j \<le> i \<Longrightarrow> set (level_nodes h i A) \<subseteq> set (level_nodes h j A)"
  by (auto simp: level_nodes_def)

text \<open>
  \<open>sl_links l P h\<close>: the nodes \<open>P\<close>, of heights \<open>h\<close>, are linked on every level in this order.
\<close>

definition sl_links :: "'k skiplist \<Rightarrow> nat list \<Rightarrow> (nat \<Rightarrow> nat) \<Rightarrow> bool" where
  "sl_links l P h \<longleftrightarrow>
     distinct (head_node # P) \<and> head_node < sl_alloc l \<and> (\<forall>a \<in> set P. a < sl_alloc l) \<and>
     1 \<le> sl_max_height l \<and> sl_max_height l \<le> kMaxHeight \<and>
     (\<forall>a \<in> set P. 1 \<le> h a \<and> h a \<le> sl_max_height l) \<and>
     (\<forall>i < kMaxHeight. linked (\<lambda>a. sl_next l a i) (head_node # level_nodes h i P))"

definition sl_ok :: "('k \<Rightarrow> 'k \<Rightarrow> int) \<Rightarrow> ('k \<Rightarrow> bool) \<Rightarrow> 'k skiplist \<Rightarrow> nat list \<Rightarrow> bool" where
  "sl_ok compare key_ok l P \<longleftrightarrow>
     (\<exists>h. sl_links l P h) \<and> (\<forall>a \<in> set P. key_ok (sl_key l a)) \<and>
     sorted_wrt (\<lambda>a b. compare (sl_key l a) (sl_key l b) < 0) P"

definition sl_keys :: "'k skiplist \<Rightarrow> nat list \<Rightarrow> 'k list" where
  "sl_keys l P = map (sl_key l) P"

lemma level_nodes_all: "(\<forall>a \<in> set P. 1 \<le> h a) \<Longrightarrow> level_nodes h 0 P = P"
  by (simp add: level_nodes_def filter_id_conv Suc_le_eq)

lemma sl_next_level:
  assumes "sl_links l (A @ B) h" and "i < kMaxHeight" and "head_node # level_nodes h i A = us @ x # vs"
  shows "sl_next l x i = first_of (vs @ level_nodes h i B)"
proof -
  have "linked (\<lambda>a. sl_next l a i) (us @ x # (vs @ level_nodes h i B))"
    using assms unfolding sl_links_def by (metis append_Cons append_assoc level_nodes_append)
  then show ?thesis by (rule linked_at)
qed

lemma walk_in: "head_node # level_nodes h i A = us @ x # v # vs \<Longrightarrow> v \<in> set A"
  using level_nodes_subset [of h i A] by (cases us) auto

lemma descend_split:
  assumes "0 < i"
  shows "\<exists>us vs. head_node # level_nodes h (i - 1) A = us @ last (head_node # level_nodes h i A) # vs"
proof -
  have "last (head_node # level_nodes h i A) \<in> set (head_node # level_nodes h (i - 1) A)"
    using level_nodes_mono [of "i - 1" i h A] last_in_set [of "head_node # level_nodes h i A"] by auto
  then show ?thesis by (rule split_list)
qed

lemma last_walk: "xs = us @ x # vs \<Longrightarrow> last (x # vs) = last xs"
  by simp

text \<open>
  A search goes to the end of the smaller part \<open>A\<close> on each level and then one level down. It is the
  same walk for the three searches.
\<close>

lemma FindGreaterOrEqual_walk:
  assumes "sl_links l (A @ B) h" and "i < kMaxHeight" and "\<forall>a \<in> set A. compare (sl_key l a) key < 0"
  shows "head_node # level_nodes h i A = us @ x # vs \<Longrightarrow>
    FindGreaterOrEqual_loop compare l key x i prev =
    FindGreaterOrEqual_loop compare l key (last (head_node # level_nodes h i A)) i prev"
proof (induction vs arbitrary: us x)
  case (Cons v vs)
  have nx: "sl_next l x i = Some v" using sl_next_level [OF assms(1,2) Cons.prems] by simp
  then have "KeyIsAfterNode compare l key (sl_next l x i)"
    using assms(3) walk_in [OF Cons.prems] by (simp add: KeyIsAfterNode_def)
  then show ?case
    using Cons.IH [of "us @ [x]" v] Cons.prems nx by (subst FindGreaterOrEqual_loop.simps) simp
qed simp

lemma sl_next_end:
  assumes "sl_links l (A @ B) h" and "i < kMaxHeight"
  shows "sl_next l (last (head_node # level_nodes h i A)) i = first_of (level_nodes h i B)"
  using sl_next_level [OF assms, of "butlast (head_node # level_nodes h i A)" _ "[]"]
  by (metis append_Nil append_butlast_last_id list.distinct(1))

lemma FindGreaterOrEqual_loop_spec:
  assumes links: "sl_links l (A @ B) h"
    and A: "\<forall>a \<in> set A. compare (sl_key l a) key < 0" and B: "\<forall>b \<in> set B. \<not> compare (sl_key l b) key < 0"
  shows "i < kMaxHeight \<Longrightarrow> head_node # level_nodes h i A = us @ x # vs \<Longrightarrow>
    \<exists>prev'. FindGreaterOrEqual_loop compare l key x i prev = Some (first_of B, prev') \<and>
      (\<forall>j \<le> i. prev' j = last (head_node # level_nodes h j A)) \<and> (\<forall>j > i. prev' j = prev j)"
proof (induction i arbitrary: us x vs prev)
  case (0 us x vs prev)
  let ?y = "last (head_node # level_nodes h 0 A)"
  have "level_nodes h 0 B = B" using links by (intro level_nodes_all) (auto simp: sl_links_def)
  then have nx: "sl_next l ?y 0 = first_of B" using sl_next_end [OF links 0(1)] by simp
  then have "\<not> KeyIsAfterNode compare l key (sl_next l ?y 0)"
    using B by (cases B) (auto simp: KeyIsAfterNode_def)
  then have "FindGreaterOrEqual_loop compare l key ?y 0 prev = Some (first_of B, prev(0 := ?y))"
    using nx by (subst FindGreaterOrEqual_loop.simps) simp
  then show ?case
    using FindGreaterOrEqual_walk [where compare = compare and key = key, OF links 0(1) A 0(2), of prev] by simp
next
  case (Suc i us x vs prev)
  let ?y = "last (head_node # level_nodes h (Suc i) A)"
  have "\<not> KeyIsAfterNode compare l key (sl_next l ?y (Suc i))"
    using B sl_next_end [OF links Suc.prems(1)] level_nodes_subset [of h "Suc i" B]
    by (cases "level_nodes h (Suc i) B") (auto simp: KeyIsAfterNode_def)
  then have step: "FindGreaterOrEqual_loop compare l key x (Suc i) prev =
      FindGreaterOrEqual_loop compare l key ?y i (prev(Suc i := ?y))"
    using FindGreaterOrEqual_walk [where compare = compare and key = key, OF links Suc.prems(1) A Suc.prems(2), of prev]
    by (subst (asm) (2) FindGreaterOrEqual_loop.simps) simp
  obtain us' vs' where "head_node # level_nodes h i A = us' @ ?y # vs'"
    using descend_split [of "Suc i" h A] by auto
  moreover have "i < kMaxHeight" using Suc.prems(1) by simp
  ultimately obtain prev' where "FindGreaterOrEqual_loop compare l key ?y i (prev(Suc i := ?y)) = Some (first_of B, prev')"
    "\<forall>j \<le> i. prev' j = last (head_node # level_nodes h j A)" "\<forall>j > i. prev' j = (prev(Suc i := ?y)) j"
    using Suc.IH by blast
  then show ?case
    using step by (auto simp: le_Suc_eq)
qed

lemma FindLessThan_walk:
  assumes "sl_links l (A @ B) h" and "i < kMaxHeight" and "\<forall>a \<in> set A. compare (sl_key l a) key < 0"
  shows "head_node # level_nodes h i A = us @ x # vs \<Longrightarrow>
    FindLessThan_loop compare l key x i = FindLessThan_loop compare l key (last (head_node # level_nodes h i A)) i"
proof (induction vs arbitrary: us x)
  case (Cons v vs)
  have nx: "sl_next l x i = Some v" using sl_next_level [OF assms(1,2) Cons.prems] by simp
  moreover have "compare (sl_key l v) key < 0"
    using assms(3) walk_in [OF Cons.prems] by blast
  ultimately show ?case
    using Cons.IH [of "us @ [x]" v] Cons.prems by (subst FindLessThan_loop.simps) simp
qed simp

lemma FindLessThan_loop_spec:
  assumes links: "sl_links l (A @ B) h"
    and A: "\<forall>a \<in> set A. compare (sl_key l a) key < 0" and B: "\<forall>b \<in> set B. \<not> compare (sl_key l b) key < 0"
  shows "i < kMaxHeight \<Longrightarrow> head_node # level_nodes h i A = us @ x # vs \<Longrightarrow>
    FindLessThan_loop compare l key x i = Some (last (head_node # A))"
proof (induction i arbitrary: us x vs)
  case (0 us x vs)
  let ?y = "last (head_node # level_nodes h 0 A)"
  have A0: "level_nodes h 0 A = A" and B0: "level_nodes h 0 B = B"
    using links by (intro level_nodes_all; auto simp: sl_links_def)+
  then have "sl_next l ?y 0 = first_of B" using sl_next_end [OF links 0(1)] by simp
  then have "FindLessThan_loop compare l key ?y 0 = Some ?y"
    using B by (subst FindLessThan_loop.simps) (cases B; auto)
  then show ?case
    using FindLessThan_walk [where compare = compare and key = key, OF links 0(1) A 0(2)] A0 by simp
next
  case (Suc i us x vs)
  let ?y = "last (head_node # level_nodes h (Suc i) A)"
  have "sl_next l ?y (Suc i) = None \<or> 0 \<le> compare (sl_key l (the (sl_next l ?y (Suc i)))) key"
    using B sl_next_end [OF links Suc.prems(1)] level_nodes_subset [of h "Suc i" B]
    by (cases "level_nodes h (Suc i) B") auto
  then have step: "FindLessThan_loop compare l key x (Suc i) = FindLessThan_loop compare l key ?y i"
    using FindLessThan_walk [where compare = compare and key = key, OF links Suc.prems(1) A Suc.prems(2)]
    by (subst (asm) (2) FindLessThan_loop.simps) simp
  obtain us' vs' where "head_node # level_nodes h i A = us' @ ?y # vs'"
    using descend_split [of "Suc i" h A] by auto
  from Suc.IH [OF _ this] step Suc.prems(1) show ?case by simp
qed

lemma FindLast_walk:
  assumes "sl_links l (P @ []) h" and "i < kMaxHeight"
  shows "head_node # level_nodes h i P = us @ x # vs \<Longrightarrow>
    FindLast_loop l x i = FindLast_loop l (last (head_node # level_nodes h i P)) i"
proof (induction vs arbitrary: us x)
  case (Cons v vs)
  have "sl_next l x i = Some v" using sl_next_level [OF assms(1,2) Cons.prems] by simp
  then show ?case
    using Cons.IH [of "us @ [x]" v] Cons.prems by (subst FindLast_loop.simps) simp
qed simp

lemma FindLast_loop_spec:
  assumes links: "sl_links l (P @ []) h"
  shows "i < kMaxHeight \<Longrightarrow> head_node # level_nodes h i P = us @ x # vs \<Longrightarrow>
    FindLast_loop l x i = Some (last (head_node # P))"
proof (induction i arbitrary: us x vs)
  case (0 us x vs)
  have "level_nodes h 0 P = P" using links by (intro level_nodes_all) (auto simp: sl_links_def)
  then show ?case
    using FindLast_walk [OF links 0] sl_next_end [OF links 0(1)]
    by (subst (asm) (2) FindLast_loop.simps) (simp add: level_nodes_def)
next
  case (Suc i us x vs)
  have step: "FindLast_loop l x (Suc i) = FindLast_loop l (last (head_node # level_nodes h (Suc i) P)) i"
    using FindLast_walk [OF links Suc.prems] sl_next_end [OF links Suc.prems(1)]
    by (subst (asm) (2) FindLast_loop.simps) (simp add: level_nodes_def)
  obtain us' vs' where "head_node # level_nodes h i P = us' @ last (head_node # level_nodes h (Suc i) P) # vs'"
    using descend_split [of "Suc i" h P] by auto
  from Suc.IH [OF _ this] step Suc.prems(1) show ?case by simp
qed

section \<open>Insertion\<close>

lemma RandomHeight_loop_bounds:
  "height \<le> fst (RandomHeight_loop room height seed) \<and> fst (RandomHeight_loop room height seed) \<le> height + room"
proof (induction room arbitrary: height seed)
  case (Suc room)
  obtain one seed' where "OneIn seed 4 = (one, seed')" by fastforce
  then show ?case using Suc [of "height + 1" seed'] by simp
qed simp

lemma RandomHeight_bounds:
  assumes "RandomHeight l = (height, l')"
  shows "1 \<le> height" "height \<le> kMaxHeight" "\<exists>seed. l' = l\<lparr>sl_rnd := seed\<rparr>"
proof -
  obtain n seed where n: "RandomHeight_loop (kMaxHeight - 1) 1 (sl_rnd l) = (n, seed)" by fastforce
  then have "height = n" "l' = l\<lparr>sl_rnd := seed\<rparr>"
    using assms by (simp_all add: RandomHeight_def)
  moreover have "1 \<le> n" "n \<le> 1 + (kMaxHeight - 1)"
    using RandomHeight_loop_bounds [of 1 "kMaxHeight - 1" "sl_rnd l"] n by simp_all
  ultimately show "1 \<le> height" "height \<le> kMaxHeight" "\<exists>seed. l' = l\<lparr>sl_rnd := seed\<rparr>"
    by (auto simp: kMaxHeight_def)
qed

lemma link_levels_fields [simp]:
  "sl_key (link_levels n i x prev l) = sl_key l" "sl_alloc (link_levels n i x prev l) = sl_alloc l"
  "sl_max_height (link_levels n i x prev l) = sl_max_height l"
  by (induction n arbitrary: i l) (simp_all add: SetNext_def)

lemma link_levels_next:
  assumes "\<forall>j. prev j \<noteq> x"
  shows "sl_next (link_levels n i x prev l) a j =
    (if i \<le> j \<and> j < i + n then if a = prev j then Some x else if a = x then sl_next l (prev j) j
       else sl_next l a j
     else sl_next l a j)"
  using assms
proof (induction n arbitrary: i l)
  case (Suc n)
  show ?case
  proof (cases "j = i")
    case True
    then show ?thesis unfolding link_levels.simps Suc.IH [OF Suc.prems] using Suc.prems by (simp add: SetNext_def)
  next
    case False
    then have "i + 1 \<le> j \<and> j < i + 1 + n \<longleftrightarrow> i \<le> j \<and> j < i + Suc n" by auto
    then show ?thesis
      unfolding link_levels.simps Suc.IH [OF Suc.prems] using False by (simp add: SetNext_def)
  qed
qed auto

text \<open>Linking a node of height \<open>ht\<close> in between \<open>A\<close> and \<open>B\<close>.\<close>

lemma link_levels_links:
  assumes links: "sl_links l (A @ B) h" and n: "n = sl_alloc l" and ht: "1 \<le> ht" "ht \<le> kMaxHeight"
    and prev: "\<And>j. j < ht \<Longrightarrow> prev j = last (head_node # level_nodes h j A)"
      "\<And>j. ht \<le> j \<Longrightarrow> prev j = head_node \<or> prev j \<in> set A"
    and l': "sl_next l' = sl_next l" "sl_alloc l' = Suc n" "sl_max_height l' = max (sl_max_height l) ht"
  shows "sl_links (link_levels ht 0 n prev l') (A @ n # B) (h(n := ht))"
proof -
  let ?h = "h(n := ht)" and ?l = "link_levels ht 0 n prev l'"
  have fresh: "n \<notin> set (head_node # A @ B)"
    using links n by (auto simp: sl_links_def)
  have levels: "level_nodes ?h j A = level_nodes h j A" "level_nodes ?h j B = level_nodes h j B" for j
    using fresh by (auto simp: level_nodes_def intro!: filter_cong)
  have neq: "\<forall>j. prev j \<noteq> n"
  proof
    fix j
    have "last (head_node # level_nodes h j A) \<in> set (head_node # A)"
      using level_nodes_subset [of h j A] last_in_set [of "head_node # level_nodes h j A"] by auto
    then have "prev j \<in> set (head_node # A)" using prev [of j] by (cases "j < ht") auto
    then show "prev j \<noteq> n" using fresh by auto
  qed
  have "linked (\<lambda>a. sl_next ?l a j) (head_node # level_nodes ?h j (A @ n # B))" if j: "j < kMaxHeight" for j
  proof -
    have old: "linked (\<lambda>a. sl_next l a j) (head_node # level_nodes h j A @ level_nodes h j B)"
      using links j by (simp add: sl_links_def)
    show ?thesis
    proof (cases "j < ht")
      case True
      let ?us = "butlast (head_node # level_nodes h j A)" and ?x = "last (head_node # level_nodes h j A)"
      have split: "?us @ [?x] = head_node # level_nodes h j A" by simp
      have l: "?us @ ?x # level_nodes h j B = head_node # level_nodes h j A @ level_nodes h j B"
        using arg_cong [OF split, of "\<lambda>xs. xs @ level_nodes h j B"] by simp
      have "set (head_node # level_nodes h j A @ level_nodes h j B) \<subseteq> set (head_node # A @ B)"
        using level_nodes_subset [of h j A] level_nodes_subset [of h j B] by auto
      moreover have "distinct (head_node # level_nodes h j A @ level_nodes h j B)"
        using links by (auto simp: sl_links_def level_nodes_def)
      moreover have "sl_next ?l ?x j = Some n" "sl_next ?l n j = sl_next l ?x j"
        "\<And>a. a \<noteq> ?x \<Longrightarrow> a \<noteq> n \<Longrightarrow> sl_next ?l a j = sl_next l a j"
        using True neq [rule_format, of j] unfolding prev(1) [OF True, symmetric]
        by (simp_all add: link_levels_next [OF neq] l'(1))
      ultimately have "linked (\<lambda>a. sl_next ?l a j) (?us @ ?x # n # level_nodes h j B)"
        using old fresh unfolding l [symmetric] by (intro linked_insert [where nx = "\<lambda>a. sl_next l a j"]) auto
      moreover have "?us @ ?x # n # level_nodes h j B = head_node # level_nodes ?h j (A @ n # B)"
        using True arg_cong [OF split, of "\<lambda>xs. xs @ n # level_nodes h j B"]
        by (simp only: level_nodes_append level_nodes_Cons levels) simp
      ultimately show ?thesis by simp
    next
      case False
      have "linked (\<lambda>a. sl_next ?l a j) (head_node # level_nodes h j A @ level_nodes h j B)"
        using old False by (simp add: link_levels_next [OF neq] l'(1))
      moreover have "level_nodes ?h j (A @ n # B) = level_nodes h j A @ level_nodes h j B"
        using False by (simp add: level_nodes_Cons levels)
      ultimately show ?thesis by simp
    qed
  qed
  then show ?thesis
    using links n ht fresh l'(2,3) unfolding sl_links_def by (auto simp: le_max_iff_disj intro: less_SucI)
qed

lemma Insert_links:
  assumes links: "sl_links l (A @ B) h"
    and A: "\<forall>a \<in> set A. compare (sl_key l a) key < 0" and B: "\<forall>b \<in> set B. \<not> compare (sl_key l b) key < 0"
  shows "\<exists>l' h'. Insert compare key l = Some l' \<and> sl_links l' (A @ sl_alloc l # B) h' \<and>
    sl_key l' = (sl_key l)(sl_alloc l := key)"
proof -
  let ?m = "sl_max_height l"
  have m: "?m - 1 < kMaxHeight" "1 \<le> ?m" "?m \<le> kMaxHeight" using links by (auto simp: sl_links_def)
  obtain prev where prev: "FindGreaterOrEqual compare l key = Some (first_of B, prev)"
    "\<forall>j \<le> ?m - 1. prev j = last (head_node # level_nodes h j A)"
    using FindGreaterOrEqual_loop_spec [where compare = compare and key = key, OF links A B m(1), of "[]" head_node
       "level_nodes h (?m - 1) A" "\<lambda>_. head_node"]
    unfolding FindGreaterOrEqual_def by auto
  obtain ht l1 where ht: "RandomHeight l = (ht, l1)" by fastforce
  obtain seed where l1: "l1 = l\<lparr>sl_rnd := seed\<rparr>" using RandomHeight_bounds(3) [OF ht] by blast
  define prev' where "prev' = (\<lambda>i. if ?m \<le> i then head_node else prev i)"
  define l2 where "l2 = l1\<lparr>sl_max_height := max ?m ht, sl_key := (sl_key l)(sl_alloc l := key), sl_alloc := Suc (sl_alloc l)\<rparr>"
  have l2: "sl_next l2 = sl_next l" "sl_alloc l2 = Suc (sl_alloc l)" "sl_max_height l2 = max ?m ht"
    "sl_key l2 = (sl_key l)(sl_alloc l := key)"
    by (simp_all add: l2_def l1)
  have ins: "Insert compare key l = Some (link_levels ht 0 (sl_alloc l) prev' l2)"
    unfolding Insert_def prev(1) option.case prod.case ht Let_def NewNode_def l2_def prev'_def l1
    by (cases "?m < ht") (simp_all add: max_def)
  have height: "\<forall>a \<in> set A. h a \<le> ?m" using links by (simp add: sl_links_def)
  have empty: "level_nodes h j A = []" if "?m \<le> j" for j
    using height that by (force simp: level_nodes_def filter_empty_conv)
  have low: "prev' j = last (head_node # level_nodes h j A)" for j
    using prev(2) m empty [of j] by (cases "?m \<le> j") (simp_all add: prev'_def)
  have "last (head_node # level_nodes h j A) = head_node \<or> last (head_node # level_nodes h j A) \<in> set A" for j
    using subsetD [OF level_nodes_subset last_in_set, of h j A] by auto
  then have "sl_links (link_levels ht 0 (sl_alloc l) prev' l2) (A @ sl_alloc l # B) (h(sl_alloc l := ht))"
    using low RandomHeight_bounds(1,2) [OF ht]
    by (intro link_levels_links [OF links refl]) (simp_all only: l2)
  moreover have "sl_key (link_levels ht 0 (sl_alloc l) prev' l2) = (sl_key l)(sl_alloc l := key)"
    by (simp add: l2(4))
  ultimately show ?thesis using ins by blast
qed

section \<open>Searches from the head\<close>

lemma sl_links_height: "sl_links l P h \<Longrightarrow> sl_max_height l - 1 < kMaxHeight"
  by (auto simp: sl_links_def)

lemma FindGreaterOrEqual_spec:
  assumes "sl_links l (A @ B) h"
    and "\<forall>a \<in> set A. compare (sl_key l a) key < 0" and "\<forall>b \<in> set B. \<not> compare (sl_key l b) key < 0"
  shows "map_option fst (FindGreaterOrEqual compare l key) = Some (first_of B)"
  using FindGreaterOrEqual_loop_spec [where compare = compare and key = key and us = "[]" and x = head_node
      and prev = "\<lambda>_. head_node", OF assms sl_links_height [OF assms(1)]]
  by (auto simp: FindGreaterOrEqual_def)

lemma FindLessThan_spec:
  assumes "sl_links l (A @ B) h"
    and "\<forall>a \<in> set A. compare (sl_key l a) key < 0" and "\<forall>b \<in> set B. \<not> compare (sl_key l b) key < 0"
  shows "FindLessThan compare l key = Some (last (head_node # A))"
  using FindLessThan_loop_spec [where compare = compare and key = key and us = "[]",
      OF assms sl_links_height [OF assms(1)]]
  by (simp add: FindLessThan_def)

lemma FindLast_spec:
  assumes "sl_links l P h"
  shows "FindLast l = Some (last (head_node # P))"
  using FindLast_loop_spec [where us = "[]", of l P h "sl_max_height l - 1"] assms sl_links_height [OF assms]
  by (simp add: FindLast_def)

text \<open>The iterator moves along the list of nodes; a position is \<open>first_of\<close> of what lies ahead.\<close>

lemma level_0_links: "sl_links l P h \<Longrightarrow> linked (\<lambda>a. sl_next l a 0) (head_node # P)"
  using level_nodes_all [of P h] unfolding sl_links_def kMaxHeight_def by force

lemma SL_SeekToFirst_refines: "sl_links l P h \<Longrightarrow> SL_SeekToFirst l = first_of P"
  using level_0_links [of l P h] by (simp add: SL_SeekToFirst_def linked_Cons)

lemma SL_Next_refines: "sl_links l (us @ a # vs) h \<Longrightarrow> SL_Next l (Some a) = first_of vs"
  using linked_at [of _ "head_node # us" a vs] level_0_links [of l "us @ a # vs" h] by (simp add: SL_Next_def)

lemma SL_SeekToLast_refines:
  assumes "sl_links l P h"
  shows "SL_SeekToLast l = Some (first_of (rev P))"
  using assms FindLast_spec [OF assms] last_in_set [of P]
  by (cases P rule: rev_cases) (auto simp: SL_SeekToLast_def sl_links_def)

section \<open>Refinement of a sorted list\<close>

text \<open>Insertion into a list of keys before the first one that is not smaller.\<close>

definition insert_sorted :: "('k \<Rightarrow> 'k \<Rightarrow> int) \<Rightarrow> 'k \<Rightarrow> 'k list \<Rightarrow> 'k list" where
  "insert_sorted compare key ks =
     takeWhile (\<lambda>k. compare k key < 0) ks @ key # dropWhile (\<lambda>k. compare k key < 0) ks"

lemma set_insert_sorted [simp]: "set (insert_sorted compare k ks) = insert k (set ks)"
  using arg_cong [OF takeWhile_dropWhile_id [of "\<lambda>x. compare x k < 0" ks], of set]
  by (auto simp: insert_sorted_def simp del: takeWhile_dropWhile_id)

lemma mset_insert_sorted [simp]: "mset (insert_sorted compare k ks) = add_mset k (mset ks)"
  using arg_cong [OF takeWhile_dropWhile_id [of "\<lambda>x. compare x k < 0" ks], of mset]
  by (simp add: insert_sorted_def del: takeWhile_dropWhile_id)

fun Insert_all :: "('k \<Rightarrow> 'k \<Rightarrow> int) \<Rightarrow> 'k list \<Rightarrow> 'k skiplist \<Rightarrow> 'k skiplist option" where
  "Insert_all compare [] l = Some l"
| "Insert_all compare (k # ks) l = Option.bind (Insert compare k l) (Insert_all compare ks)"

lemma make_SkipList_ok: "sl_ok compare key_ok (make_SkipList any_key) []"
  by (auto simp: sl_ok_def sl_links_def make_SkipList_def kMaxHeight_def head_node_def level_nodes_def)

context three_way
begin

lemma sorted_split:
  assumes "sorted_wrt (\<lambda>a b. compare (f a) (f b) < 0) P" and "\<forall>a \<in> set P. key_ok (f a)" and "key_ok key"
  shows "\<forall>b \<in> set (dropWhile (\<lambda>a. compare (f a) key < 0) P). \<not> compare (f b) key < 0"
  using assms
proof (induction P)
  case (Cons a P)
  show ?case
  proof (cases "compare (f a) key < 0")
    case False
    have "\<not> compare (f b) key < 0" if "b \<in> set P" for b
    proof -
      have "compare (f a) (f b) < 0" "key_ok (f a)" "key_ok (f b)" using Cons.prems that by simp_all
      then show ?thesis using False compare_less_trans [of "f a" "f b" key] Cons.prems(3) by blast
    qed
    then show ?thesis using False by simp
  next
    case True
    have "\<forall>b \<in> set (dropWhile (\<lambda>a. compare (f a) key < 0) P). \<not> compare (f b) key < 0"
      using Cons.prems by (intro Cons.IH) simp_all
    with True show ?thesis by (simp only: dropWhile.simps if_True)
  qed
qed simp

lemma sl_okE:
  assumes "sl_ok compare key_ok l P" and "key_ok key"
  obtains A B h where "P = A @ B" "sl_links l (A @ B) h" "\<forall>a \<in> set A. compare (sl_key l a) key < 0"
    "\<forall>b \<in> set B. \<not> compare (sl_key l b) key < 0"
    "A = takeWhile (\<lambda>a. compare (sl_key l a) key < 0) P" "B = dropWhile (\<lambda>a. compare (sl_key l a) key < 0) P"
proof -
  let ?p = "\<lambda>a. compare (sl_key l a) key < 0"
  from assms obtain h where "sl_links l (takeWhile ?p P @ dropWhile ?p P) h"
    by (auto simp: sl_ok_def)
  moreover have "\<forall>b \<in> set (dropWhile ?p P). \<not> ?p b"
    using assms by (intro sorted_split) (auto simp: sl_ok_def)
  moreover have "\<forall>a \<in> set (takeWhile ?p P). ?p a" by (blast dest: set_takeWhileD)
  ultimately show ?thesis
    by (intro that [of "takeWhile ?p P" "dropWhile ?p P" h] takeWhile_dropWhile_id [symmetric] refl)
qed

lemma Insert_refines:
  assumes ok: "sl_ok compare key_ok l P" and key: "key_ok key" and new: "\<forall>a \<in> set P. compare (sl_key l a) key \<noteq> 0"
  shows "\<exists>l' P'. Insert compare key l = Some l' \<and> sl_ok compare key_ok l' P' \<and>
    sl_keys l' P' = insert_sorted compare key (sl_keys l P)"
proof -
  obtain A B h where AB: "P = A @ B" "sl_links l (A @ B) h" "\<forall>a \<in> set A. compare (sl_key l a) key < 0"
    "\<forall>b \<in> set B. \<not> compare (sl_key l b) key < 0"
    "A = takeWhile (\<lambda>a. compare (sl_key l a) key < 0) P" "B = dropWhile (\<lambda>a. compare (sl_key l a) key < 0) P"
    by (rule sl_okE [OF ok key])
  let ?n = "sl_alloc l"
  obtain l' h' where l': "Insert compare key l = Some l'" "sl_links l' (A @ ?n # B) h'"
    "sl_key l' = (sl_key l)(?n := key)"
    using Insert_links [where compare = compare and key = key, OF AB(2-4)] by blast
  have n: "?n \<notin> set P" using AB(1,2) by (auto simp: sl_links_def)
  have keys: "\<forall>a \<in> set P. sl_key l' a = sl_key l a" using n l'(3) by auto
  have gt: "compare key (sl_key l b) < 0" if "b \<in> set B" for b
    using that AB(1,4) new ok key compare_flip [of key "sl_key l b"]
    by (auto simp: sl_ok_def)
  have "sorted_wrt (\<lambda>a b. compare (sl_key l' a) (sl_key l' b) < 0) P"
    using ok keys by (auto simp: sl_ok_def intro: sorted_wrt_mono_rel [rotated])
  then have "sorted_wrt (\<lambda>a b. compare (sl_key l' a) (sl_key l' b) < 0) (A @ ?n # B)"
    using AB(1,3) gt n by (auto simp: sorted_wrt_append l'(3))
  then have "sl_ok compare key_ok l' (A @ ?n # B)"
    using l'(2) ok key AB(1) keys by (auto simp: sl_ok_def l'(3))
  moreover have "sl_keys l' (A @ ?n # B) = insert_sorted compare key (sl_keys l P)"
    using AB(5,6) n l'(3)
    by (auto simp: sl_keys_def insert_sorted_def takeWhile_map dropWhile_map o_def dest: set_takeWhileD set_dropWhileD)
  ultimately show ?thesis using l'(1) by blast
qed

lemma SL_Seek_refines:
  assumes "sl_ok compare key_ok l P" and "key_ok key"
  shows "SL_Seek compare l key = Some (first_of (dropWhile (\<lambda>a. compare (sl_key l a) key < 0) P))"
proof -
  obtain A B h where "sl_links l (A @ B) h" "\<forall>a \<in> set A. compare (sl_key l a) key < 0"
    "\<forall>b \<in> set B. \<not> compare (sl_key l b) key < 0" "B = dropWhile (\<lambda>a. compare (sl_key l a) key < 0) P"
    by (rule sl_okE [OF assms])
  then show ?thesis
    unfolding SL_Seek_def using FindGreaterOrEqual_spec [where compare = compare and key = key] by blast
qed

lemma SL_Prev_refines:
  assumes "sl_ok compare key_ok l (us @ a # vs)"
  shows "SL_Prev compare l (Some a) = Some (first_of (rev us))"
proof -
  have a: "key_ok (sl_key l a)" and ok: "\<forall>b \<in> set (us @ a # vs). key_ok (sl_key l b)"
    and less: "\<forall>b \<in> set us. compare (sl_key l b) (sl_key l a) < 0" "\<forall>b \<in> set vs. compare (sl_key l a) (sl_key l b) < 0"
    using assms by (auto simp: sl_ok_def sorted_wrt_append)
  obtain h where h: "sl_links l (us @ a # vs) h" using assms by (auto simp: sl_ok_def)
  have "\<not> compare (sl_key l b) (sl_key l a) < 0" if "b \<in> set (a # vs)" for b
  proof (cases "b = a")
    case True
    then show ?thesis using compare_refl [OF a] by simp
  next
    case False
    then show ?thesis using that ok less(2) compare_flip [OF a, of "sl_key l b"] by force
  qed
  then have "FindLessThan compare l (sl_key l a) = Some (last (head_node # us))"
    using less(1) by (intro FindLessThan_spec [OF h]) blast+
  moreover have "head_node \<notin> set us" using h by (simp add: sl_links_def)
  ultimately show ?thesis
    by (cases us rule: rev_cases) (auto simp: SL_Prev_def)
qed

lemma Contains_refines:
  assumes ok: "sl_ok compare key_ok l P" and key: "key_ok key"
  shows "Contains compare l key = Some (\<exists>k \<in> set (sl_keys l P). compare k key = 0)"
proof -
  obtain A B h where AB: "P = A @ B" "sl_links l (A @ B) h" "\<forall>a \<in> set A. compare (sl_key l a) key < 0"
    "\<forall>b \<in> set B. \<not> compare (sl_key l b) key < 0"
    by (rule sl_okE [OF ok key])
  have "map_option fst (FindGreaterOrEqual compare l key) = Some (first_of B)"
    by (rule FindGreaterOrEqual_spec [where compare = compare and key = key, OF AB(2-4)])
  then have "Contains compare l key = Some (case first_of B of None \<Rightarrow> False | Some a \<Rightarrow> compare key (sl_key l a) = 0)"
    by (auto simp: Contains_def)
  moreover have "(case first_of B of None \<Rightarrow> False | Some a \<Rightarrow> compare key (sl_key l a) = 0) \<longleftrightarrow>
    (\<exists>a \<in> set B. compare (sl_key l a) key = 0)"
  proof (cases B)
    case (Cons b bs)
    have b: "key_ok (sl_key l b)" using ok AB(1) Cons by (simp add: sl_ok_def)
    have "compare (sl_key l c) key \<noteq> 0" if "c \<in> set bs" for c
    proof -
      have c: "key_ok (sl_key l c)" "compare (sl_key l b) (sl_key l c) < 0"
        using ok AB(1) Cons that by (simp_all add: sl_ok_def sorted_wrt_append)
      then show ?thesis
        using compare_less_le_trans [OF b c(1) key c(2)] AB(4) Cons by force
    qed
    then show ?thesis using Cons compare_flip_eq [OF key b] by auto
  qed simp
  moreover have "(\<exists>a \<in> set P. compare (sl_key l a) key = 0) \<longleftrightarrow> (\<exists>a \<in> set B. compare (sl_key l a) key = 0)"
    using AB(1,3) by force
  ultimately show ?thesis by (simp add: sl_keys_def)
qed

lemma Insert_all_refines:
  assumes "sl_ok compare key_ok l P" and "\<forall>k \<in> set ks. key_ok k"
    and "sorted_wrt (\<lambda>a b. compare a b \<noteq> 0) (sl_keys l P @ ks)"
  shows "\<exists>l' P'. Insert_all compare ks l = Some l' \<and> sl_ok compare key_ok l' P' \<and>
    sl_keys l' P' = fold (insert_sorted compare) ks (sl_keys l P)"
  using assms
proof (induction ks arbitrary: l P)
  case (Cons k ks)
  have new: "\<forall>a \<in> set P. compare (sl_key l a) k \<noteq> 0" and k: "key_ok k"
    using Cons.prems by (auto simp: sorted_wrt_append sl_keys_def)
  obtain l1 P1 where l1: "Insert compare k l = Some l1" "sl_ok compare key_ok l1 P1"
    "sl_keys l1 P1 = insert_sorted compare k (sl_keys l P)"
    using Insert_refines [OF Cons.prems(1) k new] by blast
  have "sorted_wrt (\<lambda>a b. compare a b \<noteq> 0) (sl_keys l1 P1 @ ks)"
  proof -
    have "sorted_wrt (\<lambda>a b. compare a b \<noteq> 0) (sl_keys l1 P1)"
      using l1(2) by (auto simp: sl_ok_def sl_keys_def sorted_wrt_map elim!: sorted_wrt_mono_rel [rotated])
    moreover have "set (sl_keys l1 P1) = set (sl_keys l P @ [k])" using l1(3) by simp
    ultimately show ?thesis using Cons.prems(3) by (auto simp: sorted_wrt_append)
  qed
  then show ?case using Cons.IH [OF l1(2)] Cons.prems(2) l1(1,3) by simp
qed auto

lemma skiplist_of_keys:
  assumes "\<forall>k \<in> set ks. key_ok k" and "sorted_wrt (\<lambda>a b. compare a b \<noteq> 0) ks"
  shows "\<exists>l P. Insert_all compare ks (make_SkipList any_key) = Some l \<and> sl_ok compare key_ok l P \<and>
    mset (sl_keys l P) = mset ks"
proof -
  have "mset (fold (insert_sorted compare) ks xs) = mset ks + mset xs" for xs
    by (induction ks arbitrary: xs) simp_all
  moreover have "sl_keys (make_SkipList any_key) [] = []" by (simp add: sl_keys_def)
  ultimately show ?thesis
    using Insert_all_refines [OF make_SkipList_ok assms(1), of any_key] assms(2) by fastforce
qed

end

text \<open>C10. A skip list filled with any keys that the comparison tells apart, in any order and whatever
  heights the generator draws, holds exactly these keys in ascending order: its iterator visits
  them forwards with \<^verbatim>\<open>SeekToFirst\<close> and \<^verbatim>\<open>Next\<close>, backwards with \<^verbatim>\<open>SeekToLast\<close> and \<^verbatim>\<open>Prev\<close>,
  \<^verbatim>\<open>Seek\<close> stops at the first key that is not smaller than its target, \<^verbatim>\<open>Contains\<close> is membership, and
  all of these searches return.
\<close>

theorem skiplist_sorts:
  assumes "three_way compare key_ok" and "\<forall>k \<in> set ks. key_ok k" and "sorted_wrt (\<lambda>a b. compare a b \<noteq> 0) ks"
  shows "\<exists>l P. Insert_all compare ks (make_SkipList any_key) = Some l \<and>
    mset (sl_keys l P) = mset ks \<and> sorted_wrt (\<lambda>a b. compare a b < 0) (sl_keys l P) \<and>
    SL_SeekToFirst l = first_of P \<and> SL_SeekToLast l = Some (first_of (rev P)) \<and>
    (\<forall>us a vs. P = us @ a # vs \<longrightarrow>
       SL_Next l (Some a) = first_of vs \<and> SL_Prev compare l (Some a) = Some (first_of (rev us))) \<and>
    (\<forall>key. key_ok key \<longrightarrow>
       SL_Seek compare l key = Some (first_of (dropWhile (\<lambda>a. compare (sl_key l a) key < 0) P)) \<and>
       Contains compare l key = Some (\<exists>k \<in> set ks. compare k key = 0))"
proof -
  obtain l P where l: "Insert_all compare ks (make_SkipList any_key) = Some l" "sl_ok compare key_ok l P"
    "mset (sl_keys l P) = mset ks"
    using three_way.skiplist_of_keys [OF assms] by blast
  obtain h where h: "sl_links l P h" using l(2) by (auto simp: sl_ok_def)
  have "sorted_wrt (\<lambda>a b. compare a b < 0) (sl_keys l P)"
    using l(2) by (simp add: sl_ok_def sl_keys_def sorted_wrt_map)
  moreover have "set ks = set (sl_keys l P)" using l(3) by (metis set_mset_mset)
  moreover have "SL_Next l (Some a) = first_of vs \<and> SL_Prev compare l (Some a) = Some (first_of (rev us))"
    if "P = us @ a # vs" for us a vs
    using that SL_Next_refines [of l us a vs h] three_way.SL_Prev_refines [OF assms(1)] l(2) h by blast
  ultimately show ?thesis
    using l SL_SeekToFirst_refines [OF h] SL_SeekToLast_refines [OF h]
      three_way.SL_Seek_refines [OF assms(1) l(2)] three_way.Contains_refines [OF assms(1) l(2)]
    by (intro exI [of _ l] exI [of _ P]) simp
qed

theorem skiplist_sorts_witness:
  "\<exists>l P. Insert_all (Compare BytewiseComparator) [[3], [], [1, 2]] (make_SkipList []) = Some l \<and>
    mset (sl_keys l P) = {#[3], [], [1, 2]#} \<and> SL_SeekToFirst l = first_of P"
  using skiplist_sorts [OF bytewise.three_way_axioms, of "[[3], [], [1, 2]]" "[]"]
  by (auto simp: Slice_compare_eq)

section \<open>The generator\<close>

lemma mersenne_fold:
  fixes p :: nat
  shows "(p div 2147483648 + p mod 2147483648) mod 2147483647 = p mod 2147483647"
proof -
  have "p = p div 2147483648 * 2147483647 + (p div 2147483648 + p mod 2147483648)"
    using div_mult_mod_eq [of p 2147483648] by linarith
  then show ?thesis by (metis mod_mult_self3)
qed

lemma mersenne_digits:
  fixes s :: nat
  assumes "s < 2147483648"
  shows "s * 16807 div 2147483648 < 16807 \<and> s * 16807 mod 2147483648 < 2147483648"
  using assms by (simp add: less_mult_imp_div_less mult.commute)

lemma mod_once: "x \<noteq> M \<Longrightarrow> x < 2 * M \<Longrightarrow> (if M < x then x - M else x) = x mod (M :: nat)"
  by (cases "M < x") (simp_all add: le_mod_geq)

lemma Random_Next_product:
  assumes "unat s < 2147483648"
  shows "unat (Random_Next s) =
    (let r = unat s * 16807 div 2147483648 + unat s * 16807 mod 2147483648 in if 2147483647 < r then r - 2147483647 else r)"
proof -
  let ?p = "(ucast s :: u64) * 16807"
  have s: "unat (ucast s :: u64) = unat s" using assms by (simp add: unsigned_ucast_eq take_bit_nat_eq_self)
  have p: "unat ?p = unat s * 16807" using assms by (simp add: unat_word_ariths s)
  have hi: "unat (drop_bit 31 ?p) = unat s * 16807 div 2147483648" by (simp add: unat_drop_bit_div p)
  have "?p AND 2147483647 = take_bit 31 ?p" by (simp add: take_bit_eq_mask mask_eq_exp_minus_1)
  then have lo: "unat (?p AND 2147483647) = unat s * 16807 mod 2147483648"
    by (simp add: unsigned_take_bit_eq take_bit_nat_def p)
  let ?r = "unat s * 16807 div 2147483648 + unat s * 16807 mod 2147483648"
  have r: "?r < 2147483648 + 16807"
    using mersenne_digits [OF assms] by linarith
  then have sum: "unat (drop_bit 31 ?p + (?p AND 2147483647)) = ?r"
    by (simp add: unat_word_ariths hi lo)
  then have "unat (ucast (drop_bit 31 ?p + (?p AND 2147483647)) :: u32) = ?r"
    using r by (simp add: unsigned_ucast_eq take_bit_nat_eq_self)
  then show ?thesis
    using r by (auto simp: Random_Next_def Let_def word_less_nat_alt unat_sub word_le_nat_alt)
qed

lemma Random_Next_lehmer:
  assumes "0 < unat s" and "unat s < 2147483647"
  shows "unat (Random_Next s) = unat s * 16807 mod 2147483647 \<and> 0 < unat (Random_Next s) \<and>
    unat (Random_Next s) < 2147483647"
proof -
  let ?p = "unat s * 16807" and ?M = "2147483647 :: nat"
  let ?r = "?p div 2147483648 + ?p mod 2147483648"
  have "coprime ?M 16807" by (simp add: coprime_iff_gcd_eq_1 gcd_non_0_nat)
  then have "\<not> ?M dvd ?p"
    using assms by (auto simp: coprime_dvd_mult_left_iff dest: dvd_imp_le)
  then have pos: "0 < ?p mod ?M" by (simp add: mod_greater_zero_iff_not_dvd)
  have le: "?r < 2 * ?M"
    using mersenne_digits [of "unat s"] assms by linarith
  have m: "?r mod ?M = ?p mod ?M" by (rule mersenne_fold)
  have "?r \<noteq> ?M" using pos m by auto
  then have "(if ?M < ?r then ?r - ?M else ?r) = ?r mod ?M"
    using le by (rule mod_once)
  then show ?thesis
    using pos m Random_Next_product [of s] assms by (simp add: Let_def)
qed

text \<open>C11. The shift and mask arithmetic of \<^verbatim>\<open>Random::Next\<close> is multiplication by 16807 modulo the prime
  2^31 - 1, and a seed that the constructor accepts never leaves the range 1 .. 2^31 - 2, so the generator
  never gets stuck at zero.
\<close>

theorem Random_Next_is_lehmer:
  assumes "0 < unat s" and "unat s < 2147483647"
  shows "unat (Random_Next s) = unat s * 16807 mod 2147483647 \<and> 0 < unat (Random_Next s) \<and>
    unat (Random_Next s) < 2147483647"
  by (rule Random_Next_lehmer [OF assms])

theorem Random_Next_is_lehmer_witness: "unat (Random_Next 1) = 16807"
  using Random_Next_is_lehmer [of 1] by simp

end
