(* ===== verification/Arena.thy ===== *)
theory Arena
  imports Prelude
begin

text \<open>
  The arena allocator of util/arena.h and util/arena.cc. A pointer is a block, by its position in
  \<^verbatim>\<open>blocks_\<close>, and an offset into it; what \<^verbatim>\<open>new char[]\<close> returns is aligned for every
  fundamental type, so the alignment of a pointer is that of its offset. The invariant keeps the
  regions handed out so far apart from each other and from the unused rest of the current block.
\<close>

section \<open>The allocator\<close>

datatype ptr = Null | At nat nat

fun ptr_add :: "ptr \<Rightarrow> nat \<Rightarrow> ptr" where
  "ptr_add Null n = Null"
| "ptr_add (At b i) n = At b (i + n)"

fun ptr_mod :: "ptr \<Rightarrow> nat \<Rightarrow> nat" where
  "ptr_mod Null k = 0"
| "ptr_mod (At b i) k = i mod k"

record arena =
  alloc_ptr :: ptr
  alloc_bytes_remaining :: nat
  blocks :: "nat list"
  memory_usage :: nat

definition kArenaBlockSize :: nat where "kArenaBlockSize = 4096"

definition make_Arena :: arena where
  "make_Arena = \<lparr>alloc_ptr = Null, alloc_bytes_remaining = 0, blocks = [], memory_usage = 0\<rparr>"

definition AllocateNewBlock :: "nat \<Rightarrow> arena \<Rightarrow> ptr \<times> arena" where
  "AllocateNewBlock block_bytes a =
     (At (length (blocks a)) 0,
      a\<lparr>blocks := blocks a @ [block_bytes], memory_usage := memory_usage a + (block_bytes + 8)\<rparr>)"

definition AllocateFallback :: "nat \<Rightarrow> arena \<Rightarrow> ptr \<times> arena" where
  "AllocateFallback n a =
     (if kArenaBlockSize div 4 < n then AllocateNewBlock n a
      else
        let (p, a) = AllocateNewBlock kArenaBlockSize a;
            a = a\<lparr>alloc_ptr := p, alloc_bytes_remaining := kArenaBlockSize\<rparr>
        in (p, a\<lparr>alloc_ptr := ptr_add (alloc_ptr a) n,
                 alloc_bytes_remaining := alloc_bytes_remaining a - n\<rparr>))"

definition Allocate :: "nat \<Rightarrow> arena \<Rightarrow> ptr \<times> arena" where
  "Allocate n a =
     (if n \<le> alloc_bytes_remaining a
      then (alloc_ptr a, a\<lparr>alloc_ptr := ptr_add (alloc_ptr a) n,
                           alloc_bytes_remaining := alloc_bytes_remaining a - n\<rparr>)
      else AllocateFallback n a)"

definition AllocateAligned :: "nat \<Rightarrow> arena \<Rightarrow> ptr \<times> arena" where
  "AllocateAligned n a =
     (let align = 8;
          current_mod = ptr_mod (alloc_ptr a) align;
          slop = (if current_mod = 0 then 0 else align - current_mod);
          needed = n + slop
      in if needed \<le> alloc_bytes_remaining a
         then (ptr_add (alloc_ptr a) slop,
               a\<lparr>alloc_ptr := ptr_add (alloc_ptr a) needed,
                 alloc_bytes_remaining := alloc_bytes_remaining a - needed\<rparr>)
         else AllocateFallback n a)"

definition MemoryUsage :: "arena \<Rightarrow> nat" where
  "MemoryUsage a = memory_usage a"

section \<open>Regions\<close>

type_synonym region = "ptr \<times> nat"

fun in_block :: "arena \<Rightarrow> region \<Rightarrow> bool" where
  "in_block a (Null, n) \<longleftrightarrow> False"
| "in_block a (At b i, n) \<longleftrightarrow> b < length (blocks a) \<and> i + n \<le> blocks a ! b"

fun apart :: "region \<Rightarrow> region \<Rightarrow> bool" where
  "apart (At b i, n) (At c j, m) \<longleftrightarrow> b \<noteq> c \<or> i + n \<le> j \<or> j + m \<le> i"
| "apart r s \<longleftrightarrow> True"

text \<open>The unused rest of the current block is a region like those handed out.\<close>

definition arena_inv :: "arena \<Rightarrow> region list \<Rightarrow> bool" where
  "arena_inv a rs \<longleftrightarrow>
     (\<forall>r \<in> set rs. in_block a r) \<and> sorted_wrt apart rs \<and>
     (\<forall>r \<in> set rs. apart r (alloc_ptr a, alloc_bytes_remaining a)) \<and>
     (if alloc_ptr a = Null then alloc_bytes_remaining a = 0
      else in_block a (alloc_ptr a, alloc_bytes_remaining a)) \<and>
     memory_usage a = sum_list (map (\<lambda>n. n + 8) (blocks a))"

datatype request = Plain nat | Aligned nat

fun request_size :: "request \<Rightarrow> nat" where
  "request_size (Plain n) = n"
| "request_size (Aligned n) = n"

fun serve :: "request \<Rightarrow> arena \<Rightarrow> ptr \<times> arena" where
  "serve (Plain n) a = Allocate n a"
| "serve (Aligned n) a = AllocateAligned n a"

fun serve_all :: "request list \<Rightarrow> arena \<Rightarrow> region list \<times> arena" where
  "serve_all [] a = ([], a)"
| "serve_all (q # qs) a =
     (let (p, a) = serve q a; (rs, a) = serve_all qs a in ((p, request_size q) # rs, a))"

lemma in_block_grow: "in_block a r \<Longrightarrow> blocks a' = blocks a @ [n] \<Longrightarrow> in_block a' r"
  by (cases r; cases "fst r") (auto simp: nth_append)

lemma apart_new_block: "in_block a r \<Longrightarrow> apart r (At (length (blocks a)) i, n)"
  by (cases r; cases "fst r") auto

lemma apart_part: "apart r (At b i, n) \<Longrightarrow> j + m \<le> n \<Longrightarrow> apart r (At b (i + j), m)"
  by (cases r; cases "fst r") auto

lemma carve_inv:
  assumes inv: "arena_inv a rs" and "0 < n" and le: "j + n \<le> alloc_bytes_remaining a"
  shows "arena_inv (a\<lparr>alloc_ptr := ptr_add (alloc_ptr a) (j + n),
      alloc_bytes_remaining := alloc_bytes_remaining a - (j + n)\<rparr>) (rs @ [(ptr_add (alloc_ptr a) j, n)])"
    and "\<exists>b i. alloc_ptr a = At b i"
proof -
  obtain b i where p: "alloc_ptr a = At b i"
    using inv assms(2,3) by (cases "alloc_ptr a") (auto simp: arena_inv_def)
  then show "\<exists>b i. alloc_ptr a = At b i" by blast
  have blk: "in_block a (At b i, alloc_bytes_remaining a)"
    and rs: "\<forall>r \<in> set rs. apart r (At b i, alloc_bytes_remaining a)"
    using inv p by (auto simp: arena_inv_def)
  have "\<forall>r \<in> set rs. apart r (At b (i + j), n) \<and> apart r (At b (i + (j + n)), alloc_bytes_remaining a - (j + n))"
    using rs le by (auto intro!: apart_part)
  moreover have "in_block (a\<lparr>alloc_ptr := q, alloc_bytes_remaining := m\<rparr>) r = in_block a r" for q m r
    by (cases r; cases "fst r") simp_all
  ultimately show "arena_inv (a\<lparr>alloc_ptr := ptr_add (alloc_ptr a) (j + n),
      alloc_bytes_remaining := alloc_bytes_remaining a - (j + n)\<rparr>) (rs @ [(ptr_add (alloc_ptr a) j, n)])"
    using inv p blk le by (auto simp: arena_inv_def sorted_wrt_append)
qed

lemma in_block_blocks: "blocks a' = blocks a \<Longrightarrow> in_block a' r = in_block a r"
  by (cases r; cases "fst r") simp_all

lemma fallback_inv:
  assumes inv: "arena_inv a rs" and "AllocateFallback n a = (p, a')"
  shows "arena_inv a' (rs @ [(p, n)]) \<and> ptr_mod p 8 = 0"
proof (cases "kArenaBlockSize div 4 < n")
  case True
  then have p: "p = At (length (blocks a)) 0" and a': "a' = a\<lparr>blocks := blocks a @ [n], memory_usage := memory_usage a + (n + 8)\<rparr>"
    using assms(2) by (auto simp: AllocateFallback_def AllocateNewBlock_def)
  have grow: "in_block a r \<Longrightarrow> in_block a' r" for r using in_block_grow [of a r a' n] by (simp add: a')
  have "apart (p, n) (alloc_ptr a, alloc_bytes_remaining a)"
    using inv by (cases "alloc_ptr a") (auto simp: arena_inv_def p)
  moreover have "in_block a' (p, n)" by (simp add: p a' nth_append)
  ultimately show ?thesis
    using inv grow apart_new_block [of a] by (auto simp: arena_inv_def p a' sorted_wrt_append)
next
  case False
  then have p: "p = At (length (blocks a)) 0"
    and a': "a' = a\<lparr>blocks := blocks a @ [kArenaBlockSize], memory_usage := memory_usage a + (kArenaBlockSize + 8),
      alloc_ptr := At (length (blocks a)) n, alloc_bytes_remaining := kArenaBlockSize - n\<rparr>" and n: "n \<le> kArenaBlockSize"
    using assms(2) by (auto simp: AllocateFallback_def AllocateNewBlock_def Let_def)
  have grow: "in_block a r \<Longrightarrow> in_block a' r" for r using in_block_grow [of a r a'] by (simp add: a')
  have "in_block a' (p, n)" "in_block a' (At (length (blocks a)) n, kArenaBlockSize - n)"
    using n by (simp_all add: p a' nth_append)
  then show ?thesis
    using inv grow apart_new_block [of a] by (auto simp: arena_inv_def p a' sorted_wrt_append)
qed

lemma serve_inv:
  assumes inv: "arena_inv a rs" and pos: "0 < request_size q" and "serve q a = (p, a')"
  shows "arena_inv a' (rs @ [(p, request_size q)])" and "\<exists>n. q = Aligned n \<Longrightarrow> ptr_mod p 8 = 0"
proof -
  let ?mod = "ptr_mod (alloc_ptr a) 8"
  let ?slop = "if ?mod = 0 then 0 else 8 - ?mod"
  have aligned: "ptr_mod (ptr_add (alloc_ptr a) ?slop) 8 = 0"
  proof (cases "alloc_ptr a")
    case (At b i)
    have "(i + (8 - i mod 8)) mod 8 = 0" by presburger
    then show ?thesis by (simp add: At)
  qed simp
  have "arena_inv a' (rs @ [(p, request_size q)]) \<and> ((\<exists>n. q = Aligned n) \<longrightarrow> ptr_mod p 8 = 0)"
  proof (cases q)
    case (Plain n)
    then show ?thesis
      using carve_inv [OF inv, of n 0] fallback_inv [OF inv, of n p a'] assms(2,3)
      by (cases "n \<le> alloc_bytes_remaining a") (auto simp: Allocate_def)
  next
    case (Aligned n)
    then show ?thesis
      using carve_inv [OF inv, of n ?slop] fallback_inv [OF inv, of n p a'] assms(2,3) aligned
      by (cases "n + ?slop \<le> alloc_bytes_remaining a") (auto simp: AllocateAligned_def Let_def add.commute)
  qed
  then show "arena_inv a' (rs @ [(p, request_size q)])" and "\<exists>n. q = Aligned n \<Longrightarrow> ptr_mod p 8 = 0" by blast+
qed

lemma serve_all_inv:
  assumes "arena_inv a rs" and "\<forall>q \<in> set qs. 0 < request_size q" and "serve_all qs a = (rs', a')"
  shows "arena_inv a' (rs @ rs') \<and> length rs' = length qs \<and>
    (\<forall>i < length qs. snd (rs' ! i) = request_size (qs ! i) \<and> ((\<exists>n. qs ! i = Aligned n) \<longrightarrow> ptr_mod (fst (rs' ! i)) 8 = 0))"
  using assms
proof (induction qs arbitrary: a rs rs')
  case (Cons q qs)
  obtain p a1 where 1: "serve q a = (p, a1)" by fastforce
  obtain rs1 a2 where 2: "serve_all qs a1 = (rs1, a2)" by fastforce
  have rs': "rs' = (p, request_size q) # rs1" "a' = a2" using Cons.prems(3) 1 2 by simp_all
  show ?case
    using Cons.IH [OF serve_inv(1) [OF Cons.prems(1) _ 1], of rs1] serve_inv(2) [OF Cons.prems(1) _ 1] Cons.prems(2) 2 rs'
    by (auto simp: nth_Cons split: nat.splits)
qed simp



end
