(* ===== verification/Memtable.thy ===== *)
theory Memtable
  imports Write_Batch Skiplist Arena
begin

text \<open>
  Memtables (db/memtable.h, db/memtable.cc) and the part of db/write_batch.cc that applies a batch to
  one. An entry is the byte string that \<^verbatim>\<open>Add\<close> writes into the arena; the skip list orders the entries
  by the internal keys at their front. The memory accounting is that of the arena, which also holds
  the nodes of the skip list. The relation \<^verbatim>\<open>mem_rep\<close> says which history of writes a memtable stands
  for; inserting extends the history and \<^verbatim>\<open>Get\<close> answers as the abstract store does.
\<close>

section \<open>Entries\<close>

text \<open>The slice at an address and the bytes after it. The code assumes the length to be well formed;
  where it is not, \<^verbatim>\<open>GetVarint32Ptr\<close> returns a null pointer and the slice is meaningless.\<close>

definition MemTable_GetLengthPrefixedSlice :: "bytes \<Rightarrow> bytes \<times> bytes" where
  "MemTable_GetLengthPrefixedSlice data =
     (case GetVarint32Ptr (take 5 data) of
        None \<Rightarrow> ([], [])
      | Some (len, rest) \<Rightarrow>
          let p = drop (length (take 5 data) - length rest) data
          in (take (unat len) p, drop (unat len) p))"

definition MemKeyComparator :: "comparator \<Rightarrow> bytes \<Rightarrow> bytes \<Rightarrow> int" where
  "MemKeyComparator user_comparator aptr bptr =
     (let a = fst (MemTable_GetLengthPrefixedSlice aptr); b = fst (MemTable_GetLengthPrefixedSlice bptr)
      in IKC_Compare user_comparator a b)"

definition EncodeKey :: "bytes \<Rightarrow> bytes" where
  "EncodeKey target = PutVarint32 [] (size32 target) @ target"

section \<open>The table\<close>

record MemTable =
  mt_refs :: int
  mt_table :: "bytes skiplist"
  mt_deletions :: RangeDeletionList
  mt_arena :: arena

definition node_bytes :: "nat \<Rightarrow> nat" where
  "node_bytes height = 16 + 8 * (height - 1)"

definition make_MemTable :: MemTable where
  "make_MemTable =
     \<lparr>mt_refs = 0, mt_table = make_SkipList [], mt_deletions = [],
      mt_arena = snd (AllocateAligned (node_bytes kMaxHeight) make_Arena)\<rparr>"

definition MemTable_Ref :: "MemTable \<Rightarrow> MemTable" where
  "MemTable_Ref m = m\<lparr>mt_refs := mt_refs m + 1\<rparr>"

text \<open>\<open>None\<close> is the table deleting itself.\<close>

definition MemTable_Unref :: "MemTable \<Rightarrow> MemTable option" where
  "MemTable_Unref m = (if mt_refs m - 1 \<le> 0 then None else Some (m\<lparr>mt_refs := mt_refs m - 1\<rparr>))"

definition ApproximateMemoryUsage :: "MemTable \<Rightarrow> nat" where
  "ApproximateMemoryUsage m = MemoryUsage (mt_arena m)"

definition mem_entry :: "u64 \<Rightarrow> ValueType \<Rightarrow> bytes \<Rightarrow> bytes \<Rightarrow> bytes" where
  "mem_entry s type key value =
     EncodeVarint32 (word_of_nat (length key + 8)) @ key @
     EncodeFixed64 (push_bit 8 s OR word_of_nat (ValueType_code type)) @
     EncodeVarint32 (word_of_nat (length value)) @ value"

definition MemTable_Add ::
  "comparator \<Rightarrow> u64 \<Rightarrow> ValueType \<Rightarrow> bytes \<Rightarrow> bytes \<Rightarrow> MemTable \<Rightarrow> MemTable option" where
  "MemTable_Add cmp s type key value m =
     (let internal_key_size = length key + 8;
          encoded_len = VarintLength (word_of_nat internal_key_size) + internal_key_size +
            VarintLength (word_of_nat (length value)) + length value;
          arena = snd (Allocate encoded_len (mt_arena m));
          buf = mem_entry s type key value;
          arena = snd (AllocateAligned (node_bytes (fst (RandomHeight (mt_table m)))) arena)
      in map_option
           (\<lambda>table. m\<lparr>mt_arena := arena, mt_table := table,
              mt_deletions := (if type = kTypeRangeDeletion then RDL_Add (mt_deletions m) key value s
                               else mt_deletions m)\<rparr>)
           (Insert (MemKeyComparator cmp) buf (mt_table m)))"

text \<open>
  The three outcomes of \<^verbatim>\<open>Get\<close> are those of a lookup: true with a value, true with \<^verbatim>\<open>NotFound\<close>, and
  false. A tag outside the enumeration leaves the switch without moving, so the loop does not end.
\<close>

definition MemTable_Get_rest :: "MemTable \<Rightarrow> bytes \<Rightarrow> u64 \<Rightarrow> lookup_result" where
  "MemTable_Get_rest m ukey read_seq =
     (if RDL_IsDeleted (mt_deletions m) ukey 0 read_seq then Deleted else Absent)"

partial_function (option) MemTable_Get_loop ::
  "comparator \<Rightarrow> MemTable \<Rightarrow> bytes \<Rightarrow> u64 \<Rightarrow> sl_iterator \<Rightarrow> lookup_result option" where
  "MemTable_Get_loop cmp m ukey read_seq iter =
     (if SL_Valid iter then
        let entry = SL_key (mt_table m) iter;
            ikey = fst (MemTable_GetLengthPrefixedSlice entry);
            rest = snd (MemTable_GetLengthPrefixedSlice entry)
        in if Compare cmp (ExtractUserKey ikey) ukey = 0 then
             let tag = ExtractTag ikey;
                 type = ValueType_of (ucast (tag AND 0xff));
                 found_seq = drop_bit 8 tag
             in if RDL_IsDeleted (mt_deletions m) ukey found_seq read_seq then Some Deleted
                else if type = Some kTypeValue then Some (Found (fst (MemTable_GetLengthPrefixedSlice rest)))
                else if type = Some kTypeDeletion then Some Deleted
                else if type = Some kTypeRangeDeletion
                     then MemTable_Get_loop cmp m ukey read_seq (SL_Next (mt_table m) iter)
                else MemTable_Get_loop cmp m ukey read_seq iter
           else Some (MemTable_Get_rest m ukey read_seq)
      else Some (MemTable_Get_rest m ukey read_seq))"

definition MemTable_Get :: "comparator \<Rightarrow> MemTable \<Rightarrow> LookupKey \<Rightarrow> lookup_result option" where
  "MemTable_Get cmp m key =
     (case SL_Seek (MemKeyComparator cmp) (mt_table m) (memtable_key key) of
        None \<Rightarrow> None
      | Some iter \<Rightarrow>
          let read_seq = drop_bit 8 (ExtractTag (lookup_internal_key key))
          in MemTable_Get_loop cmp m (lookup_user_key key) read_seq iter)"

section \<open>Iterators\<close>

definition MTI_Seek :: "comparator \<Rightarrow> MemTable \<Rightarrow> bytes \<Rightarrow> sl_iterator option" where
  "MTI_Seek cmp m k = SL_Seek (MemKeyComparator cmp) (mt_table m) (EncodeKey k)"

definition MTI_SeekToFirst :: "MemTable \<Rightarrow> sl_iterator" where
  "MTI_SeekToFirst m = SL_SeekToFirst (mt_table m)"

definition MTI_SeekToLast :: "MemTable \<Rightarrow> sl_iterator option" where
  "MTI_SeekToLast m = SL_SeekToLast (mt_table m)"

definition MTI_Next :: "MemTable \<Rightarrow> sl_iterator \<Rightarrow> sl_iterator" where
  "MTI_Next m it = SL_Next (mt_table m) it"

definition MTI_Prev :: "comparator \<Rightarrow> MemTable \<Rightarrow> sl_iterator \<Rightarrow> sl_iterator option" where
  "MTI_Prev cmp m it = SL_Prev (MemKeyComparator cmp) (mt_table m) it"

definition MTI_key :: "MemTable \<Rightarrow> sl_iterator \<Rightarrow> bytes" where
  "MTI_key m it = fst (MemTable_GetLengthPrefixedSlice (SL_key (mt_table m) it))"

definition MTI_value :: "MemTable \<Rightarrow> sl_iterator \<Rightarrow> bytes" where
  "MTI_value m it =
     fst (MemTable_GetLengthPrefixedSlice (snd (MemTable_GetLengthPrefixedSlice (SL_key (mt_table m) it))))"

section \<open>Applying a batch\<close>

text \<open>The state of \<^verbatim>\<open>MemTableInserter\<close>; the table is \<open>None\<close> once an insertion has not returned.\<close>

type_synonym inserter = "u64 \<times> MemTable option"

definition inserter_add :: "comparator \<Rightarrow> ValueType \<Rightarrow> bytes \<Rightarrow> bytes \<Rightarrow> inserter \<Rightarrow> inserter" where
  "inserter_add cmp type key value = (\<lambda>(sequence, mem).
     (sequence + 1, Option.bind mem (MemTable_Add cmp sequence type key value)))"

definition MemTableInserter :: "comparator \<Rightarrow> inserter Handler" where
  "MemTableInserter cmp =
     \<lparr>h_Put = \<lambda>st key value. inserter_add cmp kTypeValue key value st,
      h_Delete = \<lambda>st key. inserter_add cmp kTypeDeletion key [] st,
      h_DeleteRange = \<lambda>st start end. inserter_add cmp kTypeRangeDeletion start end st\<rparr>"

definition InsertInto :: "comparator \<Rightarrow> WriteBatch \<Rightarrow> MemTable \<Rightarrow> status \<times> MemTable option" where
  "InsertInto cmp b memtable =
     (let (s, (sequence, mem)) = Iterate (MemTableInserter cmp) b (Sequence b, Some memtable) in (s, mem))"

section \<open>Reading entries back\<close>

lemma MemTable_GetLengthPrefixedSlice_Encode:
  assumes "length ik < 2 ^ 32"
  shows "MemTable_GetLengthPrefixedSlice (EncodeVarint32 (word_of_nat (length ik)) @ ik @ rest) = (ik, rest)"
proof -
  let ?e = "EncodeVarint32 (word_of_nat (length ik))"
  have "take 5 (?e @ ik @ rest) = ?e @ take (5 - length ?e) (ik @ rest)"
    using length_EncodeVarint32 [of "word_of_nat (length ik)"] by simp
  then have "GetVarint32Ptr (take 5 (?e @ ik @ rest)) = Some (word_of_nat (length ik), take (5 - length ?e) (ik @ rest))"
    using GetVarint32_EncodeVarint32 by (simp add: GetVarint32_def)
  moreover have "length (take 5 (?e @ ik @ rest)) - length (take (5 - length ?e) (ik @ rest)) = length ?e"
    using length_EncodeVarint32 [of "word_of_nat (length ik)"] by simp
  ultimately show ?thesis
    using assms by (simp add: MemTable_GetLengthPrefixedSlice_def unat_of_nat_small Let_def)
qed

fun op_type :: "write_op \<Rightarrow> ValueType" where
  "op_type (Put k v) = kTypeValue"
| "op_type (Delete k) = kTypeDeletion"
| "op_type (DeleteRange a b) = kTypeRangeDeletion"

fun op_key :: "write_op \<Rightarrow> bytes" where
  "op_key (Put k v) = k"
| "op_key (Delete k) = k"
| "op_key (DeleteRange a b) = a"

fun op_value :: "write_op \<Rightarrow> bytes" where
  "op_value (Put k v) = v"
| "op_value (Delete k) = []"
| "op_value (DeleteRange a b) = b"

text \<open>What a memtable can hold: numbers that fit in 56 bits and slices with a 32-bit length.\<close>

definition update_fits :: "u64 \<times> write_op \<Rightarrow> bool" where
  "update_fits = (\<lambda>(s, p). 0 < s \<and> s \<le> kMaxSequenceNumber \<and>
     length (op_key p) + 8 < 2 ^ 32 \<and> length (op_value p) < 2 ^ 32)"

definition update_key :: "u64 \<times> write_op \<Rightarrow> bytes" where
  "update_key = (\<lambda>(s, p). InternalKey (op_key p) s (op_type p))"

definition update_entry :: "u64 \<times> write_op \<Rightarrow> bytes" where
  "update_entry = (\<lambda>(s, p). mem_entry s (op_type p) (op_key p) (op_value p))"

lemma update_entry_slices:
  assumes "update_fits u"
  shows "fst (MemTable_GetLengthPrefixedSlice (update_entry u)) = update_key u"
    and "fst (MemTable_GetLengthPrefixedSlice (snd (MemTable_GetLengthPrefixedSlice (update_entry u)))) = op_value (snd u)"
proof -
  obtain s p where u: "u = (s, p)" by fastforce
  have "update_entry u = EncodeVarint32 (word_of_nat (length (update_key u))) @ update_key u @
      EncodeVarint32 (word_of_nat (length (op_value p))) @ op_value p @ []"
    by (simp add: u update_entry_def update_key_def mem_entry_def InternalKey_eq PackSequenceAndType_def)
  moreover have "length (update_key u) < 2 ^ 32" "length (op_value p) < 2 ^ 32"
    using assms by (simp_all add: u update_fits_def update_key_def InternalKey_eq)
  ultimately show "fst (MemTable_GetLengthPrefixedSlice (update_entry u)) = update_key u"
    "fst (MemTable_GetLengthPrefixedSlice (snd (MemTable_GetLengthPrefixedSlice (update_entry u)))) = op_value (snd u)"
    by (simp_all only: MemTable_GetLengthPrefixedSlice_Encode fst_conv snd_conv u)
qed

lemma update_key_views:
  assumes "update_fits (s, p)"
  shows "ExtractUserKey (update_key (s, p)) = op_key p"
    and "drop_bit 8 (ExtractTag (update_key (s, p))) = s"
    and "ValueType_of (ucast (ExtractTag (update_key (s, p)) AND 0xff)) = Some (op_type p)"
  using assms
  by (simp_all add: update_key_def InternalKey_eq update_fits_def drop_bit_PackSequenceAndType
      type_PackSequenceAndType)

lemma update_entry_inj:
  assumes "update_fits u" and "update_fits w" and "update_entry u = update_entry w"
  shows "fst u = fst w"
  using assms update_entry_slices(1) [of u] update_entry_slices(1) [of w] update_key_views(2) [of "fst u" "snd u"]
    update_key_views(2) [of "fst w" "snd w"] by simp

section \<open>The order of the entries\<close>

definition mem_key_ok :: "bytes \<Rightarrow> bool" where
  "mem_key_ok e \<longleftrightarrow> internal_key_ok (\<lambda>_. True) (fst (MemTable_GetLengthPrefixedSlice e))"

lemmas internal_flip = internal.compare_flip [unfolded InternalKeyComparator_simps]
  and internal_trans = internal.compare_trans [unfolded InternalKeyComparator_simps]

interpretation mem_order: three_way "MemKeyComparator BytewiseComparator" mem_key_ok
  unfolding MemKeyComparator_def mem_key_ok_def Let_def
  by unfold_locales (erule (1) internal_flip, erule (4) internal_trans)

lemma mem_key_ok_update: "update_fits u \<Longrightarrow> mem_key_ok (update_entry u)"
  by (cases u) (simp add: mem_key_ok_def update_entry_slices internal_key_ok_def update_key_def InternalKey_eq)

lemma op_type_le_Seek: "op_type p \<le> kValueTypeForSeek"
  by (cases p) (simp_all add: kValueTypeForSeek_def less_eq_ValueType_def)

lemma update_key_less:
  assumes "update_fits (s, p)" and "update_fits (s', q)"
  shows "IKC_Compare BytewiseComparator (update_key (s, p)) (update_key (s', q)) < 0 \<longleftrightarrow>
    op_key p < op_key q \<or> op_key p = op_key q \<and> (s' < s \<or> s' = s \<and> op_type q < op_type p)"
  using assms
  by (auto simp: IKC_Compare_less update_key_def InternalKey_eq update_fits_def PackSequenceAndType_less_iff)

lemma update_key_before_lookup:
  assumes "update_fits (s, p)" and "snap \<le> kMaxSequenceNumber"
  shows "IKC_Compare BytewiseComparator (update_key (s, p)) (InternalKey key snap kValueTypeForSeek) < 0 \<longleftrightarrow>
    op_key p < key \<or> op_key p = key \<and> snap < s"
  using assms op_type_le_Seek [of p]
  by (auto simp: IKC_Compare_less update_key_def InternalKey_eq update_fits_def PackSequenceAndType_less_iff)

section \<open>Lookups as a scan\<close>

fun mem_scan :: "RangeDeletionList \<Rightarrow> bytes \<Rightarrow> u64 \<Rightarrow> history \<Rightarrow> lookup_result" where
  "mem_scan dels key snap [] = (if RDL_IsDeleted dels key 0 snap then Deleted else Absent)"
| "mem_scan dels key snap ((s, p) # hs) =
     (if op_key p = key then
        if RDL_IsDeleted dels key s snap then Deleted
        else case p of DeleteRange a b \<Rightarrow> mem_scan dels key snap hs | _ \<Rightarrow> result_of p
      else if RDL_IsDeleted dels key 0 snap then Deleted else Absent)"

lemma MemTable_Get_loop_scan:
  assumes "sl_links (mt_table m) (us @ vs) h" and "map (sl_key (mt_table m)) vs = map update_entry hs"
    and "\<forall>u \<in> set hs. update_fits u"
  shows "MemTable_Get_loop BytewiseComparator m key snap (first_of vs) = Some (mem_scan (mt_deletions m) key snap hs)"
  using assms
proof (induction hs arbitrary: us vs)
  case Nil
  then show ?case by (subst MemTable_Get_loop.simps) (simp add: SL_Valid_def MemTable_Get_rest_def)
next
  case (Cons u hs)
  obtain a vs' where vs: "vs = a # vs'" and a: "sl_key (mt_table m) a = update_entry u" "map (sl_key (mt_table m)) vs' = map update_entry hs"
    using Cons.prems(2) by auto
  obtain s p where u: "u = (s, p)" by fastforce
  have fits: "update_fits (s, p)" using Cons.prems(3) u by simp
  have next': "SL_Next (mt_table m) (Some a) = first_of vs'"
    using SL_Next_refines [of "mt_table m" us a vs' h] Cons.prems(1) vs by simp
  have IH: "MemTable_Get_loop BytewiseComparator m key snap (first_of vs') = Some (mem_scan (mt_deletions m) key snap hs)"
    using Cons.IH [of "us @ [a]" vs'] Cons.prems(1,3) vs a(2) by simp
  note views = update_entry_slices [OF fits] update_key_views [OF fits]
  show ?case
    unfolding vs first_of_simps u
    by (subst MemTable_Get_loop.simps, simp add: SL_Valid_def SL_key_def a(1) u views next' IH MemTable_Get_rest_def Let_def)
      (cases p; simp)
qed

lemma affects_point: "op_type q \<noteq> kTypeRangeDeletion \<Longrightarrow> affects key q \<longleftrightarrow> op_key q = key"
  by (cases q) auto

lemma op_type_range: "op_type q = kTypeRangeDeletion \<longleftrightarrow> (\<exists>a b. q = DeleteRange a b)"
  by (cases q) auto

lemma spec_get_range:
  assumes "distinct (map fst h)" and r: "(g, DeleteRange a b) \<in> set h" "a \<le> key" "key < b" "g \<le> snap"
    and "\<And>s q. (s, q) \<in> set h \<Longrightarrow> op_type q \<noteq> kTypeRangeDeletion \<Longrightarrow> op_key q = key \<Longrightarrow> s \<le> snap \<Longrightarrow> s < g"
  shows "spec_get h key snap = Deleted"
proof -
  have "(g, DeleteRange a b) \<in> set (visible h key snap)" using r by simp
  then have "visible h key snap \<noteq> []" by (metis empty_iff list.set(1))
  then obtain s q where sq: "latest (visible h key snap) = Some (s, q)"
    by (cases "latest (visible h key snap)") auto
  then have "g \<le> s" "(s, q) \<in> set h" "s \<le> snap" "affects key q"
    using latest_max [OF sq, of g "DeleteRange a b"] latest_in [OF sq] r by auto
  then have "op_type q = kTypeRangeDeletion"
    using assms(6) [of s q] affects_point [of q key] by (metis leD)
  then show ?thesis using sq by (auto simp: spec_get_def op_type_range)
qed

text \<open>The end of a scan: no update of the key itself is visible.\<close>

lemma spec_get_only_ranges:
  assumes "distinct (map fst h)" and pos: "\<forall>(s, p) \<in> set h. 0 < s"
    and "\<And>s q. (s, q) \<in> set h \<Longrightarrow> op_key q = key \<Longrightarrow> s \<le> snap \<Longrightarrow> op_type q = kTypeRangeDeletion"
  shows "spec_get h key snap =
    (if \<exists>g a b. (g, DeleteRange a b) \<in> set h \<and> a \<le> key \<and> key < b \<and> 0 < g \<and> g \<le> snap then Deleted else Absent)"
proof (cases "\<exists>g a b. (g, DeleteRange a b) \<in> set h \<and> a \<le> key \<and> key < b \<and> 0 < g \<and> g \<le> snap")
  case True
  then show ?thesis using spec_get_range [OF assms(1)] assms(3) by (metis (full_types))
next
  case False
  have "\<not> affects key q" if "(s, q) \<in> set h" "s \<le> snap" for s q
  proof
    assume aff: "affects key q"
    then have "op_type q = kTypeRangeDeletion" using that assms(3) affects_point [of q key] by blast
    then show False using False aff that pos by (auto simp: op_type_range)
  qed
  then show ?thesis using False by (auto simp: spec_get_Absent)
qed

lemma mem_scan_spec:
  assumes dist: "distinct (map fst h)" and pos: "\<forall>(s, p) \<in> set h. 0 < s"
    and dels: "\<And>f. RDL_IsDeleted dels key f snap \<longleftrightarrow>
      (\<exists>g a b. (g, DeleteRange a b) \<in> set h \<and> a \<le> key \<and> key < b \<and> f < g \<and> g \<le> snap)"
    and "set hs \<subseteq> set h" and "\<forall>(s, p) \<in> set hs. key \<le> op_key p \<and> (op_key p = key \<longrightarrow> s \<le> snap)"
    and "sorted_wrt (\<lambda>(s, p) (s', q). op_key p < op_key q \<or> op_key p = op_key q \<and> s' \<le> s) hs"
    and "\<forall>(s, p) \<in> set h - set hs. op_key p = key \<and> s \<le> snap \<longrightarrow> op_type p = kTypeRangeDeletion"
  shows "mem_scan dels key snap hs = spec_get h key snap"
  using assms(4-7)
proof (induction hs)
  case Nil
  have "op_type q = kTypeRangeDeletion" if "(s, q) \<in> set h" "op_key q = key" "s \<le> snap" for s q
    using Nil.prems(4) that by auto
  from spec_get_only_ranges [OF dist pos this] show ?case by (simp add: dels)
next
  case (Cons u hs)
  obtain s p where u: "u = (s, p)" by fastforce
  have sp: "(s, p) \<in> set h" using Cons.prems(1) u by simp
  have ge: "s' \<le> s \<and> key = op_key p" if "(s', q) \<in> set h" "op_type q \<noteq> kTypeRangeDeletion" "op_key q = key" "s' \<le> snap" for s' q
  proof (cases "(s', q) \<in> set (u # hs)")
    case True
    then show ?thesis using Cons.prems(2,3) that u by force
  next
    case False
    then show ?thesis using Cons.prems(4) that by blast
  qed
  show ?case
  proof (cases "op_key p = key")
    case False
    then have "op_type q = kTypeRangeDeletion" if "(s', q) \<in> set h" "op_key q = key" "s' \<le> snap" for s' q
      using ge [of s' q] that False by metis
    from spec_get_only_ranges [OF dist pos this] show ?thesis using False by (simp add: u dels)
  next
    case key: True
    then have snap: "s \<le> snap" using Cons.prems(2) u by simp
    show ?thesis
    proof (cases "RDL_IsDeleted dels key s snap")
      case True
      then obtain g a b where r: "(g, DeleteRange a b) \<in> set h" "a \<le> key" "key < b" "s < g" "g \<le> snap"
        unfolding dels by blast
      have "spec_get h key snap = Deleted"
        by (rule spec_get_range [OF dist r(1-3,5)]) (use ge r(4) le_less_trans in blast)
      then show ?thesis using True key by (simp add: u)
    next
      case False
      then have no: "\<not> s < g" if "(g, DeleteRange a b) \<in> set h" "a \<le> key" "key < b" "g \<le> snap" for g a b
        using that unfolding dels by blast
      show ?thesis
      proof (cases "op_type p = kTypeRangeDeletion")
        case True
        then obtain a b where p: "p = DeleteRange a b" by (auto simp: op_type_range)
        have "mem_scan dels key snap hs = spec_get h key snap"
          using Cons.prems True u by (intro Cons.IH) auto
        then show ?thesis using False key p by (simp add: u)
      next
        case point: False
        have "spec_get h key snap = result_of p"
        proof (rule spec_getI [OF dist sp snap])
          show "affects key p" using affects_point [OF point] key by blast
          show "s' \<le> s" if "(s', q) \<in> set h" "s' \<le> snap" "affects key q" for s' q
            using ge [of s' q] no [of s'] that affects_point [of q key]
            by (cases "op_type q = kTypeRangeDeletion") (auto simp: op_type_range not_less)
        qed
        then show ?thesis using False key point by (cases p) (simp_all add: u)
      qed
    qed
  qed
qed

section \<open>The history a memtable stands for\<close>

definition deletions_of :: "history \<Rightarrow> RangeDeletionList" where
  "deletions_of h =
     concat (map (\<lambda>(s, p). case p of DeleteRange a b \<Rightarrow> [\<lparr>start_key = a, end_key = b, del_seq = s\<rparr>] | _ \<Rightarrow> []) h)"

definition mem_rep :: "MemTable \<Rightarrow> history \<Rightarrow> bool" where
  "mem_rep m h \<longleftrightarrow>
     (\<exists>P. sl_ok (MemKeyComparator BytewiseComparator) mem_key_ok (mt_table m) P \<and>
          set (sl_keys (mt_table m) P) = update_entry ` set h) \<and>
     mt_deletions m = deletions_of h \<and> distinct (map fst h) \<and> (\<forall>u \<in> set h. update_fits u)"

lemma deletions_of_append [simp]: "deletions_of (h @ h') = deletions_of h @ deletions_of h'"
  by (simp add: deletions_of_def)

lemma RDL_IsDeleted_deletions_of:
  "RDL_IsDeleted (deletions_of h) key f snap \<longleftrightarrow>
     (\<exists>g a b. (g, DeleteRange a b) \<in> set h \<and> a \<le> key \<and> key < b \<and> f < g \<and> g \<le> snap)"
  by (force simp: RDL_IsDeleted_iff deletions_of_def split: write_op.splits)

lemma make_MemTable_rep: "mem_rep make_MemTable []"
  using make_SkipList_ok [of "MemKeyComparator BytewiseComparator" mem_key_ok "[]"]
  by (auto simp: mem_rep_def make_MemTable_def deletions_of_def sl_keys_def intro!: exI [of _ "[]"])

lemma update_compare_distinct:
  assumes "update_fits u" and "update_fits w" and "fst u \<noteq> fst w"
  shows "MemKeyComparator BytewiseComparator (update_entry u) (update_entry w) \<noteq> 0"
proof -
  have "ExtractTag (update_key u) \<noteq> ExtractTag (update_key w)"
    using assms update_key_views(2) [of "fst u" "snd u"] update_key_views(2) [of "fst w" "snd w"] by auto
  then show ?thesis
    using assms by (auto simp: MemKeyComparator_def Let_def update_entry_slices IKC_Compare_def)
qed

lemma MemTable_Add_rep:
  assumes rep: "mem_rep m h" and fits: "update_fits (s, p)" and new: "s \<notin> fst ` set h"
  shows "\<exists>m'. MemTable_Add BytewiseComparator s (op_type p) (op_key p) (op_value p) m = Some m' \<and> mem_rep m' (h @ [(s, p)])"
proof -
  obtain P where P: "sl_ok (MemKeyComparator BytewiseComparator) mem_key_ok (mt_table m) P"
    "set (sl_keys (mt_table m) P) = update_entry ` set h"
    using rep by (auto simp: mem_rep_def)
  have ok: "mem_key_ok (update_entry (s, p))" by (rule mem_key_ok_update [OF fits])
  have "MemKeyComparator BytewiseComparator (sl_key (mt_table m) a) (update_entry (s, p)) \<noteq> 0" if "a \<in> set P" for a
  proof -
    have "sl_key (mt_table m) a \<in> update_entry ` set h" using P(2) that by (auto simp: sl_keys_def)
    then obtain u where "u \<in> set h" "sl_key (mt_table m) a = update_entry u" by blast
    then show ?thesis
      using update_compare_distinct [of u "(s, p)"] fits new rep by (force simp: mem_rep_def)
  qed
  then obtain l' P' where l': "Insert (MemKeyComparator BytewiseComparator) (update_entry (s, p)) (mt_table m) = Some l'"
    "sl_ok (MemKeyComparator BytewiseComparator) mem_key_ok l' P'"
    "sl_keys l' P' = insert_sorted (MemKeyComparator BytewiseComparator) (update_entry (s, p)) (sl_keys (mt_table m) P)"
    using mem_order.Insert_refines [OF P(1) ok] by blast
  then obtain m' where m': "MemTable_Add BytewiseComparator s (op_type p) (op_key p) (op_value p) m = Some m'"
    "mt_table m' = l'" "mt_deletions m' = mt_deletions m @ deletions_of [(s, p)]"
    by (cases p) (simp_all add: MemTable_Add_def update_entry_def Let_def RDL_Add_def deletions_of_def)
  have "set (sl_keys l' P') = update_entry ` set (h @ [(s, p)])"
    using l'(3) P(2) by auto
  then have "mem_rep m' (h @ [(s, p)])"
    using rep l'(2) m' fits new unfolding mem_rep_def by auto
  then show ?thesis using m'(1) by blast
qed

lemma update_entries_order:
  assumes "sorted_wrt (\<lambda>e e'. MemKeyComparator BytewiseComparator e e' < 0) (map update_entry hs)" and "\<forall>u \<in> set hs. update_fits u"
  shows "sorted_wrt (\<lambda>(s, p) (s', q). op_key p < op_key q \<or> op_key p = op_key q \<and> s' \<le> s) hs"
  using assms(1) unfolding sorted_wrt_map
proof (rule sorted_wrt_mono_rel [rotated])
  fix u w assume "u \<in> set hs" "w \<in> set hs" and less: "MemKeyComparator BytewiseComparator (update_entry u) (update_entry w) < 0"
  then have "update_fits u" "update_fits w" using assms(2) by simp_all
  then show "(case u of (s, p) \<Rightarrow> \<lambda>(s', q). op_key p < op_key q \<or> op_key p = op_key q \<and> s' \<le> s) w"
    using less update_key_less [of "fst u" "snd u" "fst w" "snd w"]
    by (auto simp: MemKeyComparator_def Let_def update_entry_slices split: prod.splits)
qed

text \<open>What a seek leaves ahead: the updates of the key that are visible, the newest first, and larger keys.\<close>

lemma mem_seek:
  assumes rep: "mem_rep m h" and key: "length key + 8 < 2 ^ 32" and snap: "snap \<le> kMaxSequenceNumber"
  obtains us vs hts hs where "sl_links (mt_table m) (us @ vs) hts"
    and "SL_Seek (MemKeyComparator BytewiseComparator) (mt_table m) (memtable_key (make_LookupKey key snap)) = Some (first_of vs)"
    and "map (sl_key (mt_table m)) vs = map update_entry hs" and "set hs \<subseteq> set h"
    and "\<forall>(s, p) \<in> set hs. key \<le> op_key p \<and> (op_key p = key \<longrightarrow> s \<le> snap)"
    and "sorted_wrt (\<lambda>(s, p) (s', q). op_key p < op_key q \<or> op_key p = op_key q \<and> s' \<le> s) hs"
    and "\<forall>(s, p) \<in> set h - set hs. op_key p = key \<longrightarrow> snap < s"
proof -
  let ?c = "MemKeyComparator BytewiseComparator" and ?t = "mt_table m" and ?k = "memtable_key (make_LookupKey key snap)"
  let ?ik = "InternalKey key snap kValueTypeForSeek"
  obtain P where P: "sl_ok ?c mem_key_ok ?t P" "set (sl_keys ?t P) = update_entry ` set h"
    and dist: "distinct (map fst h)" and fits: "\<forall>u \<in> set h. update_fits u"
    using rep by (auto simp: mem_rep_def)
  have slice: "fst (MemTable_GetLengthPrefixedSlice ?k) = ?ik"
    using MemTable_GetLengthPrefixedSlice_Encode [of ?ik "[]"] key
    by (simp add: memtable_key_def make_LookupKey_def InternalKey_eq Let_def)
  then have "mem_key_ok ?k" by (simp add: mem_key_ok_def internal_key_ok_def InternalKey_eq)
  then obtain A B hts where AB: "P = A @ B" "sl_links ?t (A @ B) hts" "\<forall>a \<in> set A. ?c (sl_key ?t a) ?k < 0"
    "\<forall>b \<in> set B. \<not> ?c (sl_key ?t b) ?k < 0" "B = dropWhile (\<lambda>a. ?c (sl_key ?t a) ?k < 0) P"
    by (rule mem_order.sl_okE [OF P(1)])
  have "map (sl_key ?t) B \<in> lists (update_entry ` set h)" using P(2) AB(1) by (auto simp: sl_keys_def)
  then obtain hs where hs: "map (sl_key ?t) B = map update_entry hs" "set hs \<subseteq> set h"
    by (auto simp: lists_image)
  have cmp: "?c (update_entry (s, p)) ?k < 0 \<longleftrightarrow> op_key p < key \<or> op_key p = key \<and> snap < s" if "(s, p) \<in> set h" for s p
    using fits that update_key_before_lookup [of s p snap key] snap
    by (simp add: MemKeyComparator_def slice update_entry_slices)
  have B: "sl_key ?t ` set B = update_entry ` set hs" using arg_cong [OF hs(1), of set] by simp
  have visible: "key \<le> op_key p \<and> (op_key p = key \<longrightarrow> s \<le> snap)" if "(s, p) \<in> set hs" for s p
  proof -
    have "update_entry (s, p) \<in> sl_key ?t ` set B" using B that by blast
    then have "\<not> ?c (update_entry (s, p)) ?k < 0" using AB(4) by auto
    then show ?thesis using cmp [of s p] subsetD [OF hs(2) that] by auto
  qed
  have rest: "snap < s" if "(s, p) \<in> set h" "(s, p) \<notin> set hs" "op_key p = key" for s p
  proof (rule ccontr)
    assume "\<not> snap < s"
    then have "\<not> ?c (update_entry (s, p)) ?k < 0" using cmp [OF that(1)] that(3) by simp
    moreover have "update_entry (s, p) \<in> sl_key ?t ` set (A @ B)"
      using P(2) AB(1) that(1) by (auto simp: sl_keys_def)
    ultimately have "update_entry (s, p) \<in> update_entry ` set hs" using AB(3) B by auto
    then obtain w where w: "w \<in> set hs" "update_entry (s, p) = update_entry w" by blast
    then have "fst w = s" using update_entry_inj [of "(s, p)" w] fits hs(2) that(1) by auto
    moreover have "inj_on fst (set h)" using dist by (simp add: distinct_map)
    ultimately have "w = (s, p)" using inj_onD [of fst "set h" w "(s, p)"] w(1) hs(2) that(1) by auto
    then show False using w(1) that(2) by simp
  qed
  have "sorted_wrt (\<lambda>a b. ?c (sl_key ?t a) (sl_key ?t b) < 0) B"
    using P(1) AB(1) by (simp add: sl_ok_def sorted_wrt_append)
  then have "sorted_wrt (\<lambda>e e'. ?c e e' < 0) (map update_entry hs)"
    unfolding hs(1) [symmetric] sorted_wrt_map .
  then have "sorted_wrt (\<lambda>(s, p) (s', q). op_key p < op_key q \<or> op_key p = op_key q \<and> s' \<le> s) hs"
    using fits hs(2) by (intro update_entries_order) auto
  moreover have "SL_Seek ?c ?t ?k = Some (first_of B)"
    using mem_order.SL_Seek_refines [OF P(1) \<open>mem_key_ok ?k\<close>] AB(5) by simp
  moreover have "\<forall>(s, p) \<in> set hs. key \<le> op_key p \<and> (op_key p = key \<longrightarrow> s \<le> snap)"
    by (intro ballI case_prodI2) (use visible in blast)
  moreover have "\<forall>(s, p) \<in> set h - set hs. op_key p = key \<longrightarrow> snap < s"
    by (intro ballI case_prodI2) (use rest in blast)
  ultimately show ?thesis
    using that [OF AB(2) _ hs] by blast
qed

lemma MemTable_Get_refines:
  assumes rep: "mem_rep m h" and key: "length key + 8 < 2 ^ 32" and snap: "snap \<le> kMaxSequenceNumber"
  shows "MemTable_Get BytewiseComparator m (make_LookupKey key snap) = Some (spec_get h key snap)"
proof -
  obtain us vs hts hs where seek: "sl_links (mt_table m) (us @ vs) hts"
    "SL_Seek (MemKeyComparator BytewiseComparator) (mt_table m) (memtable_key (make_LookupKey key snap)) = Some (first_of vs)"
    "map (sl_key (mt_table m)) vs = map update_entry hs" and sub: "set hs \<subseteq> set h"
    and hs: "\<forall>(s, p) \<in> set hs. key \<le> op_key p \<and> (op_key p = key \<longrightarrow> s \<le> snap)"
    "sorted_wrt (\<lambda>(s, p) (s', q). op_key p < op_key q \<or> op_key p = op_key q \<and> s' \<le> s) hs"
    "\<forall>(s, p) \<in> set h - set hs. op_key p = key \<longrightarrow> snap < s"
    by (rule mem_seek [OF assms])
  have h: "distinct (map fst h)" "\<forall>u \<in> set h. update_fits u" "mt_deletions m = deletions_of h"
    using rep by (auto simp: mem_rep_def)
  then have "MemTable_Get BytewiseComparator m (make_LookupKey key snap) = Some (mem_scan (deletions_of h) key snap hs)"
    using MemTable_Get_loop_scan [OF seek(1,3), of key snap] seek(2) sub snap
    by (auto simp: MemTable_Get_def make_LookupKey_views InternalKey_eq drop_bit_PackSequenceAndType)
  also have "mem_scan (deletions_of h) key snap hs = spec_get h key snap"
  proof (rule mem_scan_spec [OF h(1) _ RDL_IsDeleted_deletions_of sub hs(1,2)])
    show "\<forall>(s, p) \<in> set h. 0 < s" using h(2) by (auto simp: update_fits_def)
    show "\<forall>(s, p) \<in> set h - set hs. op_key p = key \<and> s \<le> snap \<longrightarrow> op_type p = kTypeRangeDeletion"
      by (intro ballI case_prodI2 impI) (use hs(3) leD in blast)
  qed
  finally show ?thesis .
qed

lemma inserter_rep:
  assumes "mem_rep m h" and "\<forall>u \<in> set (number_ops s ps). update_fits u" and "distinct (map fst (h @ number_ops s ps))"
  shows "\<exists>m' s'. foldl (handle (MemTableInserter BytewiseComparator)) (s, Some m) ps = (s', Some m') \<and>
    mem_rep m' (h @ number_ops s ps)"
  using assms
proof (induction ps arbitrary: m h s)
  case (Cons p ps)
  have fits: "update_fits (s, p)" "s \<notin> fst ` set h" using Cons.prems(2,3) by auto
  obtain m1 where m1: "MemTable_Add BytewiseComparator s (op_type p) (op_key p) (op_value p) m = Some m1"
    "mem_rep m1 (h @ [(s, p)])"
    using MemTable_Add_rep [OF Cons.prems(1) fits] by blast
  have "handle (MemTableInserter BytewiseComparator) (s, Some m) p = (s + 1, Some m1)"
    using m1(1) by (cases p) (simp_all add: handle_def MemTableInserter_def inserter_add_def)
  then show ?case using Cons.IH [OF m1(2), of "s + 1"] Cons.prems(2,3) by simp
qed auto

section \<open>Numbering\<close>

lemma number_ops_append:
  "number_ops s (ps @ qs) = number_ops s ps @ number_ops (s + word_of_nat (length ps)) qs"
  by (induction ps arbitrary: s) (simp_all add: add.assoc)

lemma number_ops_numbers:
  "unat s + length ps \<le> 2 ^ 56 \<Longrightarrow> map (\<lambda>u. unat (fst u)) (number_ops s ps) = [unat s..<unat s + length ps]"
proof (induction ps arbitrary: s)
  case (Cons p ps)
  then have "unat (s + 1) = unat s + 1" by (simp add: unat_word_ariths)
  then show ?case using Cons by (simp add: upt_conv_Cons del: upt_Suc)
qed simp

lemma number_ops_distinct: "unat s + length ps \<le> 2 ^ 56 \<Longrightarrow> distinct (map fst (number_ops s ps))"
  using distinct_map [of unat "map fst (number_ops s ps)"] number_ops_numbers [of s ps] by (simp add: o_def)

lemma number_ops_member:
  assumes "(t, q) \<in> set (number_ops s ps)" and "unat s + length ps \<le> 2 ^ 56"
  shows "s \<le> t" and "t \<le> kMaxSequenceNumber" and "q \<in> set ps"
proof -
  have "unat t \<in> set (map (\<lambda>u. unat (fst u)) (number_ops s ps))" using assms(1) by force
  then have "unat s \<le> unat t" "unat t < 2 ^ 56"
    using number_ops_numbers [OF assms(2)] assms(2) by auto
  then show "s \<le> t" "t \<le> kMaxSequenceNumber"
    by (simp_all add: word_le_nat_alt kMaxSequenceNumber_def)
  show "q \<in> set ps" using assms(1) by (induction ps arbitrary: s) auto
qed

definition op_fits_memtable :: "write_op \<Rightarrow> bool" where
  "op_fits_memtable p \<longleftrightarrow> length (op_key p) + 8 < 2 ^ 32 \<and> length (op_value p) < 2 ^ 32"

lemma op_fits_memtable_fits: "op_fits_memtable p \<Longrightarrow> op_fits p"
  by (cases p) (simp_all add: op_fits_memtable_def)

lemma number_ops_fits:
  assumes "list_all op_fits_memtable ps" and "0 < s" and "unat s + length ps \<le> 2 ^ 56"
  shows "\<forall>u \<in> set (number_ops s ps). update_fits u"
  using assms number_ops_member [OF _ assms(3)] unfolding update_fits_def list_all_iff op_fits_memtable_def
  by (auto intro: order.strict_trans2)

lemma InsertInto_rep:
  assumes "mem_rep m h" and "list_all op_fits_memtable ps" and "0 < s" and "unat s + length ps \<le> 2 ^ 56"
    and "\<forall>u \<in> set h. fst u < s"
  shows "\<exists>m'. InsertInto BytewiseComparator (batch_rep s ps) m = (OK, Some m') \<and> mem_rep m' (h @ number_ops s ps)"
proof -
  have "list_all op_fits ps"
    using assms(2) op_fits_memtable_fits by (auto simp: list_all_iff)
  note it = Iterate_batch_rep [OF this, of "MemTableInserter BytewiseComparator" s "(s, Some m)"]
  have "distinct (map fst (h @ number_ops s ps))"
    using assms(1,5) number_ops_distinct [OF assms(4)] number_ops_member(1) [OF _ assms(4)]
    by (force simp: mem_rep_def)
  from inserter_rep [OF assms(1) number_ops_fits [OF assms(2-4)] this] it show ?thesis
    by (auto simp: InsertInto_def)
qed

fun InsertInto_all :: "u64 \<Rightarrow> write_op list list \<Rightarrow> MemTable \<Rightarrow> MemTable option" where
  "InsertInto_all s [] m = Some m"
| "InsertInto_all s (ps # bs) m =
     (case InsertInto BytewiseComparator (SetSequence (foldl add_op WriteBatch_Clear ps) s) m of
        (OK, Some m) \<Rightarrow> InsertInto_all (s + word_of_nat (length ps)) bs m
      | _ \<Rightarrow> None)"

lemma InsertInto_all_rep:
  assumes "mem_rep m h" and "list_all op_fits_memtable (concat bs)" and "0 < s"
    and "unat s + length (concat bs) \<le> 2 ^ 56" and "\<forall>u \<in> set h. fst u < s"
  shows "\<exists>m'. InsertInto_all s bs m = Some m' \<and> mem_rep m' (h @ number_ops s (concat bs))"
  using assms
proof (induction bs arbitrary: m h s)
  case (Cons ps bs)
  have fits: "list_all op_fits_memtable ps" "unat s + length ps \<le> 2 ^ 56" using Cons.prems(2,4) by simp_all
  obtain m1 where m1: "InsertInto BytewiseComparator (batch_rep s ps) m = (OK, Some m1)" "mem_rep m1 (h @ number_ops s ps)"
    using InsertInto_rep [OF Cons.prems(1) fits(1) Cons.prems(3) fits(2) Cons.prems(5)] by blast
  have n: "unat (s + word_of_nat (length ps)) = unat s + length ps"
    using fits(2) by (simp add: unat_word_ariths unat_of_nat_small)
  have "fst u < s + word_of_nat (length ps)" if "u \<in> set (h @ number_ops s ps)" for u
  proof -
    have "unat (fst u) < unat s + length ps"
    proof (cases "u \<in> set h")
      case True
      then show ?thesis using Cons.prems(5) by (simp add: word_less_nat_alt trans_less_add1)
    next
      case False
      then have "unat (fst u) \<in> set (map (\<lambda>u. unat (fst u)) (number_ops s ps))" using that by auto
      then show ?thesis using number_ops_numbers [OF fits(2)] by simp
    qed
    then show ?thesis by (simp add: word_less_nat_alt n)
  qed
  moreover have "0 < s + word_of_nat (length ps)" using Cons.prems(3) by (simp add: word_less_nat_alt n)
  ultimately show ?case
    using Cons.IH [OF m1(2), of "s + word_of_nat (length ps)"] Cons.prems(2,4) n m1(1)
    by (simp add: WriteBatch_Clear_rep foldl_add_op number_ops_append)
qed auto

section \<open>Properties\<close>

text \<open>C8. Refinement of the memtable: after applying any sequence of write batches, numbered one after
  the other, to an empty memtable, \<^verbatim>\<open>Get\<close> returns for every key and every snapshot, and its answer is
  that of the abstract store: the value of the latest put visible at the snapshot, \<^verbatim>\<open>NotFound\<close> when the
  latest visible update is a deletion or a range deletion that covers the key, and no answer when the
  memtable knows nothing about the key.
\<close>

theorem memtable_get_refines_store:
  assumes "list_all op_fits_memtable (concat bs)" and "0 < s" and "unat s + length (concat bs) \<le> 2 ^ 56"
  shows "\<exists>m. InsertInto_all s bs make_MemTable = Some m \<and>
    (\<forall>key snap. length key + 8 < 2 ^ 32 \<longrightarrow> snap \<le> kMaxSequenceNumber \<longrightarrow>
       MemTable_Get BytewiseComparator m (make_LookupKey key snap) =
         Some (spec_get (number_ops s (concat bs)) key snap))"
proof -
  obtain m where m: "InsertInto_all s bs make_MemTable = Some m" "mem_rep m (number_ops s (concat bs))"
    using InsertInto_all_rep [OF make_MemTable_rep assms, unfolded append_Nil] by auto
  then show ?thesis using MemTable_Get_refines [OF m(2)] by blast
qed

theorem memtable_get_refines_store_witness:
  "\<exists>m. InsertInto_all 1 [[Put [1] [7], Put [2] [8]], [DeleteRange [1] [2]]] make_MemTable = Some m \<and>
    MemTable_Get BytewiseComparator m (make_LookupKey [1] 2) = Some (Found [7]) \<and>
    MemTable_Get BytewiseComparator m (make_LookupKey [1] 3) = Some Deleted \<and>
    MemTable_Get BytewiseComparator m (make_LookupKey [2] 3) = Some (Found [8]) \<and>
    MemTable_Get BytewiseComparator m (make_LookupKey [3] 3) = Some Absent"
proof -
  let ?bs = "[[Put [1] [7], Put [2] [8]], [DeleteRange [1] [2]]] :: write_op list list"
  obtain m where m: "InsertInto_all 1 ?bs make_MemTable = Some m"
    and get: "\<And>key snap. length key + 8 < 2 ^ 32 \<Longrightarrow> snap \<le> kMaxSequenceNumber \<Longrightarrow>
      MemTable_Get BytewiseComparator m (make_LookupKey key snap) = Some (spec_get (number_ops 1 (concat ?bs)) key snap)"
    using memtable_get_refines_store [of ?bs 1] by (auto simp: op_fits_memtable_def simp del: InsertInto_all.simps)
  have spec: "spec_get (number_ops 1 (concat ?bs)) [1] 2 = Found [7]" "spec_get (number_ops 1 (concat ?bs)) [1] 3 = Deleted"
    "spec_get (number_ops 1 (concat ?bs)) [2] 3 = Found [8]" "spec_get (number_ops 1 (concat ?bs)) [3] 3 = Absent"
    by (simp_all add: spec_get_def visible_def)
  have small: "2 \<le> kMaxSequenceNumber" "3 \<le> kMaxSequenceNumber" by (simp_all add: kMaxSequenceNumber_def)
  have "MemTable_Get BytewiseComparator m (make_LookupKey [1] 2) = Some (Found [7])"
    "MemTable_Get BytewiseComparator m (make_LookupKey [1] 3) = Some Deleted"
    "MemTable_Get BytewiseComparator m (make_LookupKey [2] 3) = Some (Found [8])"
    "MemTable_Get BytewiseComparator m (make_LookupKey [3] 3) = Some Absent"
    by (subst get, simp, rule small, simp only: spec)+
  with m show ?thesis by blast
qed



end
