(* ===== verification/Version_Edit.thy ===== *)
theory Version_Edit
  imports Dbformat "HOL-Library.Product_Lexorder"
begin

text \<open>
  Version edits (db/version_edit.h, db/version_edit.cc): the deltas between two versions of the file
  set that are written to the manifest. A \<^verbatim>\<open>has_\<close> flag and its value are one option; the ordered set
  of deleted files is a strictly sorted list. Decoding returns the status and the edit it has built,
  which on an error holds what came before the error.
\<close>

section \<open>Edits\<close>

record FileMetaData =
  refs :: int
  allowed_seeks :: int
  number :: u64
  file_size :: u64
  smallest :: bytes
  largest :: bytes

definition make_FileMetaData :: "u64 \<Rightarrow> u64 \<Rightarrow> bytes \<Rightarrow> bytes \<Rightarrow> FileMetaData" where
  "make_FileMetaData num fsize small large =
     \<lparr>refs = 0, allowed_seeks = 2 ^ 30, number = num, file_size = fsize, smallest = small, largest = large\<rparr>"

record VersionEdit =
  ve_comparator :: "bytes option"
  ve_log_number :: "u64 option"
  ve_prev_log_number :: "u64 option"
  ve_next_file_number :: "u64 option"
  ve_last_sequence :: "u64 option"
  compact_pointers :: "(nat \<times> bytes) list"
  deleted_files :: "(nat \<times> u64) list"
  new_files :: "(nat \<times> FileMetaData) list"

definition VersionEdit_Clear :: VersionEdit where
  "VersionEdit_Clear =
     \<lparr>ve_comparator = None, ve_log_number = None, ve_prev_log_number = None, ve_next_file_number = None,
      ve_last_sequence = None, compact_pointers = [], deleted_files = [], new_files = []\<rparr>"

definition SetComparatorName :: "bytes \<Rightarrow> VersionEdit \<Rightarrow> VersionEdit" where
  "SetComparatorName name e = e\<lparr>ve_comparator := Some name\<rparr>"

definition SetLogNumber :: "u64 \<Rightarrow> VersionEdit \<Rightarrow> VersionEdit" where
  "SetLogNumber num e = e\<lparr>ve_log_number := Some num\<rparr>"

definition SetPrevLogNumber :: "u64 \<Rightarrow> VersionEdit \<Rightarrow> VersionEdit" where
  "SetPrevLogNumber num e = e\<lparr>ve_prev_log_number := Some num\<rparr>"

definition SetNextFile :: "u64 \<Rightarrow> VersionEdit \<Rightarrow> VersionEdit" where
  "SetNextFile num e = e\<lparr>ve_next_file_number := Some num\<rparr>"

definition SetLastSequence :: "u64 \<Rightarrow> VersionEdit \<Rightarrow> VersionEdit" where
  "SetLastSequence seq e = e\<lparr>ve_last_sequence := Some seq\<rparr>"

definition SetCompactPointer :: "nat \<Rightarrow> bytes \<Rightarrow> VersionEdit \<Rightarrow> VersionEdit" where
  "SetCompactPointer level key e = e\<lparr>compact_pointers := compact_pointers e @ [(level, key)]\<rparr>"

definition AddFile :: "nat \<Rightarrow> u64 \<Rightarrow> u64 \<Rightarrow> bytes \<Rightarrow> bytes \<Rightarrow> VersionEdit \<Rightarrow> VersionEdit" where
  "AddFile level file fsize small large e =
     e\<lparr>new_files := new_files e @ [(level, make_FileMetaData file fsize small large)]\<rparr>"

definition VE_RemoveFile :: "nat \<Rightarrow> u64 \<Rightarrow> VersionEdit \<Rightarrow> VersionEdit" where
  "VE_RemoveFile level file e = e\<lparr>deleted_files := insort_insert (level, file) (deleted_files e)\<rparr>"

section \<open>Encoding\<close>

definition kComparator :: u32 where "kComparator = 1"
definition kLogNumber :: u32 where "kLogNumber = 2"
definition kNextFileNumber :: u32 where "kNextFileNumber = 3"
definition kLastSequence :: u32 where "kLastSequence = 4"
definition kCompactPointer :: u32 where "kCompactPointer = 5"
definition kDeletedFile :: u32 where "kDeletedFile = 6"
definition kNewFile :: u32 where "kNewFile = 7"
definition kPrevLogNumber :: u32 where "kPrevLogNumber = 9"

lemmas tag_defs = kComparator_def kLogNumber_def kNextFileNumber_def kLastSequence_def kCompactPointer_def
  kDeletedFile_def kNewFile_def kPrevLogNumber_def

definition put_number :: "u32 \<Rightarrow> u64 option \<Rightarrow> bytes \<Rightarrow> bytes" where
  "put_number tag num dst = (case num of None \<Rightarrow> dst | Some n \<Rightarrow> PutVarint64 (PutVarint32 dst tag) n)"

definition VersionEdit_EncodeTo :: "VersionEdit \<Rightarrow> bytes \<Rightarrow> bytes" where
  "VersionEdit_EncodeTo e dst =
     (let dst = (case ve_comparator e of
                   None \<Rightarrow> dst | Some name \<Rightarrow> PutLengthPrefixedSlice (PutVarint32 dst kComparator) name);
          dst = put_number kLogNumber (ve_log_number e) dst;
          dst = put_number kPrevLogNumber (ve_prev_log_number e) dst;
          dst = put_number kNextFileNumber (ve_next_file_number e) dst;
          dst = put_number kLastSequence (ve_last_sequence e) dst;
          dst = foldl (\<lambda>dst (level, key).
                  PutLengthPrefixedSlice (PutVarint32 (PutVarint32 dst kCompactPointer) (word_of_nat level)) key)
                  dst (compact_pointers e);
          dst = foldl (\<lambda>dst (level, num).
                  PutVarint64 (PutVarint32 (PutVarint32 dst kDeletedFile) (word_of_nat level)) num)
                  dst (deleted_files e)
      in foldl (\<lambda>dst (level, f).
           let dst = PutVarint32 (PutVarint32 dst kNewFile) (word_of_nat level);
               dst = PutVarint64 (PutVarint64 dst (number f)) (file_size f)
           in PutLengthPrefixedSlice (PutLengthPrefixedSlice dst (smallest f)) (largest f))
           dst (new_files e))"

section \<open>Decoding\<close>

definition GetInternalKey :: "bytes \<Rightarrow> (bytes \<times> bytes) option" where
  "GetInternalKey input =
     (case GetLengthPrefixedSlice input of
        None \<Rightarrow> None
      | Some (str, input) \<Rightarrow> if snd (InternalKey_DecodeFrom str) then Some (str, input) else None)"

definition GetLevel :: "bytes \<Rightarrow> (nat \<times> bytes) option" where
  "GetLevel input =
     (case GetVarint32 input of
        None \<Rightarrow> None
      | Some (v, input) \<Rightarrow> if v < word_of_nat kNumLevels then Some (unat v, input) else None)"

text \<open>One round of the switch: the message, or the rest of the input and the edit so far.\<close>

definition DecodeFrom_tag :: "u32 \<Rightarrow> bytes \<Rightarrow> VersionEdit \<Rightarrow> string + bytes \<times> VersionEdit" where
  "DecodeFrom_tag tag input e =
     (if tag = kComparator then
        (case GetLengthPrefixedSlice input of
           None \<Rightarrow> Inl ''comparator name''
         | Some (str, input) \<Rightarrow> Inr (input, e\<lparr>ve_comparator := Some str\<rparr>))
      else if tag = kLogNumber then
        (case GetVarint64 input of
           None \<Rightarrow> Inl ''log number''
         | Some (n, input) \<Rightarrow> Inr (input, e\<lparr>ve_log_number := Some n\<rparr>))
      else if tag = kPrevLogNumber then
        (case GetVarint64 input of
           None \<Rightarrow> Inl ''previous log number''
         | Some (n, input) \<Rightarrow> Inr (input, e\<lparr>ve_prev_log_number := Some n\<rparr>))
      else if tag = kNextFileNumber then
        (case GetVarint64 input of
           None \<Rightarrow> Inl ''next file number''
         | Some (n, input) \<Rightarrow> Inr (input, e\<lparr>ve_next_file_number := Some n\<rparr>))
      else if tag = kLastSequence then
        (case GetVarint64 input of
           None \<Rightarrow> Inl ''last sequence number''
         | Some (n, input) \<Rightarrow> Inr (input, e\<lparr>ve_last_sequence := Some n\<rparr>))
      else if tag = kCompactPointer then
        (case Option.bind (GetLevel input)
                (\<lambda>(level, input). map_option (\<lambda>(key, input). (level, key, input)) (GetInternalKey input)) of
           None \<Rightarrow> Inl ''compaction pointer''
         | Some (level, key, input) \<Rightarrow> Inr (input, e\<lparr>compact_pointers := compact_pointers e @ [(level, key)]\<rparr>))
      else if tag = kDeletedFile then
        (case Option.bind (GetLevel input)
                (\<lambda>(level, input). map_option (\<lambda>(n, input). (level, n, input)) (GetVarint64 input)) of
           None \<Rightarrow> Inl ''deleted file''
         | Some (level, n, input) \<Rightarrow> Inr (input, e\<lparr>deleted_files := insort_insert (level, n) (deleted_files e)\<rparr>))
      else if tag = kNewFile then
        (case Option.bind (GetLevel input) (\<lambda>(level, input).
              Option.bind (GetVarint64 input) (\<lambda>(num, input).
              Option.bind (GetVarint64 input) (\<lambda>(fsize, input).
              Option.bind (GetInternalKey input) (\<lambda>(small, input).
              map_option (\<lambda>(large, input). (level, make_FileMetaData num fsize small large, input))
                (GetInternalKey input))))) of
           None \<Rightarrow> Inl ''new-file entry''
         | Some (level, f, input) \<Rightarrow> Inr (input, e\<lparr>new_files := new_files e @ [(level, f)]\<rparr>))
      else Inl ''unknown tag'')"

lemma GetInternalKey_shorter: "GetInternalKey p = Some (k, rest) \<Longrightarrow> length rest < length p"
  by (auto simp: GetInternalKey_def dest!: GetLengthPrefixedSlice_shorter split: option.splits if_splits)

lemma GetLevel_shorter: "GetLevel p = Some (l, rest) \<Longrightarrow> length rest < length p"
  by (auto simp: GetLevel_def dest!: GetVarint32_shorter split: option.splits if_splits)

lemma DecodeFrom_tag_shorter: "DecodeFrom_tag tag p e = Inr (rest, e') \<Longrightarrow> length rest < length p"
  by (auto simp: DecodeFrom_tag_def bind_eq_Some_conv split: option.splits if_splits
      dest!: GetInternalKey_shorter GetLevel_shorter GetVarint64_shorter GetLengthPrefixedSlice_shorter)

function DecodeFrom_loop :: "bytes \<Rightarrow> VersionEdit \<Rightarrow> string option \<times> bytes \<times> VersionEdit" where
  "DecodeFrom_loop input e =
     (case GetVarint32 input of
        None \<Rightarrow> (None, input, e)
      | Some (tag, rest) \<Rightarrow>
          (case DecodeFrom_tag tag rest e of
             Inl msg \<Rightarrow> (Some msg, rest, e)
           | Inr (rest, e) \<Rightarrow> DecodeFrom_loop rest e))"
  by pat_completeness auto
termination
  by (relation "measure (length o fst)") (auto dest!: GetVarint32_shorter DecodeFrom_tag_shorter)

declare DecodeFrom_loop.simps [simp del]

definition VersionEdit_DecodeFrom :: "bytes \<Rightarrow> status \<times> VersionEdit" where
  "VersionEdit_DecodeFrom src =
     (let (msg, input, e) = DecodeFrom_loop src VersionEdit_Clear;
          msg = (if msg = None \<and> input \<noteq> [] then Some ''invalid tag'' else msg)
      in (case msg of None \<Rightarrow> OK | Some m \<Rightarrow> Corruption (status_msg2 ''VersionEdit'' m), e))"

section \<open>The encoding as a list of items\<close>

definition item_number :: "u32 \<Rightarrow> u64 option \<Rightarrow> bytes" where
  "item_number tag num = (case num of None \<Rightarrow> [] | Some n \<Rightarrow> EncodeVarint32 tag @ EncodeVarint64 n)"

definition item_comparator :: "bytes option \<Rightarrow> bytes" where
  "item_comparator c = (case c of None \<Rightarrow> [] | Some name \<Rightarrow> EncodeVarint32 kComparator @ PutLengthPrefixedSlice [] name)"

definition item_pointer :: "nat \<times> bytes \<Rightarrow> bytes" where
  "item_pointer = (\<lambda>(level, key). EncodeVarint32 kCompactPointer @ EncodeVarint32 (word_of_nat level) @ PutLengthPrefixedSlice [] key)"

definition item_deleted :: "nat \<times> u64 \<Rightarrow> bytes" where
  "item_deleted = (\<lambda>(level, num). EncodeVarint32 kDeletedFile @ EncodeVarint32 (word_of_nat level) @ EncodeVarint64 num)"

definition item_file :: "nat \<times> FileMetaData \<Rightarrow> bytes" where
  "item_file = (\<lambda>(level, f). EncodeVarint32 kNewFile @ EncodeVarint32 (word_of_nat level) @ EncodeVarint64 (number f) @
     EncodeVarint64 (file_size f) @ PutLengthPrefixedSlice [] (smallest f) @ PutLengthPrefixedSlice [] (largest f))"

lemma foldl_append_items: "(\<And>d x. f d x = d @ g x) \<Longrightarrow> foldl f dst xs = dst @ concat (map g xs)"
  by (induction xs arbitrary: dst) simp_all

lemmas put_defs = PutLengthPrefixedSlice_def PutVarint32_def PutVarint64_def

lemma VersionEdit_EncodeTo_items:
  "VersionEdit_EncodeTo e dst =
     dst @ item_comparator (ve_comparator e) @ item_number kLogNumber (ve_log_number e) @
     item_number kPrevLogNumber (ve_prev_log_number e) @ item_number kNextFileNumber (ve_next_file_number e) @
     item_number kLastSequence (ve_last_sequence e) @ concat (map item_pointer (compact_pointers e)) @
     concat (map item_deleted (deleted_files e)) @ concat (map item_file (new_files e))"
proof -
  have put: "put_number tag num d = d @ item_number tag num" for tag num d
    by (cases num) (simp_all add: put_number_def item_number_def put_defs)
  have name: "(case ve_comparator e of None \<Rightarrow> dst | Some name \<Rightarrow> PutLengthPrefixedSlice (PutVarint32 dst kComparator) name) =
      dst @ item_comparator (ve_comparator e)"
    by (cases "ve_comparator e") (simp_all add: item_comparator_def put_defs)
  have pointers: "foldl (\<lambda>dst (level, key).
      PutLengthPrefixedSlice (PutVarint32 (PutVarint32 dst kCompactPointer) (word_of_nat level)) key) d ps =
      d @ concat (map item_pointer ps)" for d ps
    by (rule foldl_append_items) (simp add: item_pointer_def put_defs split: prod.splits)
  have deleted: "foldl (\<lambda>dst (level, num).
      PutVarint64 (PutVarint32 (PutVarint32 dst kDeletedFile) (word_of_nat level)) num) d ds =
      d @ concat (map item_deleted ds)" for d ds
    by (rule foldl_append_items) (simp add: item_deleted_def put_defs split: prod.splits)
  have files: "foldl (\<lambda>dst (level, f).
      PutLengthPrefixedSlice (PutLengthPrefixedSlice (PutVarint64 (PutVarint64
        (PutVarint32 (PutVarint32 dst kNewFile) (word_of_nat level)) (number f)) (file_size f)) (smallest f)) (largest f)) d fs =
      d @ concat (map item_file fs)" for d fs
    by (rule foldl_append_items) (simp add: item_file_def put_defs split: prod.splits)
  show ?thesis
    unfolding VersionEdit_EncodeTo_def Let_def put name pointers deleted files by simp
qed

section \<open>Reading the items back\<close>

lemma DecodeFrom_loop_item:
  "DecodeFrom_tag tag p e = Inr (rest, e') \<Longrightarrow> DecodeFrom_loop (EncodeVarint32 tag @ p) e = DecodeFrom_loop rest e'"
  by (subst DecodeFrom_loop.simps) simp

lemma GetLevel_Encode: "level < kNumLevels \<Longrightarrow> GetLevel (EncodeVarint32 (word_of_nat level) @ rest) = Some (level, rest)"
  by (simp add: GetLevel_def kNumLevels_def word_less_nat_alt unat_of_nat_small)

lemma GetInternalKey_Put:
  "key \<noteq> [] \<Longrightarrow> length key < 2 ^ 32 \<Longrightarrow> GetInternalKey (PutLengthPrefixedSlice [] key @ rest) = Some (key, rest)"
  by (simp add: GetInternalKey_def GetLengthPrefixedSlice_Put InternalKey_DecodeFrom_def)

lemma DecodeFrom_comparator:
  "\<forall>name. c = Some name \<longrightarrow> length name < 2 ^ 32 \<Longrightarrow> ve_comparator e = None \<Longrightarrow>
   DecodeFrom_loop (item_comparator c @ rest) e = DecodeFrom_loop rest (e\<lparr>ve_comparator := c\<rparr>)"
  by (cases e; cases c) (auto simp: item_comparator_def DecodeFrom_tag_def GetLengthPrefixedSlice_Put intro!: DecodeFrom_loop_item)

lemma DecodeFrom_number:
  "ve_log_number e = None \<Longrightarrow> DecodeFrom_loop (item_number kLogNumber n @ rest) e = DecodeFrom_loop rest (e\<lparr>ve_log_number := n\<rparr>)"
  "ve_prev_log_number e = None \<Longrightarrow>
   DecodeFrom_loop (item_number kPrevLogNumber n @ rest) e = DecodeFrom_loop rest (e\<lparr>ve_prev_log_number := n\<rparr>)"
  "ve_next_file_number e = None \<Longrightarrow>
   DecodeFrom_loop (item_number kNextFileNumber n @ rest) e = DecodeFrom_loop rest (e\<lparr>ve_next_file_number := n\<rparr>)"
  "ve_last_sequence e = None \<Longrightarrow>
   DecodeFrom_loop (item_number kLastSequence n @ rest) e = DecodeFrom_loop rest (e\<lparr>ve_last_sequence := n\<rparr>)"
  by (cases e; cases n; auto simp: item_number_def DecodeFrom_tag_def tag_defs intro!: DecodeFrom_loop_item)+

definition pointer_ok :: "nat \<times> bytes \<Rightarrow> bool" where
  "pointer_ok = (\<lambda>(level, key). level < kNumLevels \<and> key \<noteq> [] \<and> length key < 2 ^ 32)"

definition file_ok :: "nat \<times> FileMetaData \<Rightarrow> bool" where
  "file_ok = (\<lambda>(level, f). level < kNumLevels \<and> smallest f \<noteq> [] \<and> length (smallest f) < 2 ^ 32 \<and>
     largest f \<noteq> [] \<and> length (largest f) < 2 ^ 32 \<and>
     f = make_FileMetaData (number f) (file_size f) (smallest f) (largest f))"

lemma DecodeFrom_pointers:
  "list_all pointer_ok ps \<Longrightarrow>
   DecodeFrom_loop (concat (map item_pointer ps) @ rest) e =
     DecodeFrom_loop rest (e\<lparr>compact_pointers := compact_pointers e @ ps\<rparr>)"
proof (induction ps arbitrary: e)
  case (Cons p ps)
  obtain level key where p: "p = (level, key)" by fastforce
  have "DecodeFrom_loop (item_pointer p @ concat (map item_pointer ps) @ rest) e =
      DecodeFrom_loop (concat (map item_pointer ps) @ rest) (e\<lparr>compact_pointers := compact_pointers e @ [p]\<rparr>)"
    using Cons.prems unfolding item_pointer_def p prod.case append_assoc
    by (intro DecodeFrom_loop_item) (simp add: DecodeFrom_tag_def tag_defs pointer_ok_def GetLevel_Encode GetInternalKey_Put)
  then show ?case using Cons by simp
qed simp

lemma insort_insert_last:
  assumes "sorted_wrt (<) (xs @ [x :: 'a :: linorder])"
  shows "insort_insert x xs = xs @ [x]"
proof -
  have "\<forall>y \<in> set xs. y < x" using assms by (simp add: sorted_wrt_append)
  moreover from this have "insort x xs = xs @ [x]" by (induction xs) auto
  ultimately show ?thesis by (auto simp: insort_insert_key_def)
qed

lemma DecodeFrom_deleted:
  "\<forall>(level, num) \<in> set ds. level < kNumLevels \<Longrightarrow> sorted_wrt (<) (deleted_files e @ ds) \<Longrightarrow>
   DecodeFrom_loop (concat (map item_deleted ds) @ rest) e =
     DecodeFrom_loop rest (e\<lparr>deleted_files := deleted_files e @ ds\<rparr>)"
proof (induction ds arbitrary: e)
  case (Cons d ds)
  obtain level num where d: "d = (level, num)" by fastforce
  have "insort_insert d (deleted_files e) = deleted_files e @ [d]"
    using Cons.prems(2) by (intro insort_insert_last) (simp add: sorted_wrt_append)
  then have "DecodeFrom_loop (item_deleted d @ concat (map item_deleted ds) @ rest) e =
      DecodeFrom_loop (concat (map item_deleted ds) @ rest) (e\<lparr>deleted_files := deleted_files e @ [d]\<rparr>)"
    using Cons.prems(1) unfolding item_deleted_def d prod.case append_assoc
    by (intro DecodeFrom_loop_item) (simp add: DecodeFrom_tag_def tag_defs GetLevel_Encode)
  then show ?case using Cons by simp
qed simp

lemma DecodeFrom_files:
  "list_all file_ok fs \<Longrightarrow>
   DecodeFrom_loop (concat (map item_file fs) @ rest) e =
     DecodeFrom_loop rest (e\<lparr>new_files := new_files e @ fs\<rparr>)"
proof (induction fs arbitrary: e)
  case (Cons p fs)
  obtain level f where p: "p = (level, f)" by fastforce
  have "DecodeFrom_loop (item_file p @ concat (map item_file fs) @ rest) e =
      DecodeFrom_loop (concat (map item_file fs) @ rest) (e\<lparr>new_files := new_files e @ [p]\<rparr>)"
    using Cons.prems unfolding item_file_def p prod.case append_assoc
    by (intro DecodeFrom_loop_item) (simp add: DecodeFrom_tag_def tag_defs file_ok_def GetLevel_Encode GetInternalKey_Put)
  then show ?case using Cons by simp
qed simp

text \<open>What the edits built by the setters satisfy, with levels in range and keys that are not empty.\<close>

definition edit_ok :: "VersionEdit \<Rightarrow> bool" where
  "edit_ok e \<longleftrightarrow> (\<forall>name. ve_comparator e = Some name \<longrightarrow> length name < 2 ^ 32) \<and>
     list_all pointer_ok (compact_pointers e) \<and> sorted_wrt (<) (deleted_files e) \<and>
     (\<forall>(level, num) \<in> set (deleted_files e). level < kNumLevels) \<and> list_all file_ok (new_files e)"

section \<open>Properties\<close>

text \<open>C20. A version edit survives the manifest: every edit with levels in range and non-empty keys is
  read back by \<^verbatim>\<open>DecodeFrom\<close> from what \<^verbatim>\<open>EncodeTo\<close> writes, with all of its fields.\<close>

theorem version_edit_roundtrip:
  assumes "edit_ok e"
  shows "VersionEdit_DecodeFrom (VersionEdit_EncodeTo e []) = (OK, e)"
proof -
  have "DecodeFrom_loop (VersionEdit_EncodeTo e []) VersionEdit_Clear = (None, [], e)"
    using assms DecodeFrom_files [of "new_files e" "[]"]
    unfolding edit_ok_def
    by (simp add: VersionEdit_EncodeTo_items DecodeFrom_comparator DecodeFrom_number DecodeFrom_pointers
        DecodeFrom_deleted VersionEdit_Clear_def DecodeFrom_loop.simps [of "[]"] GetVarint32_def
        GetVarint32Ptr_def GetVarint32PtrFallback_def)
  then show ?thesis by (simp add: VersionEdit_DecodeFrom_def)
qed

theorem version_edit_roundtrip_witness:
  "let e = VE_RemoveFile 1 7 (VE_RemoveFile 1 9 (AddFile 2 300 5000 [1] [2] (SetLogNumber 4 VersionEdit_Clear)))
   in VersionEdit_DecodeFrom (VersionEdit_EncodeTo e []) = (OK, e)"
  unfolding Let_def
  by (rule version_edit_roundtrip)
    (simp add: edit_ok_def VE_RemoveFile_def AddFile_def SetLogNumber_def VersionEdit_Clear_def file_ok_def
      make_FileMetaData_def kNumLevels_def insort_insert_key_def)

end
