(* ===== verification/Filename.thy ===== *)
theory Filename
  imports Memenv
begin

text \<open>
  Printing and parsing of numbers (util/logging.cc), the names of the files of a database
  (db/filename.cc) and the whole-file helpers of util/env.cc, the latter on the in-memory environment.
  Strings are character lists; the parser returns what is left of its input.
\<close>

section \<open>Numbers and escapes\<close>

definition AppendNumberTo :: "string \<Rightarrow> u64 \<Rightarrow> string" where
  "AppendNumberTo str num = str @ decimal (unat num)"

definition NumberToString :: "u64 \<Rightarrow> string" where
  "NumberToString num = AppendNumberTo [] num"

definition hex_digit :: "nat \<Rightarrow> char" where
  "hex_digit d = (if d < 10 then char_of (48 + d) else char_of (87 + d))"

definition escaped_char :: "char \<Rightarrow> string" where
  "escaped_char c =
     (if 32 \<le> (of_char c :: nat) \<and> (of_char c :: nat) \<le> 126 then [c]
      else [CHR 0x5C, CHR ''x'', hex_digit (of_char c div 16), hex_digit (of_char c mod 16)])"

definition AppendEscapedStringTo :: "string \<Rightarrow> string \<Rightarrow> string" where
  "AppendEscapedStringTo str value = str @ concat (map escaped_char value)"

definition EscapeString :: "string \<Rightarrow> string" where
  "EscapeString value = AppendEscapedStringTo [] value"

definition kMaxUint64 :: u64 where "kMaxUint64 = 18446744073709551615"

definition kLastDigitOfMaxUint64 :: nat where
  "kLastDigitOfMaxUint64 = 48 + unat kMaxUint64 mod 10"

text \<open>The loop over the digits: nothing on overflow, else the value and the unread rest.\<close>

fun ConsumeDecimal_loop :: "u64 \<Rightarrow> string \<Rightarrow> (u64 \<times> string) option" where
  "ConsumeDecimal_loop value [] = Some (value, [])"
| "ConsumeDecimal_loop value (c # rest) =
     (let ch = (of_char c :: nat) in
      if ch < 48 \<or> 57 < ch then Some (value, c # rest)
      else if kMaxUint64 div 10 < value \<or> value = kMaxUint64 div 10 \<and> kLastDigitOfMaxUint64 < ch then None
      else ConsumeDecimal_loop (value * 10 + word_of_nat (ch - 48)) rest)"

definition ConsumeDecimalNumber :: "string \<Rightarrow> (u64 \<times> string) option" where
  "ConsumeDecimalNumber input =
     (case ConsumeDecimal_loop 0 input of
        None \<Rightarrow> None
      | Some (value, rest) \<Rightarrow> if length input - length rest \<noteq> 0 then Some (value, rest) else None)"

section \<open>File names\<close>

datatype FileType =
    kLogFile
  | kDBLockFile
  | kTableFile
  | kDescriptorFile
  | kCurrentFile
  | kTempFile
  | kInfoLogFile

text \<open>The conversion \<^verbatim>\<open>%06llu\<close>.\<close>

definition decimal6 :: "nat \<Rightarrow> string" where
  "decimal6 n = replicate (6 - length (decimal n)) (CHR ''0'') @ decimal n"

definition MakeFileName :: "string \<Rightarrow> u64 \<Rightarrow> string \<Rightarrow> string" where
  "MakeFileName dbname num suffix = dbname @ ''/'' @ decimal6 (unat num) @ ''.'' @ suffix"

definition LogFileName :: "string \<Rightarrow> u64 \<Rightarrow> string" where
  "LogFileName dbname num = MakeFileName dbname num ''log''"

definition TableFileName :: "string \<Rightarrow> u64 \<Rightarrow> string" where
  "TableFileName dbname num = MakeFileName dbname num ''ldb''"

definition SSTTableFileName :: "string \<Rightarrow> u64 \<Rightarrow> string" where
  "SSTTableFileName dbname num = MakeFileName dbname num ''sst''"

definition DescriptorFileName :: "string \<Rightarrow> u64 \<Rightarrow> string" where
  "DescriptorFileName dbname num = dbname @ ''/MANIFEST-'' @ decimal6 (unat num)"

definition CurrentFileName :: "string \<Rightarrow> string" where
  "CurrentFileName dbname = dbname @ ''/CURRENT''"

definition LockFileName :: "string \<Rightarrow> string" where
  "LockFileName dbname = dbname @ ''/LOCK''"

definition TempFileName :: "string \<Rightarrow> u64 \<Rightarrow> string" where
  "TempFileName dbname num = MakeFileName dbname num ''dbtmp''"

definition InfoLogFileName :: "string \<Rightarrow> string" where
  "InfoLogFileName dbname = dbname @ ''/LOG''"

definition OldInfoLogFileName :: "string \<Rightarrow> string" where
  "OldInfoLogFileName dbname = dbname @ ''/LOG.old''"

definition ParseFileName :: "string \<Rightarrow> (u64 \<times> FileType) option" where
  "ParseFileName filename =
     (let rest = filename in
      if rest = ''CURRENT'' then Some (0, kCurrentFile)
      else if rest = ''LOCK'' then Some (0, kDBLockFile)
      else if rest = ''LOG'' \<or> rest = ''LOG.old'' then Some (0, kInfoLogFile)
      else if take 9 rest = ''MANIFEST-'' then
        (case ConsumeDecimalNumber (drop 9 rest) of
           None \<Rightarrow> None
         | Some (num, rest) \<Rightarrow> if rest \<noteq> [] then None else Some (num, kDescriptorFile))
      else
        (case ConsumeDecimalNumber rest of
           None \<Rightarrow> None
         | Some (num, suffix) \<Rightarrow>
             if suffix = ''.log'' then Some (num, kLogFile)
             else if suffix = ''.sst'' \<or> suffix = ''.ldb'' then Some (num, kTableFile)
             else if suffix = ''.dbtmp'' then Some (num, kTempFile)
             else None))"

section \<open>Whole files\<close>

text \<open>Writing a file of the in-memory environment; \<open>None\<close> is the dereference of a null pointer. Its
  \<^verbatim>\<open>Append\<close>, \<^verbatim>\<open>Sync\<close> and \<^verbatim>\<open>Close\<close> are those of the writable file, and deleting it drops its reference.\<close>

definition DoWriteStringToFile ::
  "InMemoryEnv \<Rightarrow> bytes \<Rightarrow> string \<Rightarrow> bool \<Rightarrow> (status \<times> InMemoryEnv) option" where
  "DoWriteStringToFile e data fname should_sync =
     (case NewWritableFile e fname of
        None \<Rightarrow> None
      | Some (s, a, e) \<Rightarrow>
          if \<not> status_ok s then Some (s, e)
          else
            (case file_store e a of
               None \<Rightarrow> None
             | Some f \<Rightarrow>
                 let (s, f) = WAppend mem_WritableFile f data;
                     (s, f) = (if status_ok s \<and> should_sync then WSync mem_WritableFile f else (s, f));
                     (s, f) = (if status_ok s then WClose mem_WritableFile f else (s, f));
                     e = env_unref a (env_update a (\<lambda>_. f) e)
                 in if \<not> status_ok s then map_option (\<lambda>(_, e). (s, e)) (RemoveFile e fname)
                    else Some (s, e)))"

definition WriteStringToFile :: "InMemoryEnv \<Rightarrow> bytes \<Rightarrow> string \<Rightarrow> (status \<times> InMemoryEnv) option" where
  "WriteStringToFile e data fname = DoWriteStringToFile e data fname False"

definition WriteStringToFileSync :: "InMemoryEnv \<Rightarrow> bytes \<Rightarrow> string \<Rightarrow> (status \<times> InMemoryEnv) option" where
  "WriteStringToFileSync e data fname = DoWriteStringToFile e data fname True"

partial_function (option) ReadFile_loop :: "'f SequentialFile \<Rightarrow> 'f \<Rightarrow> bytes \<Rightarrow> (status \<times> bytes) option" where
  "ReadFile_loop sops f data =
     (case SeqRead sops f 8192 of
        (s, fragment, f) \<Rightarrow>
          if \<not> status_ok s then Some (s, data)
          else if fragment = [] then Some (s, data @ fragment)
          else ReadFile_loop sops f (data @ fragment))"

definition ReadFileToString :: "InMemoryEnv \<Rightarrow> string \<Rightarrow> (status \<times> bytes \<times> InMemoryEnv) option" where
  "ReadFileToString e fname =
     (case NewSequentialFile e fname of
        None \<Rightarrow> None
      | Some (s, p, e) \<Rightarrow>
          (case p of
             None \<Rightarrow> Some (s, [], e)
           | Some a \<Rightarrow>
               (case file_store e a of
                  None \<Rightarrow> None
                | Some f \<Rightarrow>
                    map_option (\<lambda>(s, data). (s, data, env_unref a e))
                      (ReadFile_loop mem_SequentialFile \<lparr>sq_file = f, sq_pos = 0\<rparr> []))))"

definition SetCurrentFile :: "InMemoryEnv \<Rightarrow> string \<Rightarrow> u64 \<Rightarrow> (status \<times> InMemoryEnv) option" where
  "SetCurrentFile e dbname descriptor_number =
     (let manifest = DescriptorFileName dbname descriptor_number;
          contents = drop (length dbname + 1) manifest;
          tmp = TempFileName dbname descriptor_number
      in case WriteStringToFileSync e (string_bytes (contents @ [CHR 0x0A])) tmp of
           None \<Rightarrow> None
         | Some (s, e) \<Rightarrow>
             (case (if status_ok s then RenameFile e tmp (CurrentFileName dbname) else Some (s, e)) of
                None \<Rightarrow> None
              | Some (s, e) \<Rightarrow>
                  if \<not> status_ok s then map_option (\<lambda>(_, e). (s, e)) (RemoveFile e tmp) else Some (s, e)))"

section \<open>Decimal numbers\<close>

definition digit_char :: "char \<Rightarrow> bool" where
  "digit_char c \<longleftrightarrow> 48 \<le> (of_char c :: nat) \<and> (of_char c :: nat) \<le> 57"

definition digits_value :: "string \<Rightarrow> nat" where
  "digits_value ds = foldl (\<lambda>v c. v * 10 + (of_char c - 48)) 0 ds"

lemma foldl_digits_mono: "v \<le> foldl (\<lambda>v c. v * 10 + (of_char c - 48)) (v :: nat) ds"
proof (induction ds arbitrary: v)
  case (Cons c ds)
  have "v \<le> v * 10 + (of_char c - 48)" by simp
  also have "\<dots> \<le> foldl (\<lambda>v c. v * 10 + (of_char c - 48)) (v * 10 + (of_char c - 48)) ds" by (rule Cons.IH)
  finally show ?case by simp
qed simp

lemma overflow_check:
  assumes "48 \<le> d" and "d \<le> (57 :: nat)"
  shows "(kMaxUint64 div 10 < v \<or> v = kMaxUint64 div 10 \<and> kLastDigitOfMaxUint64 < d) \<longleftrightarrow>
    2 ^ 64 \<le> unat v * 10 + (d - 48)"
proof -
  have "unat kMaxUint64 = 18446744073709551615" by (simp add: kMaxUint64_def)
  then have "unat (kMaxUint64 div 10) = 1844674407370955161" "kLastDigitOfMaxUint64 = 53"
    by (simp_all add: unat_div kLastDigitOfMaxUint64_def)
  moreover have "v = kMaxUint64 div 10 \<longleftrightarrow> unat v = unat (kMaxUint64 div 10)" by (metis word_eq_unatI)
  ultimately show ?thesis using assms by (auto simp: word_less_nat_alt)
qed

lemma ConsumeDecimal_loop_digits:
  assumes "list_all digit_char ds" and "rest = [] \<or> \<not> digit_char (hd rest)"
  shows "ConsumeDecimal_loop v (ds @ rest) =
    (let n = foldl (\<lambda>v c. v * 10 + (of_char c - 48)) (unat v) ds in
     if n < 2 ^ 64 then Some (word_of_nat n, rest) else None)"
  using assms(1)
proof (induction ds arbitrary: v)
  case Nil
  then show ?case
    using assms(2) unsigned_less [of v, where ?'a = nat] by (cases rest) (auto simp: digit_char_def Let_def not_le)
next
  case (Cons c ds)
  let ?d = "of_char c :: nat"
  have c: "48 \<le> ?d" "?d \<le> 57" using Cons.prems by (simp_all add: digit_char_def)
  show ?case
  proof (cases "unat v * 10 + (?d - 48) < 2 ^ 64")
    case True
    then have "unat (v * 10 + word_of_nat (?d - 48)) = unat v * 10 + (?d - 48)"
      by (simp add: unat_word_ariths unat_of_nat_small)
    moreover have "ConsumeDecimal_loop v ((c # ds) @ rest) = ConsumeDecimal_loop (v * 10 + word_of_nat (?d - 48)) (ds @ rest)"
      using True c overflow_check [OF c, of v] unfolding append_Cons ConsumeDecimal_loop.simps Let_def
      by (simp only: not_less [symmetric] simp_thms if_False)
    ultimately show ?thesis
      using Cons by (simp only: foldl_Cons list.pred_inject simp_thms)
  next
    case False
    then have "\<not> foldl (\<lambda>v c. v * 10 + (of_char c - 48)) (unat v * 10 + (?d - 48)) ds < 2 ^ 64"
      using foldl_digits_mono [of "unat v * 10 + (?d - 48)" ds] by linarith
    then show ?thesis
      using False c overflow_check [OF c, of v] by (simp add: Let_def)
  qed
qed

lemma of_char_decimal_digit: "d < 10 \<Longrightarrow> of_char (decimal_digit d) = 48 + d"
  by (simp add: decimal_digit_def)

lemma decimal_digits: "list_all digit_char (decimal n)"
proof (induction n rule: decimal.induct)
  case (1 n)
  then show ?case
    using of_char_decimal_digit [of n] of_char_decimal_digit [of "n mod 10"]
    by (subst decimal.simps) (auto simp: digit_char_def [abs_def])
qed

lemma digits_value_decimal: "digits_value (decimal n) = n"
proof (induction n rule: decimal.induct)
  case (1 n)
  then show ?case
    using of_char_decimal_digit [of n] of_char_decimal_digit [of "n mod 10"]
    by (subst decimal.simps) (auto simp: digits_value_def)
qed

lemma decimal6_digits: "list_all digit_char (decimal6 n)" and digits_value_decimal6: "digits_value (decimal6 n) = n"
proof -
  show "list_all digit_char (decimal6 n)"
    using decimal_digits [of n] by (auto simp: decimal6_def list_all_iff digit_char_def)
  have "foldl (\<lambda>v c. v * 10 + (of_char c - 48)) 0 (replicate k (CHR ''0'')) = (0 :: nat)" for k
    by (induction k) simp_all
  then show "digits_value (decimal6 n) = n"
    using digits_value_decimal [of n] by (simp add: decimal6_def digits_value_def)
qed

lemma decimal_not_Nil [simp]: "decimal n \<noteq> []"
  by (subst decimal.simps) simp

lemma decimal6_not_Nil [simp]: "decimal6 n \<noteq> []"
  by (simp add: decimal6_def)

lemma ConsumeDecimalNumber_digits:
  assumes "list_all digit_char ds" and "rest = [] \<or> \<not> digit_char (hd rest)"
  shows "ConsumeDecimalNumber (ds @ rest) =
    (if ds \<noteq> [] \<and> digits_value ds < 2 ^ 64 then Some (word_of_nat (digits_value ds), rest) else None)"
  using ConsumeDecimal_loop_digits [OF assms, of 0]
  by (auto simp: ConsumeDecimalNumber_def digits_value_def Let_def)

lemma ConsumeDecimalNumber_decimal6:
  "rest = [] \<or> \<not> digit_char (hd rest) \<Longrightarrow> ConsumeDecimalNumber (decimal6 (unat num) @ rest) = Some (num, rest)"
  using unsigned_less [of num, where ?'a = nat]
  by (subst ConsumeDecimalNumber_digits) (simp_all add: decimal6_digits digits_value_decimal6)

lemma decimal6_first: "decimal6 n = c # cs \<Longrightarrow> digit_char c"
  using decimal6_digits [of n] by simp

lemma ParseFileName_numbered:
  assumes "\<not> digit_char (hd suffix)" and "suffix \<noteq> []"
  shows "ParseFileName (decimal6 (unat num) @ suffix) =
    (if suffix = ''.log'' then Some (num, kLogFile)
     else if suffix = ''.sst'' \<or> suffix = ''.ldb'' then Some (num, kTableFile)
     else if suffix = ''.dbtmp'' then Some (num, kTempFile) else None)"
proof -
  obtain c cs where c: "decimal6 (unat num) = c # cs" by (cases "decimal6 (unat num)") auto
  have "c \<noteq> CHR ''C'' \<and> c \<noteq> CHR ''L'' \<and> c \<noteq> CHR ''M''"
    using decimal6_first [OF c] by (auto simp: digit_char_def)
  then show ?thesis
    using ConsumeDecimalNumber_decimal6 [of suffix num] assms by (simp add: ParseFileName_def c)
qed

text \<open>C23. \<^verbatim>\<open>ConsumeDecimalNumber\<close> accepts a run of digits exactly when it is not empty and its value
  fits into 64 bits; it then returns this value and leaves what follows the digits.\<close>

theorem consume_decimal_number_exact:
  assumes "list_all digit_char ds" and "rest = [] \<or> \<not> digit_char (hd rest)"
  shows "ConsumeDecimalNumber (ds @ rest) =
    (if ds \<noteq> [] \<and> digits_value ds < 2 ^ 64 then Some (word_of_nat (digits_value ds), rest) else None)"
  by (rule ConsumeDecimalNumber_digits [OF assms])

theorem consume_decimal_number_exact_witness:
  "ConsumeDecimalNumber (''18446744073709551616'' @ ''x'') = None \<and>
   ConsumeDecimalNumber (''18446744073709551615'' @ ''x'') = Some (18446744073709551615, ''x'')"
  using consume_decimal_number_exact [of "''18446744073709551616''" "''x''"]
    consume_decimal_number_exact [of "''18446744073709551615''" "''x''"]
  by (simp add: digit_char_def digits_value_def)

text \<open>C22. Every file name the database makes is recognised when the directory is listed: the name
  after the database's directory parses to the number and the type it was made for.\<close>

theorem file_names_parse:
  "ParseFileName (drop (length dbname + 1) (LogFileName dbname num)) = Some (num, kLogFile) \<and>
   ParseFileName (drop (length dbname + 1) (TableFileName dbname num)) = Some (num, kTableFile) \<and>
   ParseFileName (drop (length dbname + 1) (SSTTableFileName dbname num)) = Some (num, kTableFile) \<and>
   ParseFileName (drop (length dbname + 1) (TempFileName dbname num)) = Some (num, kTempFile) \<and>
   ParseFileName (drop (length dbname + 1) (DescriptorFileName dbname num)) = Some (num, kDescriptorFile) \<and>
   ParseFileName (drop (length dbname + 1) (CurrentFileName dbname)) = Some (0, kCurrentFile) \<and>
   ParseFileName (drop (length dbname + 1) (LockFileName dbname)) = Some (0, kDBLockFile) \<and>
   ParseFileName (drop (length dbname + 1) (InfoLogFileName dbname)) = Some (0, kInfoLogFile) \<and>
   ParseFileName (drop (length dbname + 1) (OldInfoLogFileName dbname)) = Some (0, kInfoLogFile)"
proof -
  have "ParseFileName (''MANIFEST-'' @ decimal6 (unat num)) = Some (num, kDescriptorFile)"
    using ConsumeDecimalNumber_decimal6 [of "[]" num] by (simp add: ParseFileName_def)
  then show ?thesis
    unfolding LogFileName_def TableFileName_def SSTTableFileName_def TempFileName_def DescriptorFileName_def
      CurrentFileName_def LockFileName_def InfoLogFileName_def OldInfoLogFileName_def MakeFileName_def
    by (simp add: ParseFileName_numbered digit_char_def) (simp add: ParseFileName_def)
qed

section \<open>Whole files\<close>

context sequential_file
begin

lemma ReadFile_loop_all:
  assumes "seq_ok f"
  shows "ReadFile_loop seq_ops f data = Some (OK, data @ left_of f)"
  using assms
proof (induction "length (left_of f)" arbitrary: f data rule: less_induct)
  case less
  obtain f' where f': "SeqRead seq_ops f 8192 = (OK, take 8192 (left_of f), f')" "seq_ok f'"
    "left_of f' = drop 8192 (left_of f)"
    using seq_read [OF less.prems, of 8192] by blast
  show ?case
  proof (cases "left_of f = []")
    case True
    then show ?thesis using f'(1) by (subst ReadFile_loop.simps) simp
  next
    case False
    then have "ReadFile_loop seq_ops f' (data @ take 8192 (left_of f)) =
        Some (OK, (data @ take 8192 (left_of f)) @ left_of f')"
      using f' by (intro less.hyps) simp_all
    then show ?thesis using f' False by (subst ReadFile_loop.simps) simp
  qed
qed

end

lemma env_set_file:
  assumes ok: "env_ok e" and map: "file_map e fname = Some (Some a)" and f': "fs_ok f'" "0 < fs_refs f'"
  shows "env_ok (e\<lparr>file_store := (file_store e)(a \<mapsto> f')\<rparr>)"
    and "env_file (e\<lparr>file_store := (file_store e)(a \<mapsto> f')\<rparr>) fname = Some (fs_contents f')"
    and "g \<noteq> fname \<Longrightarrow> env_file (e\<lparr>file_store := (file_store e)(a \<mapsto> f')\<rparr>) g = env_file e g"
proof -
  let ?e = "e\<lparr>file_store := (file_store e)(a \<mapsto> f')\<rparr>"
  have a: "a < next_addr e" by (rule env_okE [OF ok map]) simp
  show "env_ok ?e"
  proof (rule env_okI)
    fix h q assume "file_map ?e h = Some q"
    then have h: "file_map e h = Some q" by simp
    obtain b k where "q = Some b" "file_store e b = Some k" "fs_ok k" "0 < fs_refs k" "b < next_addr e"
      by (rule env_okE [OF ok h])
    then show "\<exists>a f. q = Some a \<and> file_store ?e a = Some f \<and> fs_ok f \<and> 0 < fs_refs f \<and> a < next_addr ?e"
      using f' a by simp
  next
    fix m n b assume "file_map ?e m = Some (Some b)" "file_map ?e n = Some (Some b)"
    then show "m = n" using env_ok_inj [OF ok] by simp
  qed
  show "env_file ?e fname = Some (fs_contents f')" using map by (simp add: env_file_def)
  show "env_file ?e g = env_file e g" if "g \<noteq> fname"
    using that env_ok_inj [OF ok, of g a fname] map by (auto simp: env_file_def split: option.splits)
qed

lemma NewWritableFile_handle:
  assumes "env_ok e"
  shows "\<exists>a e1 f. NewWritableFile e fname = Some (OK, a, e1) \<and> env_ok e1 \<and>
    (\<forall>g. g \<noteq> fname \<longrightarrow> env_file e1 g = env_file e g) \<and>
    file_map e1 fname = Some (Some a) \<and> file_store e1 a = Some f \<and> fs_ok f \<and> 1 < fs_refs f \<and> fs_contents f = []"
proof (cases "file_map e fname")
  case None
  obtain a e1 where e1: "NewWritableFile e fname = Some (OK, a, e1)" "env_ok e1" "\<forall>g. g \<noteq> fname \<longrightarrow> env_file e1 g = env_file e g"
    using NewWritableFile_new [OF assms None] by blast
  then have "file_map e1 fname = Some (Some a) \<and> file_store e1 a = Some (FileState_Ref (FileState_Ref new_FileState))"
    using None by (auto simp: NewWritableFile_def env_alloc_def Let_def)
  then show ?thesis using e1 by auto
next
  case (Some p)
  obtain a f where f: "p = Some a" "file_store e a = Some f" "fs_ok f" "0 < fs_refs f" by (rule env_okE [OF assms Some])
  obtain b e1 where e1: "NewWritableFile e fname = Some (OK, b, e1)" "env_ok e1" "\<forall>g. g \<noteq> fname \<longrightarrow> env_file e1 g = env_file e g"
    using NewWritableFile_old [OF assms Some] by blast
  then have "b = a \<and> file_map e1 fname = Some (Some a) \<and> file_store e1 a = Some (FileState_Ref (FileState_Truncate f))"
    using Some f by (auto simp: NewWritableFile_def)
  then show ?thesis using e1 f(4) by auto
qed

lemma env_unref_live:
  assumes "file_store e a = Some f" and "1 < fs_refs f"
  shows "env_unref a e = e\<lparr>file_store := (file_store e)(a \<mapsto> f\<lparr>fs_refs := fs_refs f - 1\<rparr>)\<rparr>"
  using assms by (simp add: env_unref_def FileState_Unref_def Let_def)

lemma fs_ok_refs [simp]: "fs_ok (f\<lparr>fs_refs := n\<rparr>) = fs_ok f" "fs_contents (f\<lparr>fs_refs := n\<rparr>) = fs_contents f"
  by (simp_all add: fs_ok_def fs_contents_def)

lemma FileState_append_refs [simp]: "fs_refs (FileState_append_loop f data) = fs_refs f"
proof (induction f data rule: FileState_append_loop.induct)
  case (1 f data)
  then show ?case by (subst FileState_append_loop.simps) (simp add: Let_def)
qed

lemma DoWriteStringToFile_ok:
  assumes "env_ok e"
  shows "\<exists>e'. DoWriteStringToFile e data fname should_sync = Some (OK, e') \<and> env_ok e' \<and> FileExists e' fname \<and>
    env_file e' fname = Some data \<and> (\<forall>g. g \<noteq> fname \<longrightarrow> env_file e' g = env_file e g)"
proof -
  obtain a e1 f where e1: "NewWritableFile e fname = Some (OK, a, e1)" "env_ok e1"
    "\<forall>g. g \<noteq> fname \<longrightarrow> env_file e1 g = env_file e g"
    and f: "file_map e1 fname = Some (Some a)" "file_store e1 a = Some f" "fs_ok f" "1 < fs_refs f" "fs_contents f = []"
    using NewWritableFile_handle [OF assms, of fname] by blast
  define f' where "f' = (FileState_append_loop f data)\<lparr>fs_refs := fs_refs f - 1\<rparr>"
  have f': "fs_ok f'" "0 < fs_refs f'" "fs_contents f' = data"
    using f FileState_append_loop_spec [OF f(3), of data] by (simp_all add: f'_def)
  have "DoWriteStringToFile e data fname should_sync = Some (OK, e1\<lparr>file_store := (file_store e1)(a \<mapsto> f')\<rparr>)"
    using e1(1) f(2,4) env_unref_live [of "env_update a (\<lambda>_. FileState_append_loop f data) e1" a "FileState_append_loop f data"]
    by (simp add: DoWriteStringToFile_def mem_WritableFile_def FileState_Append_def f'_def env_update_def)
  then show ?thesis
    using env_set_file [OF e1(2) f(1) f'(1,2)] f'(3) e1(3) f(1) by (auto simp: FileExists_def)
qed

lemma ReadFileToString_ok:
  assumes "env_ok e" and "env_file e fname = Some c"
  shows "ReadFileToString e fname = Some (OK, c, e)"
proof -
  obtain a where map: "file_map e fname = Some (Some a)" using assms(2) by (auto simp: env_file_def split: option.splits)
  obtain f where f: "file_store e a = Some f" "fs_ok f" "0 < fs_refs f" using env_okE [OF assms(1) map] by blast
  then have "fs_contents f = c" using assms(2) map by (simp add: env_file_def)
  then have "ReadFile_loop mem_SequentialFile \<lparr>sq_file = FileState_Ref f, sq_pos = 0\<rparr> [] = Some (OK, c)"
    using f(2) by (subst mem_seq.ReadFile_loop_all) (simp_all add: sq_ok_def sq_left_def)
  moreover have "env_unref a (env_update a FileState_Ref e) = e"
    using f env_unref_live [of "env_update a FileState_Ref e" a "FileState_Ref f"]
    by (simp add: env_update_def) (simp add: FileState_Ref_def fun_upd_idem)
  ultimately show ?thesis
    using map f(1) by (simp add: ReadFileToString_def NewSequentialFile_def)
qed

lemma TempFileName_not_Current: "TempFileName dbname num \<noteq> CurrentFileName dbname"
proof -
  obtain c cs where "decimal6 (unat num) = c # cs" by (cases "decimal6 (unat num)") auto
  then show ?thesis
    using decimal6_first [of "unat num" c cs] by (auto simp: TempFileName_def MakeFileName_def CurrentFileName_def digit_char_def)
qed

text \<open>C21. Switching to a new manifest: \<^verbatim>\<open>SetCurrentFile\<close> succeeds on the in-memory environment; the file
  \<^verbatim>\<open>CURRENT\<close> then reads as the manifest's name and a newline, the temporary file is gone and every other
  file keeps its contents.\<close>

theorem current_file_set_and_read:
  assumes "env_ok e"
  shows "\<exists>e'. SetCurrentFile e dbname num = Some (OK, e') \<and> env_ok e' \<and>
    ReadFileToString e' (CurrentFileName dbname) =
      Some (OK, string_bytes (''MANIFEST-'' @ decimal6 (unat num) @ [CHR 0x0A]), e') \<and>
    \<not> FileExists e' (TempFileName dbname num) \<and>
    (\<forall>g. g \<noteq> TempFileName dbname num \<longrightarrow> g \<noteq> CurrentFileName dbname \<longrightarrow> env_file e' g = env_file e g)"
proof -
  let ?data = "string_bytes (''MANIFEST-'' @ decimal6 (unat num) @ [CHR 0x0A])"
  obtain e1 where e1: "DoWriteStringToFile e ?data (TempFileName dbname num) True = Some (OK, e1)" "env_ok e1"
    "FileExists e1 (TempFileName dbname num)" "env_file e1 (TempFileName dbname num) = Some ?data"
    "\<forall>g. g \<noteq> TempFileName dbname num \<longrightarrow> env_file e1 g = env_file e g"
    using DoWriteStringToFile_ok [OF assms] by blast
  obtain p where "file_map e1 (TempFileName dbname num) = Some p" using e1(3) by (auto simp: FileExists_def)
  from RenameFile_ok [OF e1(2) TempFileName_not_Current this] e1(4)
  obtain e2 where e2: "RenameFile e1 (TempFileName dbname num) (CurrentFileName dbname) = Some (OK, e2)" "env_ok e2"
    "env_file e2 (CurrentFileName dbname) = Some ?data" "file_map e2 (TempFileName dbname num) = None"
    "\<forall>g. g \<noteq> TempFileName dbname num \<longrightarrow> g \<noteq> CurrentFileName dbname \<longrightarrow> env_file e2 g = env_file e1 g"
    by auto
  have "SetCurrentFile e dbname num = Some (OK, e2)"
    using e1(1) e2(1) by (simp add: SetCurrentFile_def WriteStringToFileSync_def DescriptorFileName_def)
  then show ?thesis
    using e2 e1(5) ReadFileToString_ok [OF e2(2,3)] by (auto simp: FileExists_def)
qed

theorem current_file_set_and_read_witness:
  "\<exists>e'. SetCurrentFile example_env ''db'' 7 = Some (OK, e') \<and>
    ReadFileToString e' (CurrentFileName ''db'') =
      Some (OK, string_bytes (''MANIFEST-'' @ decimal6 (unat (7 :: u64)) @ [CHR 0x0A]), e')"
  using current_file_set_and_read [OF example_env_ok, of "''db''" 7] by blast

end
