(* ===== verification/Iterators.thy ===== *)
theory Iterators
  imports Comparators
begin

text \<open>
  The iterator interface (include/leveldb/iterator.h, table/iterator.cc) and the caching wrapper around
  it (table/iterator_wrapper.h). An iterator is a state and a record of operations on it; an operation
  that moves returns the new state, or \<open>None\<close> when it does not return. The locale \<^verbatim>\<open>cursor\<close> is the
  contract: the state stands at a position of a sorted list of entries, and every operation moves it as
  the interface promises. The position past the last entry is the one where \<^verbatim>\<open>Valid\<close> is false. Blocks,
  memtables, and the merging and two-level iterators provide it; the merging and two-level iterators
  also rely on it.
\<close>

section \<open>The interface\<close>

type_synonym entries = "(bytes \<times> bytes) list"

record 'i Iterator =
  It_Valid :: "'i \<Rightarrow> bool"
  It_SeekToFirst :: "'i \<Rightarrow> 'i option"
  It_SeekToLast :: "'i \<Rightarrow> 'i option"
  It_Seek :: "bytes \<Rightarrow> 'i \<Rightarrow> 'i option"
  It_Next :: "'i \<Rightarrow> 'i option"
  It_Prev :: "'i \<Rightarrow> 'i option"
  It_key :: "'i \<Rightarrow> bytes"
  It_value :: "'i \<Rightarrow> bytes"
  It_status :: "'i \<Rightarrow> status"

text \<open>The cleanup functions of an iterator, in the order its destructor runs them.\<close>

fun RegisterCleanup :: "'c \<Rightarrow> 'c list \<Rightarrow> 'c list" where
  "RegisterCleanup f [] = [f]"
| "RegisterCleanup f (head # rest) = head # f # rest"

definition EmptyIterator :: "status Iterator" where
  "EmptyIterator =
     \<lparr>It_Valid = \<lambda>s. False, It_SeekToFirst = Some, It_SeekToLast = Some, It_Seek = \<lambda>target. Some,
      It_Next = \<lambda>s. None, It_Prev = \<lambda>s. None, It_key = \<lambda>s. [], It_value = \<lambda>s. [], It_status = \<lambda>s. s\<rparr>"

definition NewEmptyIterator :: status where "NewEmptyIterator = OK"

definition NewErrorIterator :: "status \<Rightarrow> status" where "NewErrorIterator s = s"

text \<open>
  A factory returns one of its own iterators or an empty one; the operations dispatch on the object.
  \<open>NoIter\<close> is what a factory leaves that has read outside of its memory: no move of it returns.
\<close>

datatype 'i any_iterator = EmptyIter status | Iter 'i | NoIter

definition any_move :: "(status \<Rightarrow> status option) \<Rightarrow> ('i \<Rightarrow> 'i option) \<Rightarrow> 'i any_iterator \<Rightarrow> 'i any_iterator option" where
  "any_move f g it = (case it of EmptyIter s \<Rightarrow> map_option EmptyIter (f s) | Iter i \<Rightarrow> map_option Iter (g i) | NoIter \<Rightarrow> None)"

definition AnyOps :: "'i Iterator \<Rightarrow> 'i any_iterator Iterator" where
  "AnyOps ops =
     \<lparr>It_Valid = case_any_iterator (It_Valid EmptyIterator) (It_Valid ops) False,
      It_SeekToFirst = any_move (It_SeekToFirst EmptyIterator) (It_SeekToFirst ops),
      It_SeekToLast = any_move (It_SeekToLast EmptyIterator) (It_SeekToLast ops),
      It_Seek = \<lambda>k. any_move (It_Seek EmptyIterator k) (It_Seek ops k),
      It_Next = any_move (It_Next EmptyIterator) (It_Next ops),
      It_Prev = any_move (It_Prev EmptyIterator) (It_Prev ops),
      It_key = case_any_iterator (It_key EmptyIterator) (It_key ops) [],
      It_value = case_any_iterator (It_value EmptyIterator) (It_value ops) [],
      It_status = case_any_iterator (It_status EmptyIterator) (It_status ops) OK\<rparr>"

section \<open>The wrapper\<close>

record 'i IteratorWrapper =
  iw_iter :: "'i option"
  iw_valid :: bool
  iw_key :: bytes

definition IW_Update :: "'i Iterator \<Rightarrow> 'i \<Rightarrow> 'i IteratorWrapper \<Rightarrow> 'i IteratorWrapper" where
  "IW_Update ops it w =
     (let w = w\<lparr>iw_iter := Some it, iw_valid := It_Valid ops it\<rparr>
      in if iw_valid w then w\<lparr>iw_key := It_key ops it\<rparr> else w)"

definition make_IteratorWrapper :: "'i IteratorWrapper" where
  "make_IteratorWrapper = \<lparr>iw_iter = None, iw_valid = False, iw_key = []\<rparr>"

definition IW_Set :: "'i Iterator \<Rightarrow> 'i option \<Rightarrow> 'i IteratorWrapper \<Rightarrow> 'i IteratorWrapper" where
  "IW_Set ops p w = (case p of None \<Rightarrow> w\<lparr>iw_iter := None, iw_valid := False\<rparr> | Some it \<Rightarrow> IW_Update ops it w)"

text \<open>A move of the wrapped iterator; without one the code dereferences null.\<close>

definition IW_move :: "'i Iterator \<Rightarrow> ('i \<Rightarrow> 'i option) \<Rightarrow> 'i IteratorWrapper \<Rightarrow> 'i IteratorWrapper option" where
  "IW_move ops f w =
     (case iw_iter w of None \<Rightarrow> None | Some it \<Rightarrow> map_option (\<lambda>it. IW_Update ops it w) (f it))"

definition IW_value :: "'i Iterator \<Rightarrow> 'i IteratorWrapper \<Rightarrow> bytes" where
  "IW_value ops w = It_value ops (the (iw_iter w))"

definition IW_status :: "'i Iterator \<Rightarrow> 'i IteratorWrapper \<Rightarrow> status" where
  "IW_status ops w = It_status ops (the (iw_iter w))"

definition WrapperOps :: "'i Iterator \<Rightarrow> 'i IteratorWrapper Iterator" where
  "WrapperOps ops =
     \<lparr>It_Valid = iw_valid, It_SeekToFirst = IW_move ops (It_SeekToFirst ops),
      It_SeekToLast = IW_move ops (It_SeekToLast ops), It_Seek = \<lambda>k. IW_move ops (It_Seek ops k),
      It_Next = IW_move ops (It_Next ops), It_Prev = IW_move ops (It_Prev ops), It_key = iw_key,
      It_value = IW_value ops, It_status = IW_status ops\<rparr>"

section \<open>The contract\<close>

definition sorted_entries :: "('k \<Rightarrow> 'k \<Rightarrow> int) \<Rightarrow> ('k \<Rightarrow> bool) \<Rightarrow> ('k \<times> 'v) list \<Rightarrow> bool" where
  "sorted_entries compare key_ok es \<longleftrightarrow>
     (\<forall>e \<in> set es. key_ok (fst e)) \<and> sorted_wrt (\<lambda>a b. compare (fst a) (fst b) < 0) es"

definition seek_pos :: "('k \<Rightarrow> 'k \<Rightarrow> int) \<Rightarrow> 'k \<Rightarrow> ('k \<times> 'v) list \<Rightarrow> nat" where
  "seek_pos compare k es = length (takeWhile (\<lambda>e. compare (fst e) k < 0) es)"

locale cursor = three_way compare key_ok for compare :: "bytes \<Rightarrow> bytes \<Rightarrow> int" and key_ok :: "bytes \<Rightarrow> bool" +
  fixes ops :: "'i Iterator"
    and at :: "'i \<Rightarrow> entries \<Rightarrow> nat \<Rightarrow> bool"
  assumes at_bound: "at it es n \<Longrightarrow> n \<le> length es"
    and at_sorted: "at it es n \<Longrightarrow> sorted_entries compare key_ok es"
    and at_valid: "at it es n \<Longrightarrow> It_Valid ops it \<longleftrightarrow> n < length es"
    and at_key: "at it es n \<Longrightarrow> n < length es \<Longrightarrow> It_key ops it = fst (es ! n)"
    and at_value: "at it es n \<Longrightarrow> n < length es \<Longrightarrow> It_value ops it = snd (es ! n)"
    and at_status: "at it es n \<Longrightarrow> It_status ops it = OK"
    and at_first: "at it es n \<Longrightarrow> \<exists>it'. It_SeekToFirst ops it = Some it' \<and> at it' es 0"
    and at_last: "at it es n \<Longrightarrow> \<exists>it'. It_SeekToLast ops it = Some it' \<and> at it' es (length es - 1)"
    and at_next: "at it es n \<Longrightarrow> n < length es \<Longrightarrow> \<exists>it'. It_Next ops it = Some it' \<and> at it' es (Suc n)"
    and at_prev: "at it es n \<Longrightarrow> n < length es \<Longrightarrow>
      \<exists>it'. It_Prev ops it = Some it' \<and> at it' es (if n = 0 then length es else n - 1)"
    and at_seek: "at it es n \<Longrightarrow> key_ok k \<Longrightarrow> \<exists>it'. It_Seek ops k it = Some it' \<and> at it' es (seek_pos compare k es)"

text \<open>Reading an iterator to its end.\<close>

partial_function (option) collect :: "'i Iterator \<Rightarrow> 'i \<Rightarrow> entries \<Rightarrow> entries option" where
  "collect ops it acc =
     (if It_Valid ops it
      then Option.bind (It_Next ops it) (\<lambda>it'. collect ops it' (acc @ [(It_key ops it, It_value ops it)]))
      else Some acc)"

context cursor
begin

lemma collect_at: "at it es n \<Longrightarrow> collect ops it acc = Some (acc @ drop n es)"
proof (induction "length es - n" arbitrary: it n acc)
  case 0
  then show ?case using at_bound [OF 0(2)] at_valid [OF 0(2)] by (subst collect.simps) simp
next
  case (Suc d)
  then have n: "n < length es" by simp
  obtain it' where it': "It_Next ops it = Some it'" "at it' es (Suc n)" using at_next [OF Suc.prems n] by blast
  have "collect ops it' (acc @ [es ! n]) = Some ((acc @ [es ! n]) @ drop (Suc n) es)"
    using Suc by (intro Suc.hyps(1) [OF _ it'(2)]) simp
  then show ?case
    using n it'(1) at_valid [OF Suc.prems] at_key [OF Suc.prems n] at_value [OF Suc.prems n] Cons_nth_drop_Suc [OF n]
    by (subst collect.simps) simp
qed

end

section \<open>Sorted lists of entries\<close>

lemma seek_pos_le: "seek_pos compare k es \<le> length es"
  by (simp add: seek_pos_def length_takeWhile_le)

lemma seek_pos_less: "i < seek_pos compare k es \<Longrightarrow> compare (fst (es ! i)) k < 0"
proof -
  let ?p = "\<lambda>e. compare (fst e) k < 0"
  assume i: "i < seek_pos compare k es"
  then have "takeWhile ?p es ! i \<in> set (takeWhile ?p es)" by (simp add: seek_pos_def)
  then show "compare (fst (es ! i)) k < 0"
    using takeWhile_nth [of i ?p es] i by (auto simp: seek_pos_def dest: set_takeWhileD)
qed

lemma seek_pos_at: "seek_pos compare k es < length es \<Longrightarrow> \<not> compare (fst (es ! seek_pos compare k es)) k < 0"
  unfolding seek_pos_def by (rule nth_length_takeWhile)

context three_way
begin

lemma sorted_entries_nth:
  "sorted_entries compare key_ok es \<Longrightarrow> i < j \<Longrightarrow> j < length es \<Longrightarrow> compare (fst (es ! i)) (fst (es ! j)) < 0"
  by (auto simp: sorted_entries_def sorted_wrt_iff_nth_less)

lemma sorted_entries_ok: "sorted_entries compare key_ok es \<Longrightarrow> i < length es \<Longrightarrow> key_ok (fst (es ! i))"
  by (auto simp: sorted_entries_def)

lemma seek_pos_ge:
  assumes "sorted_entries compare key_ok es" and "key_ok k" and "seek_pos compare k es \<le> i" and "i < length es"
  shows "\<not> compare (fst (es ! i)) k < 0"
proof
  let ?n = "seek_pos compare k es"
  assume less: "compare (fst (es ! i)) k < 0"
  have n: "\<not> compare (fst (es ! ?n)) k < 0" by (rule seek_pos_at) (use assms in linarith)
  then have "?n < i" using less assms(3) by (cases "?n = i") auto
  then show False
    using compare_less_trans [OF sorted_entries_ok sorted_entries_ok assms(2) sorted_entries_nth less] n assms
    by (metis less_trans)
qed

lemma seek_posI:
  assumes "sorted_entries compare key_ok es" and "key_ok k" and "n \<le> length es"
    and "\<And>i. i < n \<Longrightarrow> compare (fst (es ! i)) k < 0" and "n < length es \<Longrightarrow> \<not> compare (fst (es ! n)) k < 0"
  shows "seek_pos compare k es = n"
proof (rule linorder_cases [of "seek_pos compare k es" n])
  assume "seek_pos compare k es < n"
  then show ?thesis using assms(4) [of "seek_pos compare k es"] seek_pos_at [of compare k es] assms(3) by auto
next
  assume "n < seek_pos compare k es"
  then show ?thesis using assms(5) seek_pos_less [of n compare k es] seek_pos_le [of compare k es] by auto
qed

end

section \<open>A wrapped cursor is a cursor\<close>

definition wrapped_at :: "'i Iterator \<Rightarrow> ('i \<Rightarrow> entries \<Rightarrow> nat \<Rightarrow> bool) \<Rightarrow> 'i IteratorWrapper \<Rightarrow> entries \<Rightarrow> nat \<Rightarrow> bool" where
  "wrapped_at ops at w es n \<longleftrightarrow>
     (\<exists>it. iw_iter w = Some it \<and> at it es n \<and> iw_valid w = It_Valid ops it \<and> (iw_valid w \<longrightarrow> iw_key w = It_key ops it))"

lemma wrapped_at_Update: "at it es n \<Longrightarrow> wrapped_at ops at (IW_Update ops it w) es n"
  by (auto simp: wrapped_at_def IW_Update_def Let_def)

lemma wrapped_move:
  assumes "wrapped_at ops at w es n" and "\<And>it. at it es n \<Longrightarrow> \<exists>it'. f it = Some it' \<and> at it' es m"
  shows "\<exists>w'. IW_move ops f w = Some w' \<and> wrapped_at ops at w' es m"
proof -
  obtain it where it: "iw_iter w = Some it" "at it es n" using assms(1) by (auto simp: wrapped_at_def)
  then obtain it' where "f it = Some it'" "at it' es m" using assms(2) by blast
  then show ?thesis using it(1) by (auto simp: IW_move_def intro: wrapped_at_Update)
qed

context cursor
begin

lemma wrapper_cursor: "cursor compare key_ok (WrapperOps ops) (wrapped_at ops at)"
proof
  fix w es n assume w: "wrapped_at ops at w es n"
  then obtain it where it: "iw_iter w = Some it" "at it es n" "iw_valid w = It_Valid ops it" "iw_valid w \<longrightarrow> iw_key w = It_key ops it"
    by (auto simp: wrapped_at_def)
  show "n \<le> length es" by (rule at_bound [OF it(2)])
  show "sorted_entries compare key_ok es" by (rule at_sorted [OF it(2)])
  show "It_Valid (WrapperOps ops) w \<longleftrightarrow> n < length es" using at_valid [OF it(2)] it(3) by (simp add: WrapperOps_def)
  show "It_status (WrapperOps ops) w = OK" using at_status [OF it(2)] it(1) by (simp add: WrapperOps_def IW_status_def)
  show "\<exists>w'. It_SeekToFirst (WrapperOps ops) w = Some w' \<and> wrapped_at ops at w' es 0"
    using wrapped_move [OF w at_first] by (simp add: WrapperOps_def)
  show "\<exists>w'. It_SeekToLast (WrapperOps ops) w = Some w' \<and> wrapped_at ops at w' es (length es - 1)"
    using wrapped_move [OF w at_last] by (simp add: WrapperOps_def)
  show "\<exists>w'. It_Seek (WrapperOps ops) k w = Some w' \<and> wrapped_at ops at w' es (seek_pos compare k es)" if "key_ok k" for k
    using wrapped_move [OF w at_seek [OF _ that]] by (simp add: WrapperOps_def)
  assume n: "n < length es"
  then show "It_key (WrapperOps ops) w = fst (es ! n)" "It_value (WrapperOps ops) w = snd (es ! n)"
    using at_valid [OF it(2)] at_key [OF it(2)] at_value [OF it(2)] it by (simp_all add: WrapperOps_def IW_value_def)
  show "\<exists>w'. It_Next (WrapperOps ops) w = Some w' \<and> wrapped_at ops at w' es (Suc n)"
    using wrapped_move [OF w at_next] n by (simp add: WrapperOps_def)
  show "\<exists>w'. It_Prev (WrapperOps ops) w = Some w' \<and> wrapped_at ops at w' es (if n = 0 then length es else n - 1)"
    using wrapped_move [OF w at_prev] n by (simp add: WrapperOps_def)
qed

end

section \<open>Empty iterators\<close>

definition any_at :: "('i \<Rightarrow> entries \<Rightarrow> nat \<Rightarrow> bool) \<Rightarrow> 'i any_iterator \<Rightarrow> entries \<Rightarrow> nat \<Rightarrow> bool" where
  "any_at at it es n \<longleftrightarrow> (case it of EmptyIter s \<Rightarrow> s = NewEmptyIterator \<and> es = [] \<and> n = 0 | Iter i \<Rightarrow> at i es n | NoIter \<Rightarrow> False)"

lemma any_move_at:
  assumes "any_at at it es n"
    and "\<And>s. s = NewEmptyIterator \<Longrightarrow> es = [] \<Longrightarrow> n = 0 \<Longrightarrow> f s = Some NewEmptyIterator \<and> k = 0"
    and "\<And>i. at i es n \<Longrightarrow> \<exists>i'. g i = Some i' \<and> at i' es k"
  shows "\<exists>it'. any_move f g it = Some it' \<and> any_at at it' es k"
  using assms by (cases it) (fastforce simp: any_at_def any_move_def)+

context cursor
begin

lemma any_cursor: "cursor compare key_ok (AnyOps ops) (any_at at)"
proof -
  note ops = AnyOps_def Iterator.simps
  show ?thesis
  proof
    fix it es n assume it: "any_at at it es n"
    show "n \<le> length es" "sorted_entries compare key_ok es"
      using it at_bound at_sorted by (cases it; force simp: any_at_def sorted_entries_def)+
    show "It_Valid (AnyOps ops) it \<longleftrightarrow> n < length es" "It_status (AnyOps ops) it = OK"
      using it at_valid at_status by (cases it; force simp: any_at_def ops EmptyIterator_def NewEmptyIterator_def)+
    show "\<exists>it'. It_SeekToFirst (AnyOps ops) it = Some it' \<and> any_at at it' es 0"
      unfolding ops by (rule any_move_at [OF it]) (simp_all add: EmptyIterator_def at_first)
    show "\<exists>it'. It_SeekToLast (AnyOps ops) it = Some it' \<and> any_at at it' es (length es - 1)"
      unfolding ops by (rule any_move_at [OF it]) (simp_all add: EmptyIterator_def at_last del: One_nat_def)
    show "\<exists>it'. It_Seek (AnyOps ops) k it = Some it' \<and> any_at at it' es (seek_pos compare k es)" if "key_ok k" for k
      unfolding ops using that by (intro any_move_at [OF it]) (simp_all add: EmptyIterator_def seek_pos_def at_seek [unfolded seek_pos_def])
    assume n: "n < length es"
    then have e: "s = NewEmptyIterator \<Longrightarrow> es = [] \<Longrightarrow> P" for s P by simp
    show "It_key (AnyOps ops) it = fst (es ! n)" "It_value (AnyOps ops) it = snd (es ! n)"
      using it n at_key at_value by (cases it; force simp: any_at_def ops)+
    show "\<exists>it'. It_Next (AnyOps ops) it = Some it' \<and> any_at at it' es (Suc n)"
      unfolding ops by (rule any_move_at [OF it e]) (use n at_next in blast)+
    show "\<exists>it'. It_Prev (AnyOps ops) it = Some it' \<and> any_at at it' es (if n = 0 then length es else n - 1)"
      unfolding ops by (rule any_move_at [OF it e]) (use n at_prev in blast)+
  qed
qed

end

text \<open>The empty iterator without an error is a cursor over no entries.\<close>

interpretation empty_iterator: cursor "Compare BytewiseComparator" "\<lambda>_. True" EmptyIterator "\<lambda>s es n. s = NewEmptyIterator \<and> es = [] \<and> n = 0"
  by unfold_locales (simp_all add: EmptyIterator_def NewEmptyIterator_def sorted_entries_def seek_pos_def)

end
