(* ===== verification/Block.thy ===== *)
theory Block
  imports Dbformat Iterators
begin

text \<open>
  Blocks: the builder (table/block_builder.cc) and the iterator (table/block.cc). A block is a run of
  entries, each of which shares a prefix of its key with the entry before it, followed by the offsets of
  the restart points, where no prefix is shared. Offsets into a block are naturals taken modulo 2^32
  where the code stores them in a \<^verbatim>\<open>uint32_t\<close>. The loops of the iterator are partial functions, because
  a corrupted block can send them round in circles; on a block the builder has made they return, and
  the iterator is a cursor over the entries that were added.
\<close>

section \<open>Building\<close>

record BlockBuilder =
  bb_buffer :: bytes
  bb_restarts :: "u32 list"
  bb_counter :: nat
  bb_finished :: bool
  bb_last_key :: bytes

definition make_BlockBuilder :: BlockBuilder where
  "make_BlockBuilder =
     \<lparr>bb_buffer = [], bb_restarts = [0], bb_counter = 0, bb_finished = False, bb_last_key = []\<rparr>"

definition BlockBuilder_Reset :: "BlockBuilder \<Rightarrow> BlockBuilder" where
  "BlockBuilder_Reset b =
     b\<lparr>bb_buffer := [], bb_restarts := [0], bb_counter := 0, bb_finished := False, bb_last_key := []\<rparr>"

definition CurrentSizeEstimate :: "BlockBuilder \<Rightarrow> nat" where
  "CurrentSizeEstimate b = length (bb_buffer b) + length (bb_restarts b) * 4 + 4"

definition BlockBuilder_empty :: "BlockBuilder \<Rightarrow> bool" where
  "BlockBuilder_empty b \<longleftrightarrow> bb_buffer b = []"

definition BlockBuilder_Finish :: "BlockBuilder \<Rightarrow> bytes \<times> BlockBuilder" where
  "BlockBuilder_Finish b =
     (let buffer = foldl PutFixed32 (bb_buffer b) (bb_restarts b);
          buffer = PutFixed32 buffer (size32 (bb_restarts b))
      in (buffer, b\<lparr>bb_buffer := buffer, bb_finished := True\<rparr>))"

text \<open>The length of the prefix two keys share.\<close>

fun shared_prefix :: "bytes \<Rightarrow> bytes \<Rightarrow> nat" where
  "shared_prefix (a # as) (b # bs) = (if a = b then Suc (shared_prefix as bs) else 0)"
| "shared_prefix as bs = 0"

definition BlockBuilder_Add :: "nat \<Rightarrow> bytes \<Rightarrow> bytes \<Rightarrow> BlockBuilder \<Rightarrow> BlockBuilder" where
  "BlockBuilder_Add block_restart_interval key value b =
     (let (shared, b) =
            (if bb_counter b < block_restart_interval then (shared_prefix (bb_last_key b) key, b)
             else (0, b\<lparr>bb_restarts := bb_restarts b @ [size32 (bb_buffer b)], bb_counter := 0\<rparr>));
          non_shared = length key - shared;
          buffer = PutVarint32 (bb_buffer b) (word_of_nat shared);
          buffer = PutVarint32 buffer (word_of_nat non_shared);
          buffer = PutVarint32 buffer (size32 value);
          buffer = buffer @ take non_shared (drop shared key) @ value
      in b\<lparr>bb_buffer := buffer, bb_last_key := take shared (bb_last_key b) @ take non_shared (drop shared key),
           bb_counter := bb_counter b + 1\<rparr>)"

section \<open>Blocks\<close>

record block =
  bl_data :: bytes
  bl_size :: nat
  bl_restart_offset :: nat

definition NumRestarts :: "block \<Rightarrow> nat" where
  "NumRestarts b = unat (DecodeFixed32 (drop (bl_size b - 4) (bl_data b)))"

definition make_Block :: "bytes \<Rightarrow> block" where
  "make_Block contents =
     (let b = \<lparr>bl_data = contents, bl_size = length contents, bl_restart_offset = 0\<rparr> in
      if bl_size b < 4 then b\<lparr>bl_size := 0\<rparr>
      else
        let max_restarts_allowed = (bl_size b - 4) div 4
        in if max_restarts_allowed < NumRestarts b then b\<lparr>bl_size := 0\<rparr>
           else b\<lparr>bl_restart_offset := bl_size b - (1 + NumRestarts b) * 4\<rparr>)"

text \<open>
  Decoding the entry at offset \<open>p\<close>: the three lengths and the offset of the key's own bytes. The sum of
  the two lengths wraps around like the unsigned sum in the code.
\<close>

definition DecodeEntry :: "bytes \<Rightarrow> nat \<Rightarrow> nat \<Rightarrow> (u32 \<times> u32 \<times> u32 \<times> nat) option" where
  "DecodeEntry data p limit =
     (if limit < p + 3 then None
      else
        let window = take (limit - p) (drop p data);
            shared = ucast (window ! 0) :: u32;
            non_shared = ucast (window ! 1) :: u32;
            value_length = ucast (window ! 2) :: u32;
            decoded =
              (if (shared OR non_shared OR value_length) < 128 then Some (shared, non_shared, value_length, p + 3)
               else
                 (case GetVarint32Ptr window of
                    None \<Rightarrow> None
                  | Some (shared, rest) \<Rightarrow>
                      (case GetVarint32Ptr rest of
                         None \<Rightarrow> None
                       | Some (non_shared, rest) \<Rightarrow>
                           (case GetVarint32Ptr rest of
                              None \<Rightarrow> None
                            | Some (value_length, rest) \<Rightarrow>
                                Some (shared, non_shared, value_length, limit - length rest)))))
        in case decoded of
             None \<Rightarrow> None
           | Some (shared, non_shared, value_length, p) \<Rightarrow>
               if (word_of_nat (limit - p) :: u32) < non_shared + value_length then None
               else Some (shared, non_shared, value_length, p))"

section \<open>The iterator\<close>

text \<open>The value is a slice of the block: its offset and its length.\<close>

record BlockIter =
  bi_data :: bytes
  bi_restarts :: nat
  bi_num_restarts :: nat
  bi_current :: nat
  bi_restart_index :: nat
  bi_key :: bytes
  bi_value :: "nat \<times> nat"
  bi_status :: status

definition make_BlockIter :: "bytes \<Rightarrow> nat \<Rightarrow> nat \<Rightarrow> BlockIter" where
  "make_BlockIter data restarts num_restarts =
     \<lparr>bi_data = data, bi_restarts = restarts, bi_num_restarts = num_restarts, bi_current = restarts,
      bi_restart_index = num_restarts, bi_key = [], bi_value = (0, 0), bi_status = OK\<rparr>"

definition NextEntryOffset :: "BlockIter \<Rightarrow> nat" where
  "NextEntryOffset it = (fst (bi_value it) + snd (bi_value it)) mod 2 ^ 32"

definition GetRestartPoint :: "BlockIter \<Rightarrow> nat \<Rightarrow> nat" where
  "GetRestartPoint it index = unat (DecodeFixed32 (drop (bi_restarts it + index * 4) (bi_data it)))"

definition SeekToRestartPoint :: "nat \<Rightarrow> BlockIter \<Rightarrow> BlockIter" where
  "SeekToRestartPoint index it =
     it\<lparr>bi_key := [], bi_restart_index := index, bi_value := (GetRestartPoint it index, 0)\<rparr>"

definition BI_Valid :: "BlockIter \<Rightarrow> bool" where
  "BI_Valid it \<longleftrightarrow> bi_current it < bi_restarts it"

definition BI_value :: "BlockIter \<Rightarrow> bytes" where
  "BI_value it = take (snd (bi_value it)) (drop (fst (bi_value it)) (bi_data it))"

definition CorruptionError :: "BlockIter \<Rightarrow> BlockIter" where
  "CorruptionError it =
     it\<lparr>bi_current := bi_restarts it, bi_restart_index := bi_num_restarts it,
        bi_status := Corruption ''bad entry in block'', bi_key := [], bi_value := (0, 0)\<rparr>"

function advance_restart :: "BlockIter \<Rightarrow> nat \<Rightarrow> nat" where
  "advance_restart it index =
     (if index + 1 < bi_num_restarts it \<and> GetRestartPoint it (index + 1) < bi_current it
      then advance_restart it (index + 1) else index)"
  by pat_completeness auto
termination
  by (relation "measure (\<lambda>(it, index). bi_num_restarts it - index)") auto

declare advance_restart.simps [simp del]

definition ParseNextKey :: "BlockIter \<Rightarrow> bool \<times> BlockIter" where
  "ParseNextKey it =
     (let it = it\<lparr>bi_current := NextEntryOffset it\<rparr> in
      if bi_restarts it \<le> bi_current it
      then (False, it\<lparr>bi_current := bi_restarts it, bi_restart_index := bi_num_restarts it\<rparr>)
      else
        (case DecodeEntry (bi_data it) (bi_current it) (bi_restarts it) of
           None \<Rightarrow> (False, CorruptionError it)
         | Some (shared, non_shared, value_length, p) \<Rightarrow>
             if length (bi_key it) < unat shared then (False, CorruptionError it)
             else
               let it = it\<lparr>bi_key := take (unat shared) (bi_key it) @ take (unat non_shared) (drop p (bi_data it)),
                           bi_value := (p + unat non_shared, unat value_length)\<rparr>
               in (True, it\<lparr>bi_restart_index := advance_restart it (bi_restart_index it)\<rparr>)))"

definition BI_Next :: "BlockIter \<Rightarrow> BlockIter" where
  "BI_Next it = snd (ParseNextKey it)"

text \<open>The last restart point before the offset, at or before an index; \<open>None\<close> when there is none.\<close>

fun restart_before :: "BlockIter \<Rightarrow> nat \<Rightarrow> nat \<Rightarrow> nat option" where
  "restart_before it original 0 = (if original \<le> GetRestartPoint it 0 then None else Some 0)"
| "restart_before it original (Suc index) =
     (if original \<le> GetRestartPoint it (Suc index) then restart_before it original index else Some (Suc index))"

text \<open>Parse entries while the end of the last one parsed lies before an offset.\<close>

partial_function (option) parse_until :: "nat \<Rightarrow> BlockIter \<Rightarrow> BlockIter option" where
  "parse_until original it =
     (case ParseNextKey it of
        (parsed, it) \<Rightarrow> if parsed \<and> NextEntryOffset it < original then parse_until original it else Some it)"

definition BI_Prev :: "BlockIter \<Rightarrow> BlockIter option" where
  "BI_Prev it =
     (let original = bi_current it in
      case restart_before it original (bi_restart_index it) of
        None \<Rightarrow> Some (it\<lparr>bi_current := bi_restarts it, bi_restart_index := bi_num_restarts it\<rparr>)
      | Some index \<Rightarrow> parse_until original (SeekToRestartPoint index it))"

text \<open>The binary search over the restart points; \<open>None\<close> is a corrupted entry.\<close>

function Seek_search :: "comparator \<Rightarrow> BlockIter \<Rightarrow> bytes \<Rightarrow> nat \<Rightarrow> nat \<Rightarrow> nat option" where
  "Seek_search cmp it target left right =
     (if left < right then
        let mid = (left + right + 1) div 2 in
        case DecodeEntry (bi_data it) (GetRestartPoint it mid) (bi_restarts it) of
          None \<Rightarrow> None
        | Some (shared, non_shared, value_length, p) \<Rightarrow>
            if shared \<noteq> 0 then None
            else if Compare cmp (take (unat non_shared) (drop p (bi_data it))) target < 0
            then Seek_search cmp it target mid right
            else Seek_search cmp it target left (mid - 1)
      else Some left)"
  by pat_completeness auto
termination
  by (relation "measure (\<lambda>(cmp, it, target, left, right). right - left)") (auto simp: div_less_iff_less_mult)

declare Seek_search.simps [simp del]

partial_function (option) Seek_linear :: "comparator \<Rightarrow> bytes \<Rightarrow> BlockIter \<Rightarrow> BlockIter option" where
  "Seek_linear cmp target it =
     (case ParseNextKey it of
        (parsed, it) \<Rightarrow>
          if \<not> parsed then Some it
          else if 0 \<le> Compare cmp (bi_key it) target then Some it
          else Seek_linear cmp target it)"

definition BI_Seek :: "comparator \<Rightarrow> bytes \<Rightarrow> BlockIter \<Rightarrow> BlockIter option" where
  "BI_Seek cmp target it =
     (let current_key_compare = (if BI_Valid it then Compare cmp (bi_key it) target else 0);
          left = (if BI_Valid it \<and> current_key_compare < 0 then bi_restart_index it else 0);
          right = (if BI_Valid it \<and> 0 < current_key_compare then bi_restart_index it else bi_num_restarts it - 1)
      in if BI_Valid it \<and> current_key_compare = 0 then Some it
         else
           (case Seek_search cmp it target left right of
              None \<Rightarrow> Some (CorruptionError it)
            | Some left \<Rightarrow>
                let skip_seek = (left = bi_restart_index it \<and> current_key_compare < 0)
                in Seek_linear cmp target (if skip_seek then it else SeekToRestartPoint left it)))"

definition BI_SeekToFirst :: "BlockIter \<Rightarrow> BlockIter" where
  "BI_SeekToFirst it = snd (ParseNextKey (SeekToRestartPoint 0 it))"

definition BI_SeekToLast :: "BlockIter \<Rightarrow> BlockIter option" where
  "BI_SeekToLast it = parse_until (bi_restarts it) (SeekToRestartPoint (bi_num_restarts it - 1) it)"

definition BlockIterOps :: "comparator \<Rightarrow> BlockIter Iterator" where
  "BlockIterOps cmp =
     \<lparr>It_Valid = BI_Valid, It_SeekToFirst = \<lambda>it. Some (BI_SeekToFirst it), It_SeekToLast = BI_SeekToLast,
      It_Seek = BI_Seek cmp, It_Next = \<lambda>it. Some (BI_Next it), It_Prev = BI_Prev, It_key = bi_key,
      It_value = BI_value, It_status = bi_status\<rparr>"

type_synonym block_iterator = "BlockIter any_iterator"

definition Block_NewIterator :: "block \<Rightarrow> block_iterator" where
  "Block_NewIterator b =
     (if bl_size b < 4 then EmptyIter (NewErrorIterator (Corruption ''bad block contents''))
      else
        let num_restarts = NumRestarts b
        in if num_restarts = 0 then EmptyIter NewEmptyIterator
           else Iter (make_BlockIter (bl_data b) (bl_restart_offset b) num_restarts))"

section \<open>Decoding entries\<close>

lemma byte_no_high_bit: "(ucast (b :: byte) :: u32) < 128 \<Longrightarrow> (ucast b :: u32) AND 128 = 0"
proof -
  assume "(ucast b :: u32) < 128"
  then have "(ucast b :: u32) div 2 ^ 7 = 0" by (simp add: div_word_less)
  then have "\<not> bit (ucast b :: u32) 7" by (simp only: bit_iff_odd even_zero simp_thms)
  then show "(ucast b :: u32) AND 128 = 0" using bit_iff_and_push_bit_not_eq_0 [of "ucast b :: u32" 7] by simp
qed

lemma GetVarint32Ptr_one_byte: "(ucast (b :: byte) :: u32) < 128 \<Longrightarrow> GetVarint32Ptr (b # rest) = Some (ucast b, rest)"
  using byte_no_high_bit [of b] by (simp add: GetVarint32Ptr_def)

lemma or_less_128: "(a OR b OR c :: u32) < 128 \<Longrightarrow> a < 128 \<and> b < 128 \<and> c < 128"
proof -
  assume less: "(a OR b OR c) < 128"
  have "x < 128 \<longleftrightarrow> drop_bit 7 x = 0" for x :: u32
  proof -
    have "drop_bit 7 x = 0 \<longleftrightarrow> unat (drop_bit 7 x) = 0" by (simp only: unsigned_eq_0_iff)
    then show ?thesis by (simp add: unat_drop_bit_div word_less_nat_alt div_eq_0_iff)
  qed
  then show ?thesis using less by (simp only: drop_bit_or or_eq_0_iff simp_thms)
qed

text \<open>The three lengths, one after the other as varints.\<close>

definition decode_lengths :: "bytes \<Rightarrow> (u32 \<times> u32 \<times> u32 \<times> bytes) option" where
  "decode_lengths w =
     Option.bind (GetVarint32Ptr w) (\<lambda>(shared, rest).
     Option.bind (GetVarint32Ptr rest) (\<lambda>(non_shared, rest).
     map_option (\<lambda>(value_length, rest). (shared, non_shared, value_length, rest)) (GetVarint32Ptr rest)))"

lemma decode_lengths_cases:
  "(case GetVarint32Ptr w of
      None \<Rightarrow> None
    | Some (shared, rest) \<Rightarrow>
        (case GetVarint32Ptr rest of
           None \<Rightarrow> None
         | Some (non_shared, rest) \<Rightarrow>
             (case GetVarint32Ptr rest of
                None \<Rightarrow> None
              | Some (value_length, rest) \<Rightarrow> Some (shared, non_shared, value_length, limit - length rest)))) =
   map_option (\<lambda>(s, n, v, rest). (s, n, v, limit - length rest)) (decode_lengths w)"
  by (auto simp: decode_lengths_def split: option.splits)

lemma DecodeEntry_lengths:
  assumes "limit \<le> length data"
  shows "DecodeEntry data p limit =
    (if limit < p + 3 then None
     else Option.bind (decode_lengths (take (limit - p) (drop p data))) (\<lambda>(shared, non_shared, value_length, rest).
       if (size32 rest) < non_shared + value_length then None
       else Some (shared, non_shared, value_length, limit - length rest)))"
proof (cases "limit < p + 3")
  case False
  let ?w = "take (limit - p) (drop p data)"
  have len: "length ?w = limit - p" "3 \<le> length ?w" using False assms by simp_all
  obtain a b c rest where w: "?w = a # b # c # rest"
    using len(2) by (cases ?w; cases "tl ?w"; cases "tl (tl ?w)") auto
  then have p3: "p + 3 = limit - length rest" using len(1) False by simp
  have sub: "limit - (limit - length rest) = length rest" if "length rest \<le> length ?w" for rest :: bytes
    using that len(1) by linarith
  have short: "length rest \<le> length ?w" if "decode_lengths ?w = Some (x, y, z, rest)" for x y z rest
    using that unfolding decode_lengths_def GetVarint32_def [symmetric]
    by (auto simp: bind_eq_Some_conv dest!: GetVarint32_shorter)
  show ?thesis
  proof (cases "(ucast a OR ucast b OR ucast c :: u32) < 128")
    case True
    then have "decode_lengths ?w = Some (ucast a, ucast b, ucast c, rest)"
      using or_less_128 [OF True] unfolding w by (simp add: decode_lengths_def GetVarint32Ptr_one_byte)
    then show ?thesis
      using False True p3 sub [of rest] w by (simp add: DecodeEntry_def Let_def)
  next
    case slow: False
    have "DecodeEntry data p limit =
        (case map_option (\<lambda>(s, n, v, rest). (s, n, v, limit - length rest)) (decode_lengths ?w) of
           None \<Rightarrow> None
         | Some (shared, non_shared, value_length, p) \<Rightarrow>
             if (word_of_nat (limit - p) :: u32) < non_shared + value_length then None
             else Some (shared, non_shared, value_length, p))"
      using False slow w unfolding DecodeEntry_def Let_def decode_lengths_cases [symmetric] by simp
    then show ?thesis
      using False short sub by (cases "decode_lengths ?w") auto
  qed
qed (simp add: DecodeEntry_def)

section \<open>The layout of a block\<close>

text \<open>An item of a block is an entry with the length of the prefix it shares with the key before it.\<close>

type_synonym item = "nat \<times> bytes \<times> bytes"

definition item_header :: "item \<Rightarrow> bytes" where
  "item_header = (\<lambda>(sh, k, v). EncodeVarint32 (word_of_nat sh) @ EncodeVarint32 (word_of_nat (length k - sh)) @ EncodeVarint32 (size32 v))"

definition enc_item :: "item \<Rightarrow> bytes" where
  "enc_item = (\<lambda>(sh, k, v). item_header (sh, k, v) @ drop sh k @ v)"

definition enc_items :: "item list \<Rightarrow> bytes" where
  "enc_items items = concat (map enc_item items)"

definition item_off :: "item list \<Rightarrow> nat \<Rightarrow> nat" where
  "item_off items i = length (enc_items (take i items))"

fun item_chain :: "bytes \<Rightarrow> item list \<Rightarrow> bool" where
  "item_chain prev [] \<longleftrightarrow> True"
| "item_chain prev ((sh, k, v) # items) \<longleftrightarrow>
     sh \<le> length prev \<and> sh \<le> length k \<and> take sh prev = take sh k \<and> item_chain k items"

definition restarts_ok :: "item list \<Rightarrow> nat list \<Rightarrow> bool" where
  "restarts_ok items rs \<longleftrightarrow>
     (\<exists>rs'. rs = 0 # rs') \<and> sorted_wrt (<) rs \<and>
     (\<forall>r \<in> set rs. r \<le> length items) \<and> (\<forall>r \<in> set rs. r < length items \<longrightarrow> fst (items ! r) = 0) \<and>
     (items \<noteq> [] \<longrightarrow> (\<forall>r \<in> set rs. r < length items))"

definition block_rep :: "bytes \<Rightarrow> item list \<Rightarrow> nat list \<Rightarrow> bool" where
  "block_rep data items rs \<longleftrightarrow>
     data = enc_items items @ concat (map (\<lambda>r. EncodeFixed32 (word_of_nat (item_off items r))) rs) @
       EncodeFixed32 (size32 rs) \<and>
     length data < 2 ^ 32 \<and> item_chain [] items \<and> restarts_ok items rs"

lemma block_repE:
  assumes "block_rep data items rs"
  obtains tail where "data = enc_items items @ tail"
    and "tail = concat (map EncodeFixed32 (map (\<lambda>r. word_of_nat (item_off items r)) rs)) @ EncodeFixed32 (size32 rs)"
    and "length data < 2 ^ 32" and "length (enc_items items) < 2 ^ 32" and "item_chain [] items" and "restarts_ok items rs"
  using assms that unfolding block_rep_def map_map o_def by fastforce

lemma block_rep_restarts: "block_rep data items rs \<Longrightarrow> restarts_ok items rs"
  by (simp add: block_rep_def)

lemma enc_items_simps [simp]: "enc_items [] = []" "enc_items (x # xs) = enc_item x @ enc_items xs"
  "enc_items (xs @ ys) = enc_items xs @ enc_items ys"
  by (simp_all add: enc_items_def)

lemma length_item_header: "3 \<le> length (item_header x)"
proof -
  obtain sh k v where x: "x = (sh, k, v)" using prod_cases3 by blast
  have "1 \<le> length (EncodeVarint32 w)" for w by (simp add: Suc_le_eq)
  from this [of "word_of_nat sh"] this [of "word_of_nat (length k - sh)"] this [of "size32 v"] show ?thesis
    unfolding x item_header_def prod.case length_append by linarith
qed

lemma length_enc_item: "length (enc_item (sh, k, v)) = length (item_header (sh, k, v)) + (length k - sh) + length v"
  by (simp add: enc_item_def)

lemma decode_lengths_header:
  "decode_lengths (item_header (sh, k, v) @ rest) = Some (word_of_nat sh, word_of_nat (length k - sh), size32 v, rest)"
  by (simp add: decode_lengths_def item_header_def GetVarint32_def [symmetric])

lemma DecodeEntry_item:
  assumes data: "data = pre @ enc_item (sh, k, v) @ post @ tail" and "length data < 2 ^ 32"
  shows "DecodeEntry data (length pre) (length (pre @ enc_item (sh, k, v) @ post)) =
    Some (word_of_nat sh, word_of_nat (length k - sh), size32 v, length pre + length (item_header (sh, k, v)))"
proof -
  let ?h = "item_header (sh, k, v)" and ?rest = "drop sh k @ v @ post"
  let ?limit = "length (pre @ enc_item (sh, k, v) @ post)"
  have len: "?limit = length pre + length ?h + length ?rest" by (simp add: enc_item_def)
  have w: "take (?limit - length pre) (drop (length pre) data) = ?h @ ?rest"
    by (simp add: data enc_item_def)
  have small: "length ?rest < 2 ^ 32" using assms by (simp add: enc_item_def)
  have sum: "unat (word_of_nat (length k - sh) + size32 v :: u32) = (length k - sh) + length v"
    using small by (simp add: unat_word_ariths unat_of_nat_small)
  have "unat (size32 ?rest :: u32) = length ?rest" by (rule unat_of_nat_small) (use small in simp)
  then have "\<not> (size32 ?rest < word_of_nat (length k - sh) + size32 v)"
    unfolding word_less_nat_alt sum by simp
  moreover have "\<not> ?limit < length pre + 3" using length_item_header [of "(sh, k, v)"] len by linarith
  moreover have "?limit \<le> length data" by (simp add: data)
  moreover have "?limit - length ?rest = length pre + length ?h" using len by linarith
  ultimately show ?thesis
    unfolding DecodeEntry_lengths [OF \<open>?limit \<le> length data\<close>] w decode_lengths_header by simp
qed

lemma items_split:
  assumes "i < length items"
  shows "enc_items items = enc_items (take i items) @ enc_item (items ! i) @ enc_items (drop (Suc i) items)"
proof -
  have "items = take i items @ items ! i # drop (Suc i) items" by (rule id_take_nth_drop [OF assms])
  then show ?thesis by (metis enc_items_simps(2,3))
qed

lemma item_off_Suc: "i < length items \<Longrightarrow> item_off items (Suc i) = item_off items i + length (enc_item (items ! i))"
  by (simp add: item_off_def take_Suc_conv_app_nth)

lemma item_off_0 [simp]: "item_off items 0 = 0" and item_off_end: "item_off items (length items) = length (enc_items items)"
  by (simp_all add: item_off_def)

lemma item_off_less: "i < j \<Longrightarrow> j \<le> length items \<Longrightarrow> item_off items i < item_off items j"
proof (induction j)
  case (Suc j)
  have "0 < length (enc_item (items ! j))"
    using length_item_header [of "items ! j"] by (cases "items ! j") (auto simp: enc_item_def)
  then have "item_off items j < item_off items (Suc j)" using Suc.prems by (simp add: item_off_Suc)
  then show ?case using Suc by (cases "i = j") auto
qed simp

lemma item_off_le: "i \<le> j \<Longrightarrow> j \<le> length items \<Longrightarrow> item_off items i \<le> item_off items j"
  using item_off_less [of i j items] by (cases "i = j") auto

lemma item_off_less_iff: "i \<le> length items \<Longrightarrow> j \<le> length items \<Longrightarrow> item_off items i < item_off items j \<longleftrightarrow> i < j"
  using item_off_less [of i j items] item_off_le [of j i items] by (meson leD leI)

lemma item_chain_nth:
  assumes "item_chain prev items" and "i < length items"
  defines "p \<equiv> if i = 0 then prev else fst (snd (items ! (i - 1)))"
  shows "fst (items ! i) \<le> length (fst (snd (items ! i))) \<and> fst (items ! i) \<le> length p \<and>
    take (fst (items ! i)) p = take (fst (items ! i)) (fst (snd (items ! i)))"
  using assms(1,2) unfolding p_def
proof (induction prev items arbitrary: i rule: item_chain.induct)
  case (2 prev sh k v items)
  show ?case
  proof (cases i)
    case (Suc n)
    then show ?thesis using 2(1) [of n] 2(2,3) by (cases n) auto
  qed (use 2 in auto)
qed simp

section \<open>Positions of the iterator\<close>

definition bi_over :: "BlockIter \<Rightarrow> item list \<Rightarrow> nat list \<Rightarrow> bool" where
  "bi_over it items rs \<longleftrightarrow>
     block_rep (bi_data it) items rs \<and> bi_restarts it = length (enc_items items) \<and>
     bi_num_restarts it = length rs \<and> bi_status it = OK"

text \<open>Before item \<open>i\<close>: the next call of \<^verbatim>\<open>ParseNextKey\<close> reads it.\<close>

definition bi_ready :: "BlockIter \<Rightarrow> item list \<Rightarrow> nat list \<Rightarrow> nat \<Rightarrow> bool" where
  "bi_ready it items rs i \<longleftrightarrow>
     bi_over it items rs \<and> i \<le> length items \<and> NextEntryOffset it = item_off items i \<and>
     (i < length items \<longrightarrow> fst (items ! i) \<le> length (bi_key it) \<and>
        take (fst (items ! i)) (bi_key it) = take (fst (items ! i)) (fst (snd (items ! i)))) \<and>
     bi_restart_index it < length rs \<and> rs ! bi_restart_index it \<le> i"

definition bi_item :: "BlockIter \<Rightarrow> item list \<Rightarrow> nat list \<Rightarrow> nat \<Rightarrow> bool" where
  "bi_item it items rs i \<longleftrightarrow>
     bi_over it items rs \<and> i < length items \<and> bi_current it = item_off items i \<and>
     NextEntryOffset it = item_off items (Suc i) \<and> bi_key it = fst (snd (items ! i)) \<and>
     BI_value it = snd (snd (items ! i)) \<and>
     bi_restart_index it < length rs \<and> rs ! bi_restart_index it \<le> i \<and>
     (bi_restart_index it + 1 < length rs \<longrightarrow> i \<le> rs ! (bi_restart_index it + 1))"

definition bi_end :: "BlockIter \<Rightarrow> item list \<Rightarrow> nat list \<Rightarrow> bool" where
  "bi_end it items rs \<longleftrightarrow> bi_over it items rs \<and> bi_current it = bi_restarts it"

lemma bi_over_update [simp]:
  "bi_over (it\<lparr>bi_current := c\<rparr>) items rs = bi_over it items rs"
  "bi_over (it\<lparr>bi_restart_index := i\<rparr>) items rs = bi_over it items rs"
  "bi_over (it\<lparr>bi_key := k\<rparr>) items rs = bi_over it items rs"
  "bi_over (it\<lparr>bi_value := v\<rparr>) items rs = bi_over it items rs"
  by (simp_all add: bi_over_def)

lemma GetRestartPoint_update [simp]:
  "GetRestartPoint (it\<lparr>bi_current := c\<rparr>) = GetRestartPoint it"
  "GetRestartPoint (it\<lparr>bi_restart_index := i\<rparr>) = GetRestartPoint it"
  "GetRestartPoint (it\<lparr>bi_key := k\<rparr>) = GetRestartPoint it"
  "GetRestartPoint (it\<lparr>bi_value := v\<rparr>) = GetRestartPoint it"
  by (simp_all add: GetRestartPoint_def fun_eq_iff)

lemma NextEntryOffset_update [simp]:
  "NextEntryOffset (it\<lparr>bi_current := c\<rparr>) = NextEntryOffset it"
  "NextEntryOffset (it\<lparr>bi_restart_index := i\<rparr>) = NextEntryOffset it"
  "NextEntryOffset (it\<lparr>bi_key := k\<rparr>) = NextEntryOffset it"
  by (simp_all add: NextEntryOffset_def)

lemma drop_fixed32:
  "r < length ws \<Longrightarrow> drop (r * 4) (concat (map EncodeFixed32 ws) @ rest) =
     EncodeFixed32 (ws ! r) @ concat (map EncodeFixed32 (drop (Suc r) ws)) @ rest"
proof (induction ws arbitrary: r)
  case (Cons w ws)
  then show ?case by (cases r) (simp_all add: add.commute)
qed simp

lemma restarts_okD:
  assumes "restarts_ok items rs" and "r < length rs"
  shows "rs ! r \<le> length items" and "rs ! r < length items \<Longrightarrow> fst (items ! (rs ! r)) = 0" and "rs ! 0 = 0"
    and "items \<noteq> [] \<Longrightarrow> rs ! r < length items"
  using assms by (auto simp: restarts_ok_def)

lemma restarts_ok_less: "restarts_ok items rs \<Longrightarrow> r < r' \<Longrightarrow> r' < length rs \<Longrightarrow> rs ! r < rs ! r'"
  by (simp add: restarts_ok_def sorted_wrt_nth_less)

lemma item_off_small:
  assumes "block_rep data items rs" and "i \<le> length items"
  shows "item_off items i < 2 ^ 32"
proof -
  have "length (enc_items items) < 2 ^ 32" by (rule block_repE [OF assms(1)])
  then show ?thesis using item_off_le [OF assms(2), of items] by (simp add: item_off_end)
qed

lemma GetRestartPoint_item:
  assumes over: "bi_over it items rs" and r: "r < length rs"
  shows "GetRestartPoint it r = item_off items (rs ! r)"
proof -
  let ?ws = "map (\<lambda>r. word_of_nat (item_off items r) :: u32) rs"
  have rep: "block_rep (bi_data it) items rs" and restarts: "bi_restarts it = length (enc_items items)"
    using over by (simp_all add: bi_over_def)
  have "bi_data it = enc_items items @ concat (map EncodeFixed32 ?ws) @ EncodeFixed32 (size32 rs)"
    by (rule block_repE [OF rep]) simp
  then have "drop (bi_restarts it + r * 4) (bi_data it) = drop (r * 4) (concat (map EncodeFixed32 ?ws) @ EncodeFixed32 (size32 rs))"
    unfolding restarts by (simp only: drop_append) simp
  also have "\<dots> = EncodeFixed32 (?ws ! r) @ concat (map EncodeFixed32 (drop (Suc r) ?ws)) @ EncodeFixed32 (size32 rs)"
    using r by (intro drop_fixed32) simp
  finally have "GetRestartPoint it r = unat (word_of_nat (item_off items (rs ! r)) :: u32)"
    using r by (simp add: GetRestartPoint_def)
  moreover have "rs ! r \<le> length items" by (rule restarts_okD(1) [OF block_rep_restarts [OF rep] r])
  ultimately show ?thesis using item_off_small [OF rep, of "rs ! r"] by (simp add: unat_of_nat_small)
qed

lemma advance_restart_spec:
  assumes "bi_over it items rs" and "bi_current it = item_off items i" and "i \<le> length items"
    and "r < length rs" and "rs ! r \<le> i"
  shows "advance_restart it r < length rs \<and> rs ! advance_restart it r \<le> i \<and>
    (advance_restart it r + 1 < length rs \<longrightarrow> i \<le> rs ! (advance_restart it r + 1))"
  using assms
proof (induction it r rule: advance_restart.induct)
  case (1 it r)
  have n: "bi_num_restarts it = length rs" and ok: "restarts_ok items rs"
    using 1(2) by (simp_all add: bi_over_def block_rep_def)
  have cond: "r + 1 < bi_num_restarts it \<and> GetRestartPoint it (r + 1) < bi_current it \<longleftrightarrow> r + 1 < length rs \<and> rs ! (r + 1) < i"
    using GetRestartPoint_item [OF 1(2), of "r + 1"] 1(3,4) restarts_okD(1) [OF ok, of "r + 1"]
    by (auto simp: n item_off_less_iff)
  show ?case
  proof (cases "r + 1 < length rs \<and> rs ! (r + 1) < i")
    case True
    then have "advance_restart it r = advance_restart it (r + 1)"
      using cond by (subst advance_restart.simps) (simp only: if_True simp_thms)
    then show ?thesis using 1 True cond by simp
  next
    case False
    then have "advance_restart it r = r" using cond by (subst advance_restart.simps) (simp only: if_False simp_thms)
    then show ?thesis using 1 False by (auto simp: not_less)
  qed
qed

lemma item_key_length:
  "item_chain prev items \<Longrightarrow> i < length items \<Longrightarrow>
   length (fst (snd (items ! i))) \<le> length prev + length (enc_items items)"
proof (induction prev items arbitrary: i rule: item_chain.induct)
  case (2 prev sh k v items)
  have "length k \<le> length prev + length (enc_item (sh, k, v))"
    using 2(2) unfolding length_enc_item item_chain.simps by linarith
  then show ?case using 2(1) [of "i - 1"] 2(2,3) by (cases i) auto
qed simp

lemma decode_nth:
  assumes over: "bi_over it items rs" and i: "i < length items" and item: "items ! i = (sh, k, v)"
  obtains p where
    "DecodeEntry (bi_data it) (item_off items i) (bi_restarts it) =
       Some (word_of_nat sh, word_of_nat (length k - sh), size32 v, p)"
    and "unat (word_of_nat sh :: u32) = sh" and "unat (word_of_nat (length k - sh) :: u32) = length k - sh"
    and "unat (size32 v :: u32) = length v"
    and "take (length k - sh) (drop p (bi_data it)) = drop sh k"
    and "take (length v) (drop (p + (length k - sh)) (bi_data it)) = v"
    and "p + (length k - sh) + length v = item_off items (Suc i)" and "item_off items i < bi_restarts it"
proof -
  have rep: "block_rep (bi_data it) items rs" and restarts: "bi_restarts it = length (enc_items items)"
    using over by (simp_all add: bi_over_def)
  obtain tail where tail: "bi_data it = enc_items items @ tail" and small: "length (bi_data it) < 2 ^ 32"
    "length (enc_items items) < 2 ^ 32" and chain: "item_chain [] items"
    by (rule block_repE [OF rep])
  let ?pre = "enc_items (take i items)" and ?post = "enc_items (drop (Suc i) items)"
  have split: "enc_items items = ?pre @ enc_item (sh, k, v) @ ?post" using items_split [OF i] item by simp
  have data: "bi_data it = ?pre @ enc_item (sh, k, v) @ ?post @ tail" using tail split by simp
  have sh: "sh \<le> length k" "length k < 2 ^ 32" "length v < 2 ^ 32"
    using item_chain_nth [OF chain i] item_key_length [OF chain i] small(2) item split by (auto simp: length_enc_item)
  let ?p = "item_off items i + length (item_header (sh, k, v))"
  show ?thesis
  proof (rule that [of ?p])
    show "DecodeEntry (bi_data it) (item_off items i) (bi_restarts it) =
        Some (word_of_nat sh, word_of_nat (length k - sh), size32 v, ?p)"
      using DecodeEntry_item [OF data small(1)] unfolding restarts split item_off_def .
    show "unat (word_of_nat sh :: u32) = sh" "unat (word_of_nat (length k - sh) :: u32) = length k - sh" "unat (size32 v :: u32) = length v"
      by (rule unat_of_nat_small, use sh in simp)+
    show "item_off items i < bi_restarts it"
      using restarts item_off_less [of i "length items" items] i by (simp add: item_off_end)
    show "take (length k - sh) (drop ?p (bi_data it)) = drop sh k" "take (length v) (drop (?p + (length k - sh)) (bi_data it)) = v"
      unfolding data item_off_def by (simp_all add: enc_item_def)
    show "?p + (length k - sh) + length v = item_off items (Suc i)"
      using item_off_Suc [OF i] item by (simp add: length_enc_item)
  qed
qed

lemma ParseNextKey_item:
  assumes ready: "bi_ready it items rs i" and i: "i < length items"
  shows "\<exists>it'. ParseNextKey it = (True, it') \<and> bi_item it' items rs i"
proof -
  obtain sh k v where item: "items ! i = (sh, k, v)" using prod_cases3 by blast
  have over: "bi_over it items rs" and nxt: "NextEntryOffset it = item_off items i" using ready by (simp_all add: bi_ready_def)
  obtain p where dec: "DecodeEntry (bi_data it) (item_off items i) (bi_restarts it) =
       Some (word_of_nat sh, word_of_nat (length k - sh), size32 v, p)"
    and words: "unat (word_of_nat sh :: u32) = sh" "unat (word_of_nat (length k - sh) :: u32) = length k - sh"
      "unat (size32 v :: u32) = length v"
    and bytes: "take (length k - sh) (drop p (bi_data it)) = drop sh k" "take (length v) (drop (p + (length k - sh)) (bi_data it)) = v"
    and off: "p + (length k - sh) + length v = item_off items (Suc i)" "item_off items i < bi_restarts it"
    by (rule decode_nth [OF over i item])
  have key: "sh \<le> length (bi_key it)" "take sh (bi_key it) = take sh k" using ready i item by (simp_all add: bi_ready_def)
  define it1 where "it1 = it\<lparr>bi_current := item_off items i, bi_key := k, bi_value := (p + (length k - sh), length v)\<rparr>"
  define it2 where "it2 = it1\<lparr>bi_restart_index := advance_restart it1 (bi_restart_index it1)\<rparr>"
  have "take sh k @ drop sh k = k" by simp
  then have "ParseNextKey it = (True, it2)"
    using dec off(2) key bytes(1) words unfolding ParseNextKey_def Let_def nxt it2_def it1_def by (simp del: of_nat_diff)
  moreover have "bi_item it2 items rs i"
  proof -
    have "item_off items (Suc i) < 2 ^ 32" using over i item_off_small [of "bi_data it" items rs "Suc i"] by (simp add: bi_over_def)
    then have "NextEntryOffset it1 = item_off items (Suc i)" using off(1) by (simp add: it1_def NextEntryOffset_def)
    moreover have "BI_value it1 = v" "bi_over it1 items rs" "bi_current it1 = item_off items i"
      using bytes(2) over by (simp_all add: it1_def BI_value_def)
    ultimately show ?thesis
      using advance_restart_spec [of it1 items rs i "bi_restart_index it1"] i item ready
      by (simp add: it2_def bi_item_def bi_ready_def BI_value_def) (simp add: it1_def)
  qed
  ultimately show ?thesis by blast
qed

lemma ParseNextKey_end:
  assumes "bi_ready it items rs (length items)"
  shows "\<exists>it'. ParseNextKey it = (False, it') \<and> bi_end it' items rs"
  using assms by (auto simp: ParseNextKey_def Let_def bi_ready_def bi_end_def bi_over_def item_off_end)

lemma bi_item_ready: "bi_item it items rs i \<Longrightarrow> bi_ready it items rs (Suc i)"
proof -
  assume item: "bi_item it items rs i"
  have "item_chain [] items" using item by (auto simp: bi_item_def bi_over_def block_rep_def)
  then show ?thesis
    using item item_chain_nth [of "[]" items "Suc i"] by (auto simp: bi_item_def bi_ready_def Suc_le_eq)
qed

lemma SeekToRestartPoint_ready:
  assumes over: "bi_over it items rs" and r: "r < length rs"
  shows "bi_ready (SeekToRestartPoint r it) items rs (rs ! r)"
proof -
  have rep: "block_rep (bi_data it) items rs" using over by (simp add: bi_over_def)
  note rs = restarts_okD [OF block_rep_restarts [OF rep] r]
  show ?thesis
    using over r rs GetRestartPoint_item [OF over r] item_off_small [OF rep rs(1)]
    by (auto simp: bi_ready_def SeekToRestartPoint_def NextEntryOffset_def)
qed

lemma parse_until_item:
  assumes "bi_ready it items rs j" and "j \<le> m" and "m < length items"
  shows "\<exists>it'. parse_until (item_off items (Suc m)) it = Some it' \<and> bi_item it' items rs m"
  using assms
proof (induction "m - j" arbitrary: j it)
  case 0
  then obtain it' where "ParseNextKey it = (True, it')" "bi_item it' items rs m"
    using ParseNextKey_item [of it items rs j] by auto
  then show ?case by (subst parse_until.simps) (auto simp: bi_item_def)
next
  case (Suc d)
  obtain it' where it': "ParseNextKey it = (True, it')" "bi_item it' items rs j"
    using ParseNextKey_item [of it items rs j] Suc.prems by auto
  have "item_off items (Suc j) < item_off items (Suc m)" using Suc by (intro item_off_less) linarith+
  then have "parse_until (item_off items (Suc m)) it = parse_until (item_off items (Suc m)) it'"
    using it' by (subst parse_until.simps) (simp add: bi_item_def)
  moreover have "\<exists>it''. parse_until (item_off items (Suc m)) it' = Some it'' \<and> bi_item it'' items rs m"
    using Suc bi_item_ready [OF it'(2)] by (intro Suc.hyps(1) [of "Suc j"]) linarith+
  ultimately show ?case by simp
qed

lemma restart_before_spec:
  assumes over: "bi_over it items rs" and i: "i \<le> length items"
    and "r < length rs"
  shows "case restart_before it (item_off items i) r of None \<Rightarrow> i = 0 | Some r' \<Rightarrow> r' < length rs \<and> rs ! r' < i"
proof -
  have ok: "restarts_ok items rs" using over by (simp add: bi_over_def block_rep_def)
  have cmp: "item_off items i \<le> GetRestartPoint it r \<longleftrightarrow> i \<le> rs ! r" if "r < length rs" for r
    using GetRestartPoint_item [OF over that] restarts_okD(1) [OF ok that] i item_off_less_iff [of "rs ! r" items i] by linarith
  show ?thesis using assms(3)
  proof (induction r)
    case 0
    then show ?case using cmp [of 0] restarts_okD(3) [OF ok 0] by simp
  next
    case (Suc r)
    then show ?case using cmp [of "Suc r"] by simp
  qed
qed

section \<open>The iterator is a cursor\<close>

definition block_at :: "comparator \<Rightarrow> (bytes \<Rightarrow> bool) \<Rightarrow> BlockIter \<Rightarrow> entries \<Rightarrow> nat \<Rightarrow> bool" where
  "block_at cmp key_ok it es n \<longleftrightarrow>
     (\<exists>items rs. es = map snd items \<and> sorted_entries (Compare cmp) key_ok es \<and>
        (if n < length es then bi_item it items rs n else n = length es \<and> bi_end it items rs))"

lemma block_atE:
  assumes "block_at cmp key_ok it es n"
  obtains items rs where "es = map snd items" and "sorted_entries (Compare cmp) key_ok es" and "bi_over it items rs"
    and "n < length es \<Longrightarrow> bi_item it items rs n" and "\<not> n < length es \<Longrightarrow> n = length es \<and> bi_end it items rs"
  using assms unfolding block_at_def by (auto simp: bi_item_def bi_end_def split: if_splits)

lemma block_at_itemI:
  "bi_item it items rs n \<Longrightarrow> sorted_entries (Compare cmp) key_ok (map snd items) \<Longrightarrow> block_at cmp key_ok it (map snd items) n"
  unfolding block_at_def by (intro exI [of _ items] exI [of _ rs]) (simp add: bi_item_def)

lemma block_at_endI:
  "bi_end it items rs \<Longrightarrow> sorted_entries (Compare cmp) key_ok (map snd items) \<Longrightarrow> block_at cmp key_ok it (map snd items) (length items)"
  unfolding block_at_def by (intro exI [of _ items] exI [of _ rs]) simp

lemma ParseNextKey_at:
  assumes "bi_ready it items rs i" and "sorted_entries (Compare cmp) key_ok (map snd items)"
  shows "block_at cmp key_ok (snd (ParseNextKey it)) (map snd items) i"
proof (cases "i < length items")
  case True
  then show ?thesis using ParseNextKey_item [OF assms(1)] block_at_itemI [OF _ assms(2)] by auto
next
  case False
  then have "i = length items" using assms(1) by (auto simp: bi_ready_def)
  then show ?thesis using ParseNextKey_end [of it items rs] assms block_at_endI [OF _ assms(2)] by auto
qed

abbreviation item_less :: "comparator \<Rightarrow> item list \<Rightarrow> bytes \<Rightarrow> nat \<Rightarrow> bool" where
  "item_less cmp items target i \<equiv> Compare cmp (fst (snd (items ! i))) target < 0"

lemma Seek_search_spec:
  assumes "bi_over it items rs" and "right < length rs" and "left \<le> right"
    and "left = 0 \<or> item_less cmp items target (rs ! left)"
  shows "\<exists>l. Seek_search cmp it target left right = Some l \<and> l < length rs \<and>
    (l = 0 \<or> item_less cmp items target (rs ! l))"
  using assms
proof (induction cmp it target left right rule: Seek_search.induct)
  case (1 cmp it target left right)
  show ?case
  proof (cases "left < right")
    case False
    then show ?thesis using 1 by (subst Seek_search.simps) simp
  next
    case True
    define mid where "mid = (left + right + 1) div 2"
    have mid: "left < mid" "mid \<le> right" using True by (auto simp: mid_def)
    have ok: "restarts_ok items rs" using 1(3) by (simp add: bi_over_def block_rep_def)
    have "rs ! 0 < rs ! mid" using restarts_ok_less [OF ok, of 0 mid] mid 1(4) by simp
    then have "items \<noteq> []" using restarts_okD(1) [OF ok, of mid] mid 1(4) by auto
    then have i: "rs ! mid < length items" using restarts_okD(4) [OF ok, of mid] mid 1(4) by simp
    obtain k v where item: "items ! (rs ! mid) = (0, k, v)"
      using restarts_okD(2) [OF ok _ i] mid 1(4) by (cases "items ! (rs ! mid)") auto
    obtain p where dec: "DecodeEntry (bi_data it) (item_off items (rs ! mid)) (bi_restarts it) =
        Some (word_of_nat 0, word_of_nat (length k - 0), size32 v, p)"
      and k: "unat (word_of_nat (length k - 0) :: u32) = length k - 0" "take (length k - 0) (drop p (bi_data it)) = drop 0 k"
      by (rule decode_nth [OF 1(3) i item])
    have step: "Seek_search cmp it target left right =
        (if Compare cmp k target < 0 then Seek_search cmp it target mid right
         else Seek_search cmp it target left (mid - 1))"
      using True dec k GetRestartPoint_item [OF 1(3), of mid] mid 1(4)
      by (subst Seek_search.simps, subst Let_def, fold mid_def) simp
    show ?thesis
    proof (cases "Compare cmp k target < 0")
      case less: True
      then have "\<exists>l. Seek_search cmp it target mid right = Some l \<and> l < length rs \<and> (l = 0 \<or> item_less cmp items target (rs ! l))"
        using dec k GetRestartPoint_item [OF 1(3), of mid] mid 1(3-6) item
        by (intro 1(1) [OF True mid_def]) auto
      then show ?thesis using step less by simp
    next
      case less: False
      then have "\<exists>l. Seek_search cmp it target left (mid - 1) = Some l \<and> l < length rs \<and> (l = 0 \<or> item_less cmp items target (rs ! l))"
        using dec k GetRestartPoint_item [OF 1(3), of mid] mid 1(3-6) item
        by (intro 1(2) [OF True mid_def]) auto
      then show ?thesis using step less by simp
    qed
  qed
qed

lemma BI_SeekToLast_at:
  assumes over: "bi_over it items rs" and sorted: "sorted_entries (Compare cmp) key_ok (map snd items)"
  shows "\<exists>it'. BI_SeekToLast it = Some it' \<and> block_at cmp key_ok it' (map snd items) (length items - 1)"
proof -
  let ?r = "length rs - 1"
  have ok: "restarts_ok items rs" and r: "?r < length rs" and num: "bi_num_restarts it = length rs"
    and restarts: "bi_restarts it = item_off items (length items)"
    using over by (auto simp: bi_over_def block_rep_def restarts_ok_def item_off_end)
  have ready: "bi_ready (SeekToRestartPoint ?r it) items rs (rs ! ?r)" by (rule SeekToRestartPoint_ready [OF over r])
  show ?thesis
  proof (cases "items = []")
    case True
    then have "bi_ready (SeekToRestartPoint ?r it) items rs (length items)" using ready restarts_okD(1) [OF ok r] by simp
    then obtain it' where it': "ParseNextKey (SeekToRestartPoint ?r it) = (False, it')" "bi_end it' items rs"
      using ParseNextKey_end by blast
    then have "BI_SeekToLast it = Some it'" by (simp add: BI_SeekToLast_def num) (subst parse_until.simps, simp)
    then show ?thesis using block_at_endI [OF it'(2) sorted] True by simp
  next
    case False
    have "Suc (length items - 1) = length items" using False by simp
    then show ?thesis
      using parse_until_item [OF ready, of "length items - 1"] restarts_okD(4) [OF ok r False] restarts num
        block_at_itemI [OF _ sorted] by (auto simp: BI_SeekToLast_def)
  qed
qed

lemma BI_Prev_at:
  assumes item: "bi_item it items rs n" and sorted: "sorted_entries (Compare cmp) key_ok (map snd items)"
  shows "\<exists>it'. BI_Prev it = Some it' \<and> block_at cmp key_ok it' (map snd items) (if n = 0 then length items else n - 1)"
proof -
  have over: "bi_over it items rs" and n: "n < length items" and cur: "bi_current it = item_off items n"
    and r: "bi_restart_index it < length rs"
    using item by (simp_all add: bi_item_def)
  note before = restart_before_spec [OF over less_imp_le [OF n] r]
  show ?thesis
  proof (cases "restart_before it (item_off items n) (bi_restart_index it)")
    case None
    have "bi_end (it\<lparr>bi_current := bi_restarts it, bi_restart_index := bi_num_restarts it\<rparr>) items rs"
      using over by (simp add: bi_end_def)
    then show ?thesis using None before block_at_endI [OF _ sorted] by (simp add: BI_Prev_def cur)
  next
    case (Some r')
    then have r': "r' < length rs" "rs ! r' < n" using before by auto
    have m: "Suc (n - 1) = n" "rs ! r' \<le> n - 1" "n - 1 < length items" using r'(2) n by simp_all
    obtain it' where "parse_until (item_off items n) (SeekToRestartPoint r' it) = Some it'" "bi_item it' items rs (n - 1)"
      using parse_until_item [OF SeekToRestartPoint_ready [OF over r'(1)] m(2,3)] m(1) by auto
    then show ?thesis using r'(2) Some block_at_itemI [OF _ sorted] by (simp add: BI_Prev_def cur)
  qed
qed

context key_comparator
begin

lemma Seek_linear_spec:
  assumes "bi_ready it items rs j" and sorted: "sorted_entries (Compare cmp) key_ok (map snd items)" and target: "key_ok target"
    and "\<And>i. i < j \<Longrightarrow> item_less cmp items target i"
  shows "\<exists>it'. Seek_linear cmp target it = Some it' \<and>
    block_at cmp key_ok it' (map snd items) (seek_pos (Compare cmp) target (map snd items))"
  using assms(1,4)
proof (induction "length items - j" arbitrary: j it)
  case 0
  then have j: "j = length items" by (simp add: bi_ready_def)
  then obtain it' where it': "ParseNextKey it = (False, it')" "bi_end it' items rs" using ParseNextKey_end 0(2) by blast
  have "seek_pos (Compare cmp) target (map snd items) = length items"
    by (rule seek_posI [OF sorted target]) (use 0(3) j in auto)
  then show ?case using it' block_at_endI [OF it'(2) sorted] by (subst Seek_linear.simps) simp
next
  case (Suc d)
  then have j: "j < length items" by simp
  obtain it' where it': "ParseNextKey it = (True, it')" "bi_item it' items rs j" using ParseNextKey_item [OF Suc(3) j] by blast
  then have key: "bi_key it' = fst (snd (items ! j))" by (simp add: bi_item_def)
  show ?case
  proof (cases "item_less cmp items target j")
    case True
    then have "\<exists>it''. Seek_linear cmp target it' = Some it'' \<and>
        block_at cmp key_ok it'' (map snd items) (seek_pos (Compare cmp) target (map snd items))"
      using Suc by (intro Suc(1) [OF _ bi_item_ready [OF it'(2)]]) (auto simp: less_Suc_eq)
    then show ?thesis using it'(1) key True by (subst Seek_linear.simps) simp
  next
    case False
    have "seek_pos (Compare cmp) target (map snd items) = j"
      by (rule seek_posI [OF sorted target]) (use Suc(4) j False in auto)
    then show ?thesis
      using it'(1) key False block_at_itemI [OF it'(2) sorted] by (subst Seek_linear.simps) simp
  qed
qed

lemma items_less_trans:
  assumes sorted: "sorted_entries (Compare cmp) key_ok (map snd items)" and "key_ok target"
    and "i \<le> j" and "j < length items" and "item_less cmp items target j"
  shows "item_less cmp items target i"
proof (cases "i = j")
  case False
  then have "Compare cmp (fst (snd (items ! i))) (fst (snd (items ! j))) < 0"
    using sorted_entries_nth [OF sorted, of i j] assms(3,4) by simp
  then show ?thesis
    using compare_less_trans [of "fst (snd (items ! i))" "fst (snd (items ! j))" target]
      sorted_entries_ok [OF sorted, of i] sorted_entries_ok [OF sorted, of j] assms(2-5) by simp
qed (use assms in simp)

lemma BI_Seek_at:
  assumes at: "block_at cmp key_ok it es n" and target: "key_ok target"
  shows "\<exists>it'. BI_Seek cmp target it = Some it' \<and> block_at cmp key_ok it' es (seek_pos (Compare cmp) target es)"
proof -
  obtain items rs where es: "es = map snd items" and sorted: "sorted_entries (Compare cmp) key_ok (map snd items)"
    and over: "bi_over it items rs" and item: "n < length es \<Longrightarrow> bi_item it items rs n"
    and stop: "\<not> n < length es \<Longrightarrow> n = length es \<and> bi_end it items rs"
    using block_atE [OF at] by metis
  have ok: "restarts_ok items rs" and num: "bi_num_restarts it = length rs" "length rs - 1 < length rs"
    using over by (auto simp: bi_over_def block_rep_def restarts_ok_def)
  have linear: "\<exists>it'. Seek_linear cmp target (SeekToRestartPoint l it) = Some it' \<and> block_at cmp key_ok it' es (seek_pos (Compare cmp) target es)"
    if l: "l < length rs" "l = 0 \<or> item_less cmp items target (rs ! l)" for l
  proof -
    have "item_less cmp items target i" if "i < rs ! l" for i
      using that l restarts_okD [OF ok l(1)] items_less_trans [OF sorted target, of i "rs ! l"] by fastforce
    then show ?thesis
      using Seek_linear_spec [OF SeekToRestartPoint_ready [OF over l(1)] sorted target] es by blast
  qed
  show ?thesis
  proof (cases "n < length es")
    case False
    then have "\<not> BI_Valid it" using stop by (simp add: BI_Valid_def bi_end_def)
    moreover obtain l where "Seek_search cmp it target 0 (length rs - 1) = Some l" "l < length rs" "l = 0 \<or> item_less cmp items target (rs ! l)"
      using Seek_search_spec [OF over num(2), of 0 cmp target] by auto
    ultimately show ?thesis using linear [of l] num(1) by (simp add: BI_Seek_def Let_def)
  next
    case True
    note it = item [OF True]
    let ?r = "bi_restart_index it" and ?c = "Compare cmp (fst (snd (items ! n))) target"
    have n: "n < length items" using True es by simp
    have r: "?r < length rs" "rs ! ?r \<le> n" and key: "bi_key it = fst (snd (items ! n))" using it by (simp_all add: bi_item_def)
    have valid: "BI_Valid it"
      using it over item_off_less [of n "length items" items] n by (simp add: BI_Valid_def bi_item_def bi_over_def item_off_end)
    show ?thesis
    proof (rule linorder_cases [of ?c 0])
      assume c: "?c = 0"
      have "item_less cmp items target i" if "i < n" for i
        using that n c compare_less_le_trans [of "fst (snd (items ! i))" "fst (snd (items ! n))" target] target
          sorted_entries_ok [OF sorted, of i] sorted_entries_ok [OF sorted, of n] sorted_entries_nth [OF sorted, of i n] by simp
      then have "seek_pos (Compare cmp) target es = n"
        unfolding es using n c by (intro seek_posI [OF sorted target]) simp_all
      then show ?thesis using at valid key c by (simp add: BI_Seek_def)
    next
      assume c: "?c < 0"
      have less: "item_less cmp items target i" if "i < Suc n" for i
        using items_less_trans [OF sorted target, of i n] that n c by simp
      have "?r \<le> length rs - 1" using r(1) by linarith
      then obtain l where l: "Seek_search cmp it target ?r (length rs - 1) = Some l" "l < length rs" "l = 0 \<or> item_less cmp items target (rs ! l)"
        using Seek_search_spec [OF over num(2), of ?r cmp target] r less [of "rs ! ?r"] by auto
      show ?thesis
        using l linear [OF l(2,3)] Seek_linear_spec [OF bi_item_ready [OF it] sorted target less] valid key c num(1) es
        by (cases "l = ?r") (simp_all add: BI_Seek_def Let_def)
    next
      assume c: "0 < ?c"
      obtain l where l: "Seek_search cmp it target 0 ?r = Some l" "l < length rs" "l = 0 \<or> item_less cmp items target (rs ! l)"
        using Seek_search_spec [OF over r(1), of 0 cmp target] by auto
      show ?thesis using l(1) linear [OF l(2,3)] valid key c by (simp add: BI_Seek_def Let_def)
    qed
  qed
qed

lemma block_cursor: "cursor (Compare cmp) key_ok (BlockIterOps cmp) (block_at cmp key_ok)"
proof
  fix it es n assume at: "block_at cmp key_ok it es n"
  obtain items rs where es: "es = map snd items" and sorted: "sorted_entries (Compare cmp) key_ok (map snd items)"
    and over: "bi_over it items rs" and item: "n < length es \<Longrightarrow> bi_item it items rs n"
    and stop: "\<not> n < length es \<Longrightarrow> n = length es \<and> bi_end it items rs"
    using block_atE [OF at] by metis
  have ok: "restarts_ok items rs" and rs: "0 < length rs" "rs ! 0 = 0" and num: "bi_num_restarts it = length rs"
    using over by (auto simp: bi_over_def block_rep_def restarts_ok_def)
  have restarts: "bi_restarts it = item_off items (length items)" using over by (simp add: bi_over_def item_off_end)
  show "n \<le> length es" using stop by (cases "n < length es") auto
  show "sorted_entries (Compare cmp) key_ok es" using sorted es by simp
  show "It_Valid (BlockIterOps cmp) it \<longleftrightarrow> n < length es"
    using item stop restarts item_off_less [of n "length items" items] es
    by (cases "n < length es") (auto simp: BlockIterOps_def BI_Valid_def bi_item_def bi_end_def)
  show "It_status (BlockIterOps cmp) it = OK" using over by (simp add: BlockIterOps_def bi_over_def)
  show "\<exists>it'. It_SeekToFirst (BlockIterOps cmp) it = Some it' \<and> block_at cmp key_ok it' es 0"
    using ParseNextKey_at [OF SeekToRestartPoint_ready [OF over rs(1)] sorted] rs(2) es
    by (simp add: BlockIterOps_def BI_SeekToFirst_def)
  show "\<exists>it'. It_SeekToLast (BlockIterOps cmp) it = Some it' \<and> block_at cmp key_ok it' es (length es - 1)"
    using BI_SeekToLast_at [OF over sorted] es by (simp add: BlockIterOps_def)
  show "\<exists>it'. It_Seek (BlockIterOps cmp) k it = Some it' \<and> block_at cmp key_ok it' es (seek_pos (Compare cmp) k es)" if "key_ok k" for k
    using BI_Seek_at [OF at that] by (simp add: BlockIterOps_def)
  assume n: "n < length es"
  show "It_key (BlockIterOps cmp) it = fst (es ! n)" "It_value (BlockIterOps cmp) it = snd (es ! n)"
    using item [OF n] n es by (simp_all add: BlockIterOps_def bi_item_def)
  show "\<exists>it'. It_Next (BlockIterOps cmp) it = Some it' \<and> block_at cmp key_ok it' es (Suc n)"
    using ParseNextKey_at [OF bi_item_ready [OF item [OF n]] sorted] es by (simp add: BlockIterOps_def BI_Next_def)
  show "\<exists>it'. It_Prev (BlockIterOps cmp) it = Some it' \<and> block_at cmp key_ok it' es (if n = 0 then length es else n - 1)"
    using BI_Prev_at [OF item [OF n] sorted] es by (cases "n = 0") (simp_all add: BlockIterOps_def)
qed

end

interpretation bytewise_block: cursor "Compare BytewiseComparator" "\<lambda>_. True" "BlockIterOps BytewiseComparator" "block_at BytewiseComparator (\<lambda>_. True)"
  by (rule bytewise.block_cursor)

interpretation internal_block: cursor "Compare (InternalKeyComparator BytewiseComparator)" "internal_key_ok (\<lambda>_. True)"
    "BlockIterOps (InternalKeyComparator BytewiseComparator)"
    "block_at (InternalKeyComparator BytewiseComparator) (internal_key_ok (\<lambda>_. True))"
  by (rule internal.block_cursor)

section \<open>What the builder writes\<close>

definition bb_rep :: "BlockBuilder \<Rightarrow> item list \<Rightarrow> nat list \<Rightarrow> bool" where
  "bb_rep b items rs \<longleftrightarrow>
     bb_buffer b = enc_items items \<and> bb_restarts b = map (\<lambda>r. word_of_nat (item_off items r)) rs \<and>
     item_chain [] items \<and> restarts_ok items rs \<and> (0 < bb_counter b \<longrightarrow> items \<noteq> []) \<and>
     bb_last_key b = (if items = [] then [] else fst (snd (last items)))"

lemma shared_prefix_spec: "shared_prefix a b \<le> length a \<and> shared_prefix a b \<le> length b \<and> take (shared_prefix a b) a = take (shared_prefix a b) b"
  by (induction a b rule: shared_prefix.induct) auto

lemma item_chain_snoc:
  "item_chain prev (items @ [(sh, k, v)]) \<longleftrightarrow>
     item_chain prev items \<and>
     (let p = (if items = [] then prev else fst (snd (last items))) in sh \<le> length p \<and> sh \<le> length k \<and> take sh p = take sh k)"
  by (induction prev items rule: item_chain.induct) (auto simp: Let_def)

lemma item_off_snoc: "r \<le> length items \<Longrightarrow> item_off (items @ [x]) r = item_off items r"
  by (simp add: item_off_def)

lemma make_BlockBuilder_rep: "bb_rep make_BlockBuilder [] [0]"
  by (simp add: bb_rep_def make_BlockBuilder_def restarts_ok_def)

lemma BlockBuilder_Add_rep:
  assumes rep: "bb_rep b items rs" and "1 \<le> interval"
  shows "\<exists>sh rs'. bb_rep (BlockBuilder_Add interval key value b) (items @ [(sh, key, value)]) rs'"
proof (cases "bb_counter b < interval")
  case True
  let ?sh = "shared_prefix (bb_last_key b) key"
  note sh = shared_prefix_spec [of "bb_last_key b" key]
  have "items = [] \<Longrightarrow> ?sh = 0" using rep by (simp add: bb_rep_def)
  then have "restarts_ok (items @ [(?sh, key, value)]) rs"
    using rep by (auto simp: bb_rep_def restarts_ok_def nth_append less_Suc_eq)
  moreover have "item_chain [] (items @ [(?sh, key, value)])"
    using rep sh by (auto simp: bb_rep_def item_chain_snoc Let_def split: if_splits)
  moreover have "map (\<lambda>r. word_of_nat (item_off items r)) rs = (map (\<lambda>r. word_of_nat (item_off (items @ [(?sh, key, value)]) r)) rs :: u32 list)"
    using rep by (auto simp: bb_rep_def restarts_ok_def item_off_snoc)
  moreover have "take ?sh (bb_last_key b) @ drop ?sh key = key" using sh by simp
  ultimately have "bb_rep (BlockBuilder_Add interval key value b) (items @ [(?sh, key, value)]) rs"
    using rep True by (simp add: BlockBuilder_Add_def bb_rep_def Let_def PutVarint32_def enc_item_def item_header_def)
  then show ?thesis by blast
next
  case False
  then have ne: "items \<noteq> []" using rep assms(2) by (auto simp: bb_rep_def)
  let ?items = "items @ [(0, key, value)]" and ?rs = "rs @ [length items]"
  have "restarts_ok ?items ?rs"
    using rep ne by (auto simp: bb_rep_def restarts_ok_def nth_append sorted_wrt_append)
  moreover have "map (\<lambda>r. word_of_nat (item_off items r)) rs = (map (\<lambda>r. word_of_nat (item_off ?items r)) rs :: u32 list)"
    using rep by (auto simp: bb_rep_def restarts_ok_def item_off_snoc)
  moreover have "item_off ?items (length items) = length (enc_items items)" by (simp add: item_off_def)
  ultimately have "bb_rep (BlockBuilder_Add interval key value b) ?items ?rs"
    using rep False by (simp add: BlockBuilder_Add_def bb_rep_def Let_def PutVarint32_def enc_item_def item_header_def item_chain_snoc)
  then show ?thesis by blast
qed

definition build_block :: "nat \<Rightarrow> entries \<Rightarrow> bytes" where
  "build_block interval es =
     fst (BlockBuilder_Finish (foldl (\<lambda>b (k, v). BlockBuilder_Add interval k v b) make_BlockBuilder es))"

lemma build_rep:
  assumes "bb_rep b items rs" and "1 \<le> interval"
  shows "\<exists>items' rs'. bb_rep (foldl (\<lambda>b (k, v). BlockBuilder_Add interval k v b) b es) (items @ items') rs' \<and> map snd items' = es"
  using assms(1)
proof (induction es arbitrary: b items rs)
  case (Cons e es)
  obtain k v where e: "e = (k, v)" by fastforce
  obtain sh rs1 where "bb_rep (BlockBuilder_Add interval k v b) (items @ [(sh, k, v)]) rs1"
    using BlockBuilder_Add_rep [OF Cons.prems assms(2)] by blast
  from Cons.IH [OF this] obtain items' rs' where
    "bb_rep (foldl (\<lambda>b (k, v). BlockBuilder_Add interval k v b) (BlockBuilder_Add interval k v b) es) ((items @ [(sh, k, v)]) @ items') rs'"
    "map snd items' = es" by blast
  then show ?case by (intro exI [of _ "(sh, k, v) # items'"] exI [of _ rs']) (simp add: e)
qed auto

lemma foldl_PutFixed32: "foldl PutFixed32 dst ws = dst @ concat (map EncodeFixed32 ws)"
  by (induction ws arbitrary: dst) (simp_all add: PutFixed32_def)

lemma build_block_rep:
  assumes "1 \<le> interval" and "length (build_block interval es) < 2 ^ 32"
  shows "\<exists>items rs. block_rep (build_block interval es) items rs \<and> map snd items = es"
proof -
  obtain items rs where b: "bb_rep (foldl (\<lambda>b (k, v). BlockBuilder_Add interval k v b) make_BlockBuilder es) items rs" "map snd items = es"
    using build_rep [OF make_BlockBuilder_rep assms(1), of es] by auto
  then have "build_block interval es = enc_items items @ concat (map (\<lambda>r. EncodeFixed32 (word_of_nat (item_off items r))) rs) @ EncodeFixed32 (size32 rs)"
    by (simp add: build_block_def BlockBuilder_Finish_def bb_rep_def foldl_PutFixed32 PutFixed32_def o_def Let_def)
  then show ?thesis using assms(2) b unfolding block_rep_def bb_rep_def by blast
qed

lemma NewIterator_end:
  assumes rep: "block_rep data items rs"
  shows "\<exists>it. Block_NewIterator (make_Block data) = Iter it \<and> bi_end it items rs"
proof -
  obtain tail where data: "data = enc_items items @ tail"
    and tail: "tail = concat (map EncodeFixed32 (map (\<lambda>r. word_of_nat (item_off items r)) rs)) @ EncodeFixed32 (size32 rs)"
    and small: "length data < 2 ^ 32" and ok: "restarts_ok items rs"
    by (rule block_repE [OF rep])
  let ?body = "enc_items items @ concat (map EncodeFixed32 (map (\<lambda>r. word_of_nat (item_off items r)) rs))"
  have len: "length (concat (map EncodeFixed32 ws)) = length ws * 4" for ws by (induction ws) simp_all
  have size: "length data = length (enc_items items) + length rs * 4 + 4" by (simp only: data tail length_append len length_map) simp
  have "drop (length data - 4) data = EncodeFixed32 (size32 rs)" by (simp add: data tail)
  then have num: "unat (DecodeFixed32 (drop (length data - 4) data)) = length rs"
    using small size by (simp add: unat_of_nat_small)
  have "0 < length rs" using ok by (auto simp: restarts_ok_def)
  then have "Block_NewIterator (make_Block data) = Iter (make_BlockIter data (length (enc_items items)) (length rs))"
    using num size by (simp add: Block_NewIterator_def make_Block_def NumRestarts_def Let_def)
  then show ?thesis using rep by (simp add: make_BlockIter_def bi_end_def bi_over_def)
qed

section \<open>Properties\<close>

lemma built_block_at:
  assumes "1 \<le> interval" and "sorted_entries (Compare cmp) key_ok es" and "length (build_block interval es) < 2 ^ 32"
  shows "\<exists>it. Block_NewIterator (make_Block (build_block interval es)) = Iter it \<and> block_at cmp key_ok it es (length es)"
proof -
  obtain items rs where "block_rep (build_block interval es) items rs" and es: "map snd items = es"
    using build_block_rep [OF assms(1,3)] by blast
  from NewIterator_end [OF this(1)] obtain it
    where it: "Block_NewIterator (make_Block (build_block interval es)) = Iter it" "bi_end it items rs" by blast
  then show ?thesis using block_at_endI [OF it(2), of cmp key_ok] assms(2) es by auto
qed

text \<open>C16. Blocks hold what was put into them: for every restart interval and every sorted list of entries,
  the iterator over the finished block is a cursor over exactly this list. \<^verbatim>\<open>SeekToFirst\<close>, \<^verbatim>\<open>SeekToLast\<close>,
  \<^verbatim>\<open>Next\<close> and \<^verbatim>\<open>Prev\<close> move it along the list, \<^verbatim>\<open>Seek\<close> moves it, from wherever it stands, to the first key that
  is not smaller than the target, all of them return, and no corruption is reported.\<close>

theorem block_iterator_is_cursor:
  assumes "key_comparator cmp key_ok" and "1 \<le> interval" and "sorted_entries (Compare cmp) key_ok es"
    and "length (build_block interval es) < 2 ^ 32"
  shows "cursor (Compare cmp) key_ok (BlockIterOps cmp) (block_at cmp key_ok) \<and>
    (\<exists>it. Block_NewIterator (make_Block (build_block interval es)) = Iter it \<and> block_at cmp key_ok it es (length es))"
  using built_block_at [OF assms(2-4)] key_comparator.block_cursor [OF assms(1)] by blast

lemma small_block: "length (build_block 2 [([1], [2]), ([1, 2], []), ([3], [4])]) < 2 ^ 32"
  by (simp add: build_block_def make_BlockBuilder_def BlockBuilder_Add_def BlockBuilder_Finish_def Let_def PutVarint32_def
      PutFixed32_def EncodeVarint32_def)

theorem block_iterator_is_cursor_witness:
  "\<exists>it. Block_NewIterator (make_Block (build_block 2 [([1], [2]), ([1, 2], []), ([3], [4])])) = Iter it \<and>
    block_at BytewiseComparator (\<lambda>_. True) it [([1], [2]), ([1, 2], []), ([3], [4])] 3"
  using block_iterator_is_cursor [OF bytewise.key_comparator_axioms, of 2 "[([1], [2]), ([1, 2], []), ([3], [4])]"] small_block
  by (simp add: sorted_entries_def numeral_3_eq_3)

text \<open>C17. Reading a finished block from the front returns the entries that were added, in order.\<close>

theorem block_roundtrip:
  assumes "key_comparator cmp key_ok" and "1 \<le> interval" and "sorted_entries (Compare cmp) key_ok es"
    and "length (build_block interval es) < 2 ^ 32"
  shows "\<exists>it. Block_NewIterator (make_Block (build_block interval es)) = Iter it \<and>
    collect (BlockIterOps cmp) (BI_SeekToFirst it) [] = Some es"
proof -
  obtain it where it: "Block_NewIterator (make_Block (build_block interval es)) = Iter it" "block_at cmp key_ok it es (length es)"
    using built_block_at [OF assms(2-4)] by blast
  have c: "cursor (Compare cmp) key_ok (BlockIterOps cmp) (block_at cmp key_ok)" by (rule key_comparator.block_cursor [OF assms(1)])
  from cursor.at_first [OF c it(2)] have "block_at cmp key_ok (BI_SeekToFirst it) es 0" by (simp add: BlockIterOps_def)
  from cursor.collect_at [OF c this] show ?thesis using it(1) by auto
qed

theorem block_roundtrip_witness:
  "\<exists>it. Block_NewIterator (make_Block (build_block 2 [([1], [2]), ([1, 2], []), ([3], [4])])) = Iter it \<and>
    collect (BlockIterOps BytewiseComparator) (BI_SeekToFirst it) [] = Some [([1], [2]), ([1, 2], []), ([3], [4])]"
  using block_roundtrip [OF bytewise.key_comparator_axioms, of 2 "[([1], [2]), ([1, 2], []), ([3], [4])]"] small_block
  by (simp add: sorted_entries_def)


end
