(* ===== verification/Merger.thy ===== *)
theory Merger
  imports Block
begin

text \<open>
  The merging iterator (table/merger.cc). It keeps one wrapped iterator per child, the index of the
  child it stands on, and the direction it last moved in, which says where the other children stand.
  Over children that are cursors with no key in common it is a cursor over the merged list.
\<close>

section \<open>The iterator\<close>

datatype direction = kForward | kReverse

record 'i MergingIterator =
  mi_children :: "'i IteratorWrapper list"
  mi_current :: "nat option"
  mi_direction :: direction

text \<open>An operation on every child in turn.\<close>

fun all_children :: "('a \<Rightarrow> 'b option) \<Rightarrow> 'a list \<Rightarrow> 'b list option" where
  "all_children f [] = Some []"
| "all_children f (w # ws) =
     (case f w of None \<Rightarrow> None | Some w' \<Rightarrow> map_option (Cons w') (all_children f ws))"

definition make_MergingIterator :: "'i Iterator \<Rightarrow> 'i list \<Rightarrow> 'i MergingIterator" where
  "make_MergingIterator ops children =
     \<lparr>mi_children = map (\<lambda>it. IW_Set ops (Some it) make_IteratorWrapper) children, mi_current = None,
      mi_direction = kForward\<rparr>"

definition better :: "(bytes \<Rightarrow> bytes \<Rightarrow> bool) \<Rightarrow> 'i IteratorWrapper list \<Rightarrow> nat option \<Rightarrow> nat \<Rightarrow> nat option" where
  "better wins ws best i =
     (if iw_valid (ws ! i) then
        (case best of
           None \<Rightarrow> Some i
         | Some b \<Rightarrow> if wins (iw_key (ws ! i)) (iw_key (ws ! b)) then Some i else best)
      else best)"

definition FindSmallest :: "(bytes \<Rightarrow> bytes \<Rightarrow> int) \<Rightarrow> 'i IteratorWrapper list \<Rightarrow> nat option" where
  "FindSmallest compare ws = foldl (better (\<lambda>a b. compare a b < 0) ws) None [0..<length ws]"

definition FindLargest :: "(bytes \<Rightarrow> bytes \<Rightarrow> int) \<Rightarrow> 'i IteratorWrapper list \<Rightarrow> nat option" where
  "FindLargest compare ws = foldl (better (\<lambda>a b. 0 < compare a b) ws) None (rev [0..<length ws])"

definition MI_Valid :: "'i MergingIterator \<Rightarrow> bool" where
  "MI_Valid m \<longleftrightarrow> mi_current m \<noteq> None"

definition MI_SeekToFirst ::
  "(bytes \<Rightarrow> bytes \<Rightarrow> int) \<Rightarrow> 'i Iterator \<Rightarrow> 'i MergingIterator \<Rightarrow> 'i MergingIterator option" where
  "MI_SeekToFirst compare ops m =
     map_option (\<lambda>ws. m\<lparr>mi_children := ws, mi_current := FindSmallest compare ws, mi_direction := kForward\<rparr>)
       (all_children (IW_move ops (It_SeekToFirst ops)) (mi_children m))"

definition MI_SeekToLast ::
  "(bytes \<Rightarrow> bytes \<Rightarrow> int) \<Rightarrow> 'i Iterator \<Rightarrow> 'i MergingIterator \<Rightarrow> 'i MergingIterator option" where
  "MI_SeekToLast compare ops m =
     map_option (\<lambda>ws. m\<lparr>mi_children := ws, mi_current := FindLargest compare ws, mi_direction := kReverse\<rparr>)
       (all_children (IW_move ops (It_SeekToLast ops)) (mi_children m))"

definition MI_Seek ::
  "(bytes \<Rightarrow> bytes \<Rightarrow> int) \<Rightarrow> 'i Iterator \<Rightarrow> bytes \<Rightarrow> 'i MergingIterator \<Rightarrow> 'i MergingIterator option" where
  "MI_Seek compare ops target m =
     map_option (\<lambda>ws. m\<lparr>mi_children := ws, mi_current := FindSmallest compare ws, mi_direction := kForward\<rparr>)
       (all_children (IW_move ops (It_Seek ops target)) (mi_children m))"

definition MI_key :: "'i MergingIterator \<Rightarrow> bytes" where
  "MI_key m = iw_key (mi_children m ! the (mi_current m))"

definition MI_value :: "'i Iterator \<Rightarrow> 'i MergingIterator \<Rightarrow> bytes" where
  "MI_value ops m = IW_value ops (mi_children m ! the (mi_current m))"

text \<open>Positioning a child other than the current one after the key, and before it.\<close>

definition child_after ::
  "(bytes \<Rightarrow> bytes \<Rightarrow> int) \<Rightarrow> 'i Iterator \<Rightarrow> bytes \<Rightarrow> 'i IteratorWrapper \<Rightarrow> 'i IteratorWrapper option" where
  "child_after compare ops key w =
     (case IW_move ops (It_Seek ops key) w of
        None \<Rightarrow> None
      | Some w \<Rightarrow>
          if iw_valid w \<and> compare key (iw_key w) = 0 then IW_move ops (It_Next ops) w else Some w)"

definition child_before :: "'i Iterator \<Rightarrow> bytes \<Rightarrow> 'i IteratorWrapper \<Rightarrow> 'i IteratorWrapper option" where
  "child_before ops key w =
     (case IW_move ops (It_Seek ops key) w of
        None \<Rightarrow> None
      | Some w \<Rightarrow>
          if iw_valid w then IW_move ops (It_Prev ops) w else IW_move ops (It_SeekToLast ops) w)"

definition other_children ::
  "('i IteratorWrapper \<Rightarrow> 'i IteratorWrapper option) \<Rightarrow> nat \<Rightarrow> 'i IteratorWrapper list \<Rightarrow> 'i IteratorWrapper list option" where
  "other_children f current ws = all_children (\<lambda>(i, w). if i \<noteq> current then f w else Some w) (enumerate 0 ws)"

text \<open>Moving the current child.\<close>

definition move_current ::
  "'i Iterator \<Rightarrow> ('i \<Rightarrow> 'i option) \<Rightarrow> nat \<Rightarrow> 'i IteratorWrapper list \<Rightarrow> 'i IteratorWrapper list option" where
  "move_current ops f current ws = map_option (\<lambda>w. ws[current := w]) (IW_move ops f (ws ! current))"

definition MI_Next ::
  "(bytes \<Rightarrow> bytes \<Rightarrow> int) \<Rightarrow> 'i Iterator \<Rightarrow> 'i MergingIterator \<Rightarrow> 'i MergingIterator option" where
  "MI_Next compare ops m =
     (let current = the (mi_current m) in
      case (if mi_direction m \<noteq> kForward
            then other_children (child_after compare ops (MI_key m)) current (mi_children m)
            else Some (mi_children m)) of
        None \<Rightarrow> None
      | Some ws \<Rightarrow>
          map_option (\<lambda>ws. m\<lparr>mi_children := ws, mi_current := FindSmallest compare ws, mi_direction := kForward\<rparr>)
            (move_current ops (It_Next ops) current ws))"

definition MI_Prev ::
  "(bytes \<Rightarrow> bytes \<Rightarrow> int) \<Rightarrow> 'i Iterator \<Rightarrow> 'i MergingIterator \<Rightarrow> 'i MergingIterator option" where
  "MI_Prev compare ops m =
     (let current = the (mi_current m) in
      case (if mi_direction m \<noteq> kReverse
            then other_children (child_before ops (MI_key m)) current (mi_children m)
            else Some (mi_children m)) of
        None \<Rightarrow> None
      | Some ws \<Rightarrow>
          map_option (\<lambda>ws. m\<lparr>mi_children := ws, mi_current := FindLargest compare ws, mi_direction := kReverse\<rparr>)
            (move_current ops (It_Prev ops) current ws))"

fun first_error :: "status list \<Rightarrow> status" where
  "first_error [] = OK"
| "first_error (s # ss) = (if \<not> status_ok s then s else if ss = [] then s else first_error ss)"

definition MI_status :: "'i Iterator \<Rightarrow> 'i MergingIterator \<Rightarrow> status" where
  "MI_status ops m = first_error (map (IW_status ops) (mi_children m))"

definition MergingOps :: "(bytes \<Rightarrow> bytes \<Rightarrow> int) \<Rightarrow> 'i Iterator \<Rightarrow> 'i MergingIterator Iterator" where
  "MergingOps compare ops =
     \<lparr>It_Valid = MI_Valid, It_SeekToFirst = MI_SeekToFirst compare ops, It_SeekToLast = MI_SeekToLast compare ops,
      It_Seek = MI_Seek compare ops, It_Next = MI_Next compare ops, It_Prev = MI_Prev compare ops, It_key = MI_key,
      It_value = MI_value ops, It_status = MI_status ops\<rparr>"

datatype 'i merged_iterator = NoChild status | OneChild 'i | Merging "'i MergingIterator"

definition NewMergingIterator :: "'i Iterator \<Rightarrow> 'i list \<Rightarrow> 'i merged_iterator" where
  "NewMergingIterator ops children =
     (case children of
        [] \<Rightarrow> NoChild NewEmptyIterator
      | [it] \<Rightarrow> OneChild it
      | _ \<Rightarrow> Merging (make_MergingIterator ops children))"

text \<open>The operations of what \<^verbatim>\<open>NewMergingIterator\<close> returns, by the class of the object.\<close>

definition merged_move ::
  "(status \<Rightarrow> status option) \<Rightarrow> ('i \<Rightarrow> 'i option) \<Rightarrow> ('i MergingIterator \<Rightarrow> 'i MergingIterator option) \<Rightarrow>
     'i merged_iterator \<Rightarrow> 'i merged_iterator option" where
  "merged_move f g h it =
     (case it of
        NoChild s \<Rightarrow> map_option NoChild (f s)
      | OneChild i \<Rightarrow> map_option OneChild (g i)
      | Merging m \<Rightarrow> map_option Merging (h m))"

definition MergedOps :: "(bytes \<Rightarrow> bytes \<Rightarrow> int) \<Rightarrow> 'i Iterator \<Rightarrow> 'i merged_iterator Iterator" where
  "MergedOps compare ops =
     (let mops = MergingOps compare ops
      in \<lparr>It_Valid = case_merged_iterator (It_Valid EmptyIterator) (It_Valid ops) (It_Valid mops),
          It_SeekToFirst = merged_move (It_SeekToFirst EmptyIterator) (It_SeekToFirst ops) (It_SeekToFirst mops),
          It_SeekToLast = merged_move (It_SeekToLast EmptyIterator) (It_SeekToLast ops) (It_SeekToLast mops),
          It_Seek = \<lambda>k. merged_move (It_Seek EmptyIterator k) (It_Seek ops k) (It_Seek mops k),
          It_Next = merged_move (It_Next EmptyIterator) (It_Next ops) (It_Next mops),
          It_Prev = merged_move (It_Prev EmptyIterator) (It_Prev ops) (It_Prev mops),
          It_key = case_merged_iterator (It_key EmptyIterator) (It_key ops) (It_key mops),
          It_value = case_merged_iterator (It_value EmptyIterator) (It_value ops) (It_value mops),
          It_status = case_merged_iterator (It_status EmptyIterator) (It_status ops) (It_status mops)\<rparr>)"

section \<open>Merged lists\<close>

definition merged :: "(bytes \<Rightarrow> bytes \<Rightarrow> int) \<Rightarrow> (bytes \<Rightarrow> bool) \<Rightarrow> entries \<Rightarrow> entries list \<Rightarrow> bool" where
  "merged compare key_ok es ess \<longleftrightarrow>
     sorted_entries compare key_ok es \<and> (\<forall>xs \<in> set ess. sorted_entries compare key_ok xs) \<and>
     set es = \<Union> (set ` set ess) \<and>
     (\<forall>i < length ess. \<forall>j < length ess. i \<noteq> j \<longrightarrow> set (ess ! i) \<inter> set (ess ! j) = {})"

text \<open>How many entries of a child come before position \<open>n\<close> of the merged list.\<close>

definition child_pos :: "'e list \<Rightarrow> 'e list \<Rightarrow> nat \<Rightarrow> nat" where
  "child_pos es xs n = length (filter (\<lambda>e. e \<in> set xs) (take n es))"

definition back_pos :: "'e list \<Rightarrow> nat \<Rightarrow> nat" where
  "back_pos xs p = (if p = 0 then length xs else p - 1)"

lemma child_pos_0 [simp]: "child_pos es xs 0 = 0"
  by (simp add: child_pos_def)

lemma child_pos_Suc: "n < length es \<Longrightarrow> child_pos es xs (Suc n) = child_pos es xs n + (if es ! n \<in> set xs then 1 else 0)"
  by (simp add: child_pos_def take_Suc_conv_app_nth)

lemma takeWhile_filter:
  "sorted_wrt (\<lambda>a b. P b \<longrightarrow> P a) xs \<Longrightarrow> takeWhile P (filter Q xs) = filter Q (takeWhile P xs)"
proof (induction xs)
  case (Cons x xs)
  show ?case
  proof (cases "P x")
    case False
    then have "\<forall>y \<in> set (filter Q xs). \<not> P y" using Cons.prems by auto
    then have "takeWhile P (filter Q xs) = []" by (cases "filter Q xs") auto
    then show ?thesis using False by simp
  qed (use Cons in simp)
qed simp

context three_way
begin

lemma sorted_entries_distinct: "sorted_entries compare key_ok es \<Longrightarrow> distinct es"
proof (induction es)
  case (Cons e es)
  then have "e \<notin> set es" using compare_refl [of "fst e"] by (force simp: sorted_entries_def)
  then show ?case using Cons by (simp add: sorted_entries_def)
qed simp

lemma sorted_entries_filter: "sorted_entries compare key_ok es \<Longrightarrow> sorted_entries compare key_ok (filter Q es)"
  by (simp add: sorted_entries_def sorted_wrt_filter)

lemma sorted_entries_unique:
  assumes "sorted_entries compare key_ok xs" and "sorted_entries compare key_ok ys" and "set xs = set ys"
  shows "xs = ys"
  using assms
proof (induction xs arbitrary: ys)
  case (Cons x xs)
  then obtain y ys' where ys: "ys = y # ys'" by (cases ys) auto
  have less: "compare (fst a) (fst b) < 0 \<Longrightarrow> compare (fst b) (fst a) < 0 \<Longrightarrow> key_ok (fst a) \<Longrightarrow> key_ok (fst b) \<Longrightarrow> False" for a b :: "'k \<times> 'v"
    using compare_flip [of "fst a" "fst b"] by linarith
  have "x = y"
  proof (rule ccontr)
    assume "x \<noteq> y"
    then have "x \<in> set ys'" "y \<in> set xs" using Cons.prems(3) ys by auto
    then show False using less [of x y] Cons.prems(1,2) ys by (auto simp: sorted_entries_def)
  qed
  moreover have "set xs = set ys'"
    using Cons.prems sorted_entries_distinct [OF Cons.prems(1)] sorted_entries_distinct [OF Cons.prems(2)] \<open>x = y\<close> ys by auto
  ultimately show ?case using Cons ys by (auto simp: sorted_entries_def)
qed simp

lemma sub_entries_filter:
  assumes "sorted_entries compare key_ok es" and "sorted_entries compare key_ok xs" and "set xs \<subseteq> set es"
  shows "xs = filter (\<lambda>e. e \<in> set xs) es"
  by (rule sorted_entries_unique) (use assms sorted_entries_filter in auto)

lemma seek_pos_filter:
  assumes "sorted_entries compare key_ok es" and "key_ok k"
  shows "seek_pos compare k (filter Q es) = length (filter Q (take (seek_pos compare k es) es))"
proof -
  let ?p = "\<lambda>e. compare (fst e) k < 0"
  have "sorted_wrt (\<lambda>a b. ?p b \<longrightarrow> ?p a) es"
    unfolding sorted_wrt_iff_nth_less
    using compare_less_trans [OF sorted_entries_ok [OF assms(1)] sorted_entries_ok [OF assms(1)] assms(2)
        sorted_entries_nth [OF assms(1)]] by (meson less_trans)
  then show ?thesis by (simp add: seek_pos_def takeWhile_filter takeWhile_eq_take [symmetric])
qed

end

section \<open>Where the children stand\<close>

context three_way
begin

lemma child_pos_seek:
  assumes "sorted_entries compare key_ok es" and "sorted_entries compare key_ok xs" and "set xs \<subseteq> set es" and "key_ok k"
  shows "seek_pos compare k xs = child_pos es xs (seek_pos compare k es)"
  using seek_pos_filter [OF assms(1,4), of "\<lambda>e. e \<in> set xs"] sub_entries_filter [OF assms(1-3)]
  by (simp add: child_pos_def)

lemma child_pos_length:
  assumes "sorted_entries compare key_ok es" and "sorted_entries compare key_ok xs" and "set xs \<subseteq> set es"
  shows "child_pos es xs (length es) = length xs"
  using sub_entries_filter [OF assms] by (simp add: child_pos_def)

lemma child_split:
  assumes "sorted_entries compare key_ok es" and "sorted_entries compare key_ok xs" and "set xs \<subseteq> set es"
  shows "xs = filter (\<lambda>e. e \<in> set xs) (take n es) @ filter (\<lambda>e. e \<in> set xs) (drop n es)"
  using sub_entries_filter [OF assms] by (metis append_take_drop_id filter_append)

lemma child_pos_le:
  assumes "sorted_entries compare key_ok es" and "sorted_entries compare key_ok xs" and "set xs \<subseteq> set es"
  shows "child_pos es xs n \<le> length xs"
proof -
  have "length xs = child_pos es xs n + length (filter (\<lambda>e. e \<in> set xs) (drop n es))"
    using arg_cong [OF child_split [OF assms, of n], of length] by (simp add: child_pos_def)
  then show ?thesis by linarith
qed

text \<open>The child that has the entry at position \<open>n\<close> stands at it; the others stand at later ones.\<close>

lemma child_at_pos:
  assumes "sorted_entries compare key_ok es" and "sorted_entries compare key_ok xs" and "set xs \<subseteq> set es"
    and "n < length es" and "es ! n \<in> set xs"
  shows "child_pos es xs n < length xs" and "xs ! child_pos es xs n = es ! n"
proof -
  let ?q = "\<lambda>e. e \<in> set xs"
  have "xs = filter ?q (take n es) @ es ! n # filter ?q (drop (Suc n) es)"
    using child_split [OF assms(1-3), of n] Cons_nth_drop_Suc [OF assms(4)] assms(5)
    by (metis filter.simps(2))
  then show "child_pos es xs n < length xs" "xs ! child_pos es xs n = es ! n"
    unfolding child_pos_def by (metis length_append length_Cons less_add_same_cancel1 zero_less_Suc, metis nth_append_length)
qed

lemma child_forward_entry:
  assumes "sorted_entries compare key_ok es" and "sorted_entries compare key_ok xs" and "set xs \<subseteq> set es"
    and "child_pos es xs n < length xs"
  shows "\<exists>i. n \<le> i \<and> i < length es \<and> xs ! child_pos es xs n = es ! i"
proof -
  let ?q = "\<lambda>e. e \<in> set xs" let ?r = "filter ?q (drop n es)"
  have xs: "xs = filter ?q (take n es) @ ?r" by (rule child_split [OF assms(1-3)])
  then have "?r \<noteq> []" using assms(4) unfolding child_pos_def by (metis append_Nil2 less_irrefl)
  then have "xs ! child_pos es xs n = hd ?r" using xs unfolding child_pos_def by (metis hd_conv_nth nth_append_length_plus add_0_right)
  moreover have "hd ?r \<in> set (drop n es)" using \<open>?r \<noteq> []\<close> by (metis filter_is_subset hd_in_set subsetD)
  ultimately obtain i where "i < length es - n" "xs ! child_pos es xs n = drop n es ! i" by (auto simp: in_set_conv_nth)
  then show ?thesis by (intro exI [of _ "n + i"]) auto
qed

lemma child_backward_entry:
  assumes "sorted_entries compare key_ok es" and "sorted_entries compare key_ok xs" and "set xs \<subseteq> set es"
    and "0 < child_pos es xs n"
  shows "\<exists>i. i < n \<and> i < length es \<and> xs ! (child_pos es xs n - 1) = es ! i"
proof -
  let ?q = "\<lambda>e. e \<in> set xs" let ?l = "filter ?q (take n es)"
  have "xs ! (child_pos es xs n - 1) = ?l ! (child_pos es xs n - 1)"
    using child_split [OF assms(1-3), of n] assms(4) unfolding child_pos_def by (metis diff_less nth_append zero_less_one)
  moreover have "?l ! (child_pos es xs n - 1) \<in> set ?l" using assms(4) unfolding child_pos_def by (intro nth_mem) simp
  ultimately have "xs ! (child_pos es xs n - 1) \<in> set (take n es)" by simp
  then show ?thesis by (auto simp: in_set_conv_nth)
qed

end

section \<open>The loops over the children\<close>

lemma all_children_Some:
  assumes "\<And>j. j < length ws \<Longrightarrow> \<exists>w'. f (ws ! j) = Some w' \<and> P j w'"
  shows "\<exists>ws'. all_children f ws = Some ws' \<and> length ws' = length ws \<and> (\<forall>j < length ws. P j (ws' ! j))"
  using assms
proof (induction ws arbitrary: P)
  case (Cons w ws)
  obtain w' where w': "f w = Some w'" "P 0 w'" using Cons.prems [of 0] by auto
  obtain ws' where "all_children f ws = Some ws'" "length ws' = length ws" "\<forall>j < length ws. P (Suc j) (ws' ! j)"
    using Cons.IH [of "\<lambda>j. P (Suc j)"] Cons.prems [of "Suc _"] by auto
  then show ?case using w' by (intro exI [of _ "w' # ws'"]) (auto simp: less_Suc_eq_0_disj)
qed simp

lemma other_children_Some:
  assumes "\<And>j. j < length ws \<Longrightarrow> j \<noteq> c \<Longrightarrow> \<exists>w'. f (ws ! j) = Some w' \<and> P j w'" and "c < length ws"
  shows "\<exists>ws'. other_children f c ws = Some ws' \<and> length ws' = length ws \<and> ws' ! c = ws ! c \<and>
           (\<forall>j < length ws. j \<noteq> c \<longrightarrow> P j (ws' ! j))"
proof -
  let ?P = "\<lambda>j w'. if j = c then w' = ws ! c else P j w'"
  have "\<exists>ws'. other_children f c ws = Some ws' \<and> length ws' = length (enumerate 0 ws) \<and>
          (\<forall>j < length (enumerate 0 ws). ?P j (ws' ! j))"
    unfolding other_children_def
    by (rule all_children_Some) (use assms in \<open>auto simp: nth_enumerate_eq\<close>)
  then show ?thesis using assms(2) by auto
qed

lemma better_keeps:
  assumes "\<forall>j \<in> set js. j \<noteq> c \<longrightarrow> iw_valid (ws ! j) \<longrightarrow> \<not> wins (iw_key (ws ! j)) (iw_key (ws ! c))"
  shows "foldl (better wins ws) (Some c) js = Some c"
  using assms
proof (induction js)
  case (Cons i js)
  have "better wins ws (Some c) i = Some c" using Cons.prems by (auto simp: better_def)
  then show ?case using Cons by simp
qed simp

lemma better_finds:
  assumes "c \<in> set js" and "iw_valid (ws ! c)"
    and "\<forall>j \<in> set js. j \<noteq> c \<longrightarrow> iw_valid (ws ! j) \<longrightarrow>
           wins (iw_key (ws ! c)) (iw_key (ws ! j)) \<and> \<not> wins (iw_key (ws ! j)) (iw_key (ws ! c))"
    and "\<And>b. best = Some b \<Longrightarrow> b = c \<or> wins (iw_key (ws ! c)) (iw_key (ws ! b))"
  shows "foldl (better wins ws) best js = Some c"
  using assms
proof (induction js arbitrary: best)
  case (Cons i js)
  show ?case
  proof (cases "i = c")
    case True
    then have "better wins ws best i = Some c"
      using Cons.prems(2) Cons.prems(4) by (auto simp: better_def split: option.splits)
    then show ?thesis using better_keeps [of js c ws wins] Cons.prems(3) by simp
  next
    case False
    have "b = c \<or> wins (iw_key (ws ! c)) (iw_key (ws ! b))" if "better wins ws best i = Some b" for b
      using that Cons.prems(3,4) False by (auto simp: better_def split: if_splits option.splits)
    then show ?thesis using Cons False by simp
  qed
qed simp

lemma better_none:
  "\<forall>j \<in> set js. \<not> iw_valid (ws ! j) \<Longrightarrow> foldl (better wins ws) None js = None"
  by (induction js) (auto simp: better_def)

section \<open>The merging iterator is a cursor\<close>

definition forward_at ::
  "'i Iterator \<Rightarrow> ('i \<Rightarrow> entries \<Rightarrow> nat \<Rightarrow> bool) \<Rightarrow> 'i IteratorWrapper list \<Rightarrow> entries \<Rightarrow> entries list \<Rightarrow> nat \<Rightarrow> bool" where
  "forward_at ops at ws es ess n \<longleftrightarrow>
     length ws = length ess \<and> (\<forall>j < length ess. wrapped_at ops at (ws ! j) (ess ! j) (child_pos es (ess ! j) n))"

definition backward_at ::
  "'i Iterator \<Rightarrow> ('i \<Rightarrow> entries \<Rightarrow> nat \<Rightarrow> bool) \<Rightarrow> 'i IteratorWrapper list \<Rightarrow> entries \<Rightarrow> entries list \<Rightarrow> nat \<Rightarrow> bool" where
  "backward_at ops at ws es ess n \<longleftrightarrow>
     length ws = length ess \<and>
     (\<forall>j < length ess. wrapped_at ops at (ws ! j) (ess ! j) (back_pos (ess ! j) (child_pos es (ess ! j) n)))"

text \<open>
  At entry \<open>n\<close>, moving forward, every child stands at its first entry from \<open>n\<close> on; moving backward,
  at its last entry up to \<open>n\<close>.
\<close>

definition children_at ::
  "'i Iterator \<Rightarrow> ('i \<Rightarrow> entries \<Rightarrow> nat \<Rightarrow> bool) \<Rightarrow> 'i MergingIterator \<Rightarrow> entries \<Rightarrow> entries list \<Rightarrow> nat \<Rightarrow> bool" where
  "children_at ops at m es ess n \<longleftrightarrow>
     (case mi_direction m of
        kForward \<Rightarrow> forward_at ops at (mi_children m) es ess n
      | kReverse \<Rightarrow> backward_at ops at (mi_children m) es ess (Suc n))"

definition merging_at_with ::
  "(bytes \<Rightarrow> bytes \<Rightarrow> int) \<Rightarrow> (bytes \<Rightarrow> bool) \<Rightarrow> 'i Iterator \<Rightarrow> ('i \<Rightarrow> entries \<Rightarrow> nat \<Rightarrow> bool) \<Rightarrow> entries list \<Rightarrow> 'i MergingIterator \<Rightarrow> entries \<Rightarrow> nat \<Rightarrow> bool" where
  "merging_at_with compare key_ok ops at ess m es n \<longleftrightarrow>
     merged compare key_ok es ess \<and>
     (n < length es \<and> (\<exists>c < length ess. mi_current m = Some c \<and> es ! n \<in> set (ess ! c)) \<and> children_at ops at m es ess n \<or>
      n = length es \<and> mi_current m = None \<and> length (mi_children m) = length ess \<and>
        (\<forall>j < length ess. \<exists>k. wrapped_at ops at (mi_children m ! j) (ess ! j) k))"

definition merging_at ::
  "(bytes \<Rightarrow> bytes \<Rightarrow> int) \<Rightarrow> (bytes \<Rightarrow> bool) \<Rightarrow> 'i Iterator \<Rightarrow> ('i \<Rightarrow> entries \<Rightarrow> nat \<Rightarrow> bool) \<Rightarrow> 'i MergingIterator \<Rightarrow> entries \<Rightarrow> nat \<Rightarrow> bool" where
  "merging_at compare key_ok ops at m es n \<longleftrightarrow> (\<exists>ess. merging_at_with compare key_ok ops at ess m es n)"

lemma mergedD:
  assumes "merged compare key_ok es ess"
  shows "sorted_entries compare key_ok es"
    and "j < length ess \<Longrightarrow> sorted_entries compare key_ok (ess ! j)"
    and "j < length ess \<Longrightarrow> set (ess ! j) \<subseteq> set es"
    and "j < length ess \<Longrightarrow> i < length ess \<Longrightarrow> i \<noteq> j \<Longrightarrow> e \<in> set (ess ! i) \<Longrightarrow> e \<notin> set (ess ! j)"
    and "n < length es \<Longrightarrow> \<exists>c < length ess. es ! n \<in> set (ess ! c)"
proof -
  show "\<exists>c < length ess. es ! n \<in> set (ess ! c)" if "n < length es"
  proof -
    have "es ! n \<in> \<Union> (set ` set ess)" using assms that nth_mem [of n es] by (simp add: merged_def)
    then obtain xs where "xs \<in> set ess" "es ! n \<in> set xs" by auto
    then show ?thesis by (metis in_set_conv_nth)
  qed
  show "e \<notin> set (ess ! j)" if "j < length ess" "i < length ess" "i \<noteq> j" "e \<in> set (ess ! i)"
    using assms that unfolding merged_def by blast
qed (use assms in \<open>auto simp: merged_def dest: nth_mem\<close>)

context cursor
begin

lemma wrapped_valid: "wrapped_at ops at w xs p \<Longrightarrow> iw_valid w \<longleftrightarrow> p < length xs"
  by (auto simp: wrapped_at_def at_valid)

lemma wrapped_key: "wrapped_at ops at w xs p \<Longrightarrow> p < length xs \<Longrightarrow> iw_key w = fst (xs ! p)"
  by (auto simp: wrapped_at_def at_valid at_key)

lemma wrapped_status: "wrapped_at ops at w xs p \<Longrightarrow> IW_status ops w = OK"
  by (auto simp: wrapped_at_def at_status IW_status_def)

lemma FindSmallest_at:
  assumes "merged compare key_ok es ess" and "forward_at ops at ws es ess n" and "n < length es"
    and "c < length ess" and "es ! n \<in> set (ess ! c)"
  shows "FindSmallest compare ws = Some c"
proof -
  note m = mergedD [OF assms(1)]
  have w: "length ws = length ess" "wrapped_at ops at (ws ! j) (ess ! j) (child_pos es (ess ! j) n)" if "j < length ess" for j
    using assms(2) that by (auto simp: forward_at_def)
  note c = child_at_pos [OF m(1) m(2) [OF assms(4)] m(3) [OF assms(4)] assms(3,5)]
  have kc: "iw_valid (ws ! c)" "iw_key (ws ! c) = fst (es ! n)"
    using wrapped_valid [OF w(2) [OF assms(4)]] wrapped_key [OF w(2) [OF assms(4)]] c by simp_all
  have "compare (fst (es ! n)) (iw_key (ws ! j)) < 0 \<and> \<not> compare (iw_key (ws ! j)) (fst (es ! n)) < 0"
    if j: "j < length ess" "j \<noteq> c" "iw_valid (ws ! j)" for j
  proof -
    have v: "child_pos es (ess ! j) n < length (ess ! j)" using wrapped_valid [OF w(2) [OF j(1)]] j(3) by simp
    obtain i where i: "n \<le> i" "i < length es" "ess ! j ! child_pos es (ess ! j) n = es ! i"
      using child_forward_entry [OF m(1) m(2) [OF j(1)] m(3) [OF j(1)] v] by blast
    have "i \<noteq> n" using m(4) [OF j(1) assms(4) _ assms(5)] j(2) nth_mem [OF v] i(3) by auto
    then have "compare (fst (es ! n)) (fst (es ! i)) < 0" using sorted_entries_nth [OF m(1)] i by simp
    moreover have "\<not> compare (fst (es ! i)) (fst (es ! n)) < 0"
      using compare_flip [OF sorted_entries_ok [OF m(1) assms(3)] sorted_entries_ok [OF m(1) i(2)]] calculation by linarith
    ultimately show ?thesis using wrapped_key [OF w(2) [OF j(1)] v] i(3) by simp
  qed
  then show ?thesis
    unfolding FindSmallest_def using kc w(1) [OF assms(4)] assms(4) by (intro better_finds) auto
qed

lemma FindLargest_at:
  assumes "merged compare key_ok es ess" and "backward_at ops at ws es ess (Suc n)" and "n < length es"
    and "c < length ess" and "es ! n \<in> set (ess ! c)"
  shows "FindLargest compare ws = Some c"
proof -
  note m = mergedD [OF assms(1)]
  let ?p = "\<lambda>j. child_pos es (ess ! j) (Suc n)"
  have w: "length ws = length ess" "wrapped_at ops at (ws ! j) (ess ! j) (back_pos (ess ! j) (?p j))" if "j < length ess" for j
    using assms(2) that by (auto simp: backward_at_def)
  note c = child_at_pos [OF m(1) m(2) [OF assms(4)] m(3) [OF assms(4)] assms(3,5)]
  have "back_pos (ess ! c) (?p c) = child_pos es (ess ! c) n" using assms(3,5) by (simp add: child_pos_Suc back_pos_def)
  then have kc: "iw_valid (ws ! c)" "iw_key (ws ! c) = fst (es ! n)"
    using wrapped_valid [OF w(2) [OF assms(4)]] wrapped_key [OF w(2) [OF assms(4)]] c by simp_all
  have "0 < compare (fst (es ! n)) (iw_key (ws ! j)) \<and> \<not> 0 < compare (iw_key (ws ! j)) (fst (es ! n))"
    if j: "j < length ess" "j \<noteq> c" "iw_valid (ws ! j)" for j
  proof -
    have v: "back_pos (ess ! j) (?p j) < length (ess ! j)" using wrapped_valid [OF w(2) [OF j(1)]] j(3) by simp
    then have p: "0 < ?p j" by (cases "?p j = 0") (auto simp: back_pos_def)
    obtain i where i: "i < Suc n" "i < length es" "ess ! j ! back_pos (ess ! j) (?p j) = es ! i"
      using child_backward_entry [OF m(1) m(2) [OF j(1)] m(3) [OF j(1)] p] p by (auto simp: back_pos_def)
    have "i \<noteq> n" using m(4) [OF j(1) assms(4) _ assms(5)] j(2) nth_mem [OF v] i(3) by auto
    then have "compare (fst (es ! i)) (fst (es ! n)) < 0" using sorted_entries_nth [OF m(1)] i assms(3) by simp
    moreover have "0 < compare (fst (es ! n)) (fst (es ! i))"
      using compare_flip [OF sorted_entries_ok [OF m(1) i(2)] sorted_entries_ok [OF m(1) assms(3)]] calculation by linarith
    ultimately show ?thesis using wrapped_key [OF w(2) [OF j(1)] v] i(3) by simp
  qed
  then show ?thesis
    unfolding FindLargest_def using kc w(1) [OF assms(4)] assms(4) by (intro better_finds) auto
qed

lemma smallest_lands:
  assumes "merged compare key_ok es ess" and "forward_at ops at ws es ess n" and "n \<le> length es"
  shows "merging_at_with compare key_ok ops at ess
           (m\<lparr>mi_children := ws, mi_current := FindSmallest compare ws, mi_direction := kForward\<rparr>) es n"
proof (cases "n < length es")
  case True
  then obtain c where c: "c < length ess" "es ! n \<in> set (ess ! c)" using mergedD(5) [OF assms(1)] by blast
  then show ?thesis
    using True assms FindSmallest_at [OF assms(1,2) True c] by (simp add: merging_at_with_def children_at_def)
next
  case False
  then have n: "n = length es" using assms(3) by simp
  have w: "length ws = length ess" "wrapped_at ops at (ws ! j) (ess ! j) (length (ess ! j))" if "j < length ess" for j
    using assms(2) that n mergedD [OF assms(1)] by (simp_all add: forward_at_def child_pos_length)
  have l: "length ws = length ess" using assms(2) by (simp add: forward_at_def)
  have "FindSmallest compare ws = None"
    unfolding FindSmallest_def by (rule better_none) (use w(2) wrapped_valid l in fastforce)
  then show ?thesis using n assms(1) w(2) l by (auto simp: merging_at_with_def)
qed

lemma largest_lands:
  assumes "merged compare key_ok es ess" and "backward_at ops at ws es ess n" and "n \<le> length es"
  shows "merging_at_with compare key_ok ops at ess
           (m\<lparr>mi_children := ws, mi_current := FindLargest compare ws, mi_direction := kReverse\<rparr>) es
           (if n = 0 then length es else n - 1)"
proof (cases n)
  case (Suc k)
  then have k: "k < length es" using assms(3) by simp
  then obtain c where c: "c < length ess" "es ! k \<in> set (ess ! c)" using mergedD(5) [OF assms(1)] by blast
  then show ?thesis
    using k Suc assms FindLargest_at [OF assms(1) _ k c] by (simp add: merging_at_with_def children_at_def)
next
  case 0
  have w: "wrapped_at ops at (ws ! j) (ess ! j) (length (ess ! j))" if "j < length ess" for j
    using assms(2) that 0 by (simp add: backward_at_def back_pos_def)
  have l: "length ws = length ess" using assms(2) by (simp add: backward_at_def)
  have "FindLargest compare ws = None"
    unfolding FindLargest_def by (rule better_none) (use w wrapped_valid l in fastforce)
  then show ?thesis using 0 assms(1) w l by (auto simp: merging_at_with_def)
qed

lemma merging_children:
  assumes "merging_at_with compare key_ok ops at ess m es n"
  shows "length (mi_children m) = length ess" and "j < length ess \<Longrightarrow> \<exists>k. wrapped_at ops at (mi_children m ! j) (ess ! j) k"
  using assms
  by (cases "mi_direction m"; auto simp: merging_at_with_def children_at_def forward_at_def backward_at_def)+

lemma all_children_moved:
  fixes f :: "'i \<Rightarrow> 'i option" and p :: "entries \<Rightarrow> nat"
  assumes m: "merging_at_with compare key_ok ops at ess m es n"
    and f: "\<forall>it xs k. at it xs k \<longrightarrow> (\<exists>it'. f it = Some it' \<and> at it' xs (p xs))"
  shows "\<exists>ws. all_children (IW_move ops f) (mi_children m) = Some ws \<and> length ws = length ess \<and>
           (\<forall>j < length ess. wrapped_at ops at (ws ! j) (ess ! j) (p (ess ! j)))"
proof -
  have "\<exists>ws. all_children (IW_move ops f) (mi_children m) = Some ws \<and> length ws = length (mi_children m) \<and>
           (\<forall>j < length (mi_children m). wrapped_at ops at (ws ! j) (ess ! j) (p (ess ! j)))"
  proof (rule all_children_Some)
    fix j assume "j < length (mi_children m)"
    then obtain k where k: "wrapped_at ops at (mi_children m ! j) (ess ! j) k" using merging_children [OF m] by auto
    show "\<exists>w'. IW_move ops f (mi_children m ! j) = Some w' \<and> wrapped_at ops at w' (ess ! j) (p (ess ! j))"
      by (rule wrapped_move [where m = "p (ess ! j)" and at = at, OF k]) (use f in blast)
  qed
  then show ?thesis by (simp add: merging_children(1) [OF m])
qed

lemma merging_first:
  assumes "merging_at_with compare key_ok ops at ess m es n"
  shows "\<exists>m'. MI_SeekToFirst compare ops m = Some m' \<and> merging_at_with compare key_ok ops at ess m' es 0"
proof -
  obtain ws where ws: "all_children (IW_move ops (It_SeekToFirst ops)) (mi_children m) = Some ws" "length ws = length ess"
      "\<forall>j < length ess. wrapped_at ops at (ws ! j) (ess ! j) 0"
    using all_children_moved [where f = "It_SeekToFirst ops" and p = "\<lambda>_. 0", OF assms] at_first by blast
  then have "forward_at ops at ws es ess 0" by (simp add: forward_at_def)
  then show ?thesis
    using ws(1) assms smallest_lands [of es ess ws 0 m] by (simp add: MI_SeekToFirst_def merging_at_with_def)
qed

lemma merging_seek:
  assumes "merging_at_with compare key_ok ops at ess m es n" and "key_ok k"
  shows "\<exists>m'. MI_Seek compare ops k m = Some m' \<and> merging_at_with compare key_ok ops at ess m' es (seek_pos compare k es)"
proof -
  have m: "merged compare key_ok es ess" using assms(1) by (simp add: merging_at_with_def)
  obtain ws where ws: "all_children (IW_move ops (It_Seek ops k)) (mi_children m) = Some ws" "length ws = length ess"
      "\<forall>j < length ess. wrapped_at ops at (ws ! j) (ess ! j) (seek_pos compare k (ess ! j))"
    using all_children_moved [where f = "It_Seek ops k" and p = "seek_pos compare k", OF assms(1)] at_seek assms(2) by blast
  then have "forward_at ops at ws es ess (seek_pos compare k es)"
    using child_pos_seek [OF mergedD(1) [OF m] mergedD(2) [OF m] mergedD(3) [OF m] assms(2)] by (simp add: forward_at_def)
  then show ?thesis
    using ws(1) smallest_lands [OF m _ seek_pos_le] by (simp add: MI_Seek_def)
qed

lemma merging_last:
  assumes "merging_at_with compare key_ok ops at ess m es n"
  shows "\<exists>m'. MI_SeekToLast compare ops m = Some m' \<and> merging_at_with compare key_ok ops at ess m' es (length es - 1)"
proof -
  have m: "merged compare key_ok es ess" using assms(1) by (simp add: merging_at_with_def)
  obtain ws where ws: "all_children (IW_move ops (It_SeekToLast ops)) (mi_children m) = Some ws" "length ws = length ess"
      "\<forall>j < length ess. wrapped_at ops at (ws ! j) (ess ! j) (length (ess ! j) - 1)"
    using all_children_moved [where f = "It_SeekToLast ops" and p = "\<lambda>xs. length xs - 1", OF assms(1)] at_last by blast
  have "back_pos (ess ! j) (child_pos es (ess ! j) (length es)) = length (ess ! j) - 1" if "j < length ess" for j
    using child_pos_length [OF mergedD(1) [OF m] mergedD(2) [OF m that] mergedD(3) [OF m that]] by (simp add: back_pos_def)
  then have "backward_at ops at ws es ess (length es)" using ws(2,3) by (simp add: backward_at_def)
  then show ?thesis
    using ws(1) largest_lands [OF m _ order_refl, of ws m] by (cases "es = []") (auto simp: MI_SeekToLast_def)
qed

lemma seek_self:
  assumes "sorted_entries compare key_ok es" and "n < length es"
  shows "seek_pos compare (fst (es ! n)) es = n"
proof (rule seek_posI [OF assms(1) sorted_entries_ok [OF assms] less_imp_le [OF assms(2)]])
  show "compare (fst (es ! i)) (fst (es ! n)) < 0" if "i < n" for i by (rule sorted_entries_nth [OF assms(1) that assms(2)])
  show "\<not> compare (fst (es ! n)) (fst (es ! n)) < 0" using compare_refl [OF sorted_entries_ok [OF assms]] by simp
qed

lemma merging_current:
  assumes "merging_at_with compare key_ok ops at ess m es n" and "n < length es"
  obtains c where "mi_current m = Some c" and "c < length ess" and "es ! n \<in> set (ess ! c)"
    and "wrapped_at ops at (mi_children m ! c) (ess ! c) (child_pos es (ess ! c) n)" and "MI_key m = fst (es ! n)"
    and "MI_value ops m = snd (es ! n)"
proof -
  have m: "merged compare key_ok es ess" using assms(1) by (simp add: merging_at_with_def)
  obtain c where c: "mi_current m = Some c" "c < length ess" "es ! n \<in> set (ess ! c)" "children_at ops at m es ess n"
    using assms by (auto simp: merging_at_with_def)
  have w: "wrapped_at ops at (mi_children m ! c) (ess ! c) (child_pos es (ess ! c) n)"
    using c assms(2)
    by (cases "mi_direction m")
       (auto simp: children_at_def forward_at_def backward_at_def back_pos_def child_pos_Suc dest!: spec [of _ c])
  note p = child_at_pos [OF mergedD(1) [OF m] mergedD(2) [OF m c(2)] mergedD(3) [OF m c(2)] assms(2) c(3)]
  have "MI_key m = fst (es ! n)" using c(1) p wrapped_key [OF w] by (simp add: MI_key_def)
  moreover have "MI_value ops m = snd (es ! n)"
    using c(1) p w at_value [of _ "ess ! c" "child_pos es (ess ! c) n"] by (auto simp: MI_value_def IW_value_def wrapped_at_def)
  ultimately show thesis using that c w by blast
qed

lemma child_seek_key:
  assumes "merged compare key_ok es ess" and "n < length es" and "j < length ess" and "wrapped_at ops at w (ess ! j) k"
  shows "\<exists>w'. IW_move ops (It_Seek ops (fst (es ! n))) w = Some w' \<and> wrapped_at ops at w' (ess ! j) (child_pos es (ess ! j) n)"
proof -
  note m = mergedD [OF assms(1)]
  have ok: "key_ok (fst (es ! n))" by (rule sorted_entries_ok [OF m(1) assms(2)])
  have p: "seek_pos compare (fst (es ! n)) (ess ! j) = child_pos es (ess ! j) n"
    using child_pos_seek [OF m(1) m(2) [OF assms(3)] m(3) [OF assms(3)] ok] seek_self [OF m(1) assms(2)] by simp
  show ?thesis by (rule wrapped_move [OF assms(4)]) (use at_seek [OF _ ok] p in force)
qed

lemma child_after_at:
  assumes "merged compare key_ok es ess" and "n < length es" and "j < length ess" and "wrapped_at ops at w (ess ! j) k"
    and "es ! n \<notin> set (ess ! j)"
  shows "\<exists>w'. child_after compare ops (fst (es ! n)) w = Some w' \<and> wrapped_at ops at w' (ess ! j) (child_pos es (ess ! j) n)"
proof -
  note m = mergedD [OF assms(1)] let ?p = "child_pos es (ess ! j) n"
  obtain w' where w': "IW_move ops (It_Seek ops (fst (es ! n))) w = Some w'" "wrapped_at ops at w' (ess ! j) ?p"
    using child_seek_key [OF assms(1-4)] by blast
  have "compare (fst (es ! n)) (iw_key w') \<noteq> 0" if "iw_valid w'"
  proof -
    have v: "?p < length (ess ! j)" using that wrapped_valid [OF w'(2)] by simp
    obtain i where i: "n \<le> i" "i < length es" "ess ! j ! ?p = es ! i"
      using child_forward_entry [OF m(1) m(2) [OF assms(3)] m(3) [OF assms(3)] v] by blast
    then have "i \<noteq> n" using nth_mem [OF v] assms(5) by auto
    then have "compare (fst (es ! n)) (fst (es ! i)) < 0" using sorted_entries_nth [OF m(1)] i by simp
    then show ?thesis using wrapped_key [OF w'(2) v] i(3) by simp
  qed
  then show ?thesis using w' by (auto simp: child_after_def)
qed

lemma child_before_at:
  assumes "merged compare key_ok es ess" and "n < length es" and "j < length ess" and "wrapped_at ops at w (ess ! j) k"
  shows "\<exists>w'. child_before ops (fst (es ! n)) w = Some w' \<and>
           wrapped_at ops at w' (ess ! j) (back_pos (ess ! j) (child_pos es (ess ! j) n))"
proof -
  note m = mergedD [OF assms(1)] let ?p = "child_pos es (ess ! j) n"
  obtain w' where w': "IW_move ops (It_Seek ops (fst (es ! n))) w = Some w'" "wrapped_at ops at w' (ess ! j) ?p"
    using child_seek_key [OF assms] by blast
  show ?thesis
  proof (cases "?p < length (ess ! j)")
    case True
    then have "\<exists>w''. IW_move ops (It_Prev ops) w' = Some w'' \<and> wrapped_at ops at w'' (ess ! j) (back_pos (ess ! j) ?p)"
      unfolding back_pos_def by (intro wrapped_move [OF w'(2)] at_prev)
    then show ?thesis using w' True wrapped_valid [OF w'(2)] by (simp add: child_before_def)
  next
    case False
    then have p: "?p = length (ess ! j)"
      using child_pos_le [OF m(1) m(2) [OF assms(3)] m(3) [OF assms(3)], of n] by simp
    have "\<exists>w''. IW_move ops (It_SeekToLast ops) w' = Some w'' \<and> wrapped_at ops at w'' (ess ! j) (length (ess ! j) - 1)"
      by (rule wrapped_move [OF w'(2)]) (rule at_last)
    moreover have "back_pos (ess ! j) ?p = length (ess ! j) - 1" using p by (simp add: back_pos_def)
    ultimately show ?thesis using w'(1) False wrapped_valid [OF w'(2)] by (simp add: child_before_def)
  qed
qed

lemma merging_next:
  assumes "merging_at_with compare key_ok ops at ess m es n" and "n < length es"
  shows "\<exists>m'. MI_Next compare ops m = Some m' \<and> merging_at_with compare key_ok ops at ess m' es (Suc n)"
proof -
  have m: "merged compare key_ok es ess" using assms(1) by (simp add: merging_at_with_def)
  obtain c where c: "mi_current m = Some c" "c < length ess" "es ! n \<in> set (ess ! c)"
      "wrapped_at ops at (mi_children m ! c) (ess ! c) (child_pos es (ess ! c) n)" "MI_key m = fst (es ! n)"
    by (rule merging_current [OF assms])
  note other = mergedD(4) [OF m _ c(2) _ c(3)]
  note len = merging_children(1) [OF assms(1)]
  let ?move = "if mi_direction m \<noteq> kForward
    then other_children (child_after compare ops (MI_key m)) c (mi_children m) else Some (mi_children m)"
  have "\<exists>ws. ?move = Some ws \<and> forward_at ops at ws es ess n"
  proof (cases "mi_direction m")
    case kForward
    then show ?thesis using assms c by (auto simp: merging_at_with_def children_at_def)
  next
    case kReverse
    have "\<exists>ws. other_children (child_after compare ops (MI_key m)) c (mi_children m) = Some ws \<and> length ws = length (mi_children m) \<and>
        ws ! c = mi_children m ! c \<and>
        (\<forall>j < length (mi_children m). j \<noteq> c \<longrightarrow> wrapped_at ops at (ws ! j) (ess ! j) (child_pos es (ess ! j) n))"
      using c(2,5) len other merging_children(2) [OF assms(1)] child_after_at [OF m assms(2)]
      by (intro other_children_Some) (simp_all, metis)
    then show ?thesis using kReverse len c(4) by (simp add: forward_at_def) metis
  qed
  then obtain ws where ws: "?move = Some ws" "forward_at ops at ws es ess n" by blast
  have p: "child_pos es (ess ! c) n < length (ess ! c)"
    by (rule child_at_pos [OF mergedD(1) [OF m] mergedD(2) [OF m c(2)] mergedD(3) [OF m c(2)] assms(2) c(3)])
  have "wrapped_at ops at (ws ! c) (ess ! c) (child_pos es (ess ! c) n)" using ws(2) c(2) by (simp add: forward_at_def)
  then obtain w' where w': "IW_move ops (It_Next ops) (ws ! c) = Some w'"
      "wrapped_at ops at w' (ess ! c) (Suc (child_pos es (ess ! c) n))"
    using wrapped_move [of ops at "ws ! c" "ess ! c" "child_pos es (ess ! c) n" "It_Next ops"] at_next [OF _ p] by blast
  have "forward_at ops at (ws[c := w']) es ess (Suc n)"
    using ws(2) w'(2) c(2,3) other assms(2) by (auto simp: forward_at_def child_pos_Suc nth_list_update)
  then show ?thesis
    using ws(1) w'(1) c(1) smallest_lands [OF m _ Suc_leI [OF assms(2)]] by (simp add: MI_Next_def move_current_def)
qed

lemma merging_prev:
  assumes "merging_at_with compare key_ok ops at ess m es n" and "n < length es"
  shows "\<exists>m'. MI_Prev compare ops m = Some m' \<and>
           merging_at_with compare key_ok ops at ess m' es (if n = 0 then length es else n - 1)"
proof -
  have m: "merged compare key_ok es ess" using assms(1) by (simp add: merging_at_with_def)
  obtain c where c: "mi_current m = Some c" "c < length ess" "es ! n \<in> set (ess ! c)"
      "wrapped_at ops at (mi_children m ! c) (ess ! c) (child_pos es (ess ! c) n)" "MI_key m = fst (es ! n)"
    by (rule merging_current [OF assms])
  note len = merging_children(1) [OF assms(1)]
  let ?moved = "\<lambda>j. back_pos (ess ! j) (child_pos es (ess ! j) n)"
  let ?move = "if mi_direction m \<noteq> kReverse
    then other_children (child_before ops (MI_key m)) c (mi_children m) else Some (mi_children m)"
  have "\<exists>ws. ?move = Some ws \<and> length ws = length (mi_children m) \<and> ws ! c = mi_children m ! c \<and>
          (\<forall>j < length (mi_children m). j \<noteq> c \<longrightarrow> wrapped_at ops at (ws ! j) (ess ! j) (?moved j))"
  proof (cases "mi_direction m")
    case kReverse
    then have "backward_at ops at (mi_children m) es ess (Suc n)"
      using assms by (auto simp: merging_at_with_def children_at_def)
    then show ?thesis
      using kReverse mergedD(4) [OF m _ c(2) _ c(3)] assms(2) by (auto simp: backward_at_def child_pos_Suc)
  next
    case kForward
    have "\<exists>ws. other_children (child_before ops (MI_key m)) c (mi_children m) = Some ws \<and> length ws = length (mi_children m) \<and>
        ws ! c = mi_children m ! c \<and>
        (\<forall>j < length (mi_children m). j \<noteq> c \<longrightarrow> wrapped_at ops at (ws ! j) (ess ! j) (?moved j))"
      using c(2,5) len merging_children(2) [OF assms(1)] child_before_at [OF m assms(2)]
      by (intro other_children_Some) (simp_all, metis)
    then show ?thesis using kForward by simp
  qed
  then obtain ws where ws: "?move = Some ws" "length ws = length ess" "ws ! c = mi_children m ! c"
      "\<forall>j < length ess. j \<noteq> c \<longrightarrow> wrapped_at ops at (ws ! j) (ess ! j) (?moved j)"
    unfolding len by blast
  have p: "child_pos es (ess ! c) n < length (ess ! c)"
    by (rule child_at_pos [OF mergedD(1) [OF m] mergedD(2) [OF m c(2)] mergedD(3) [OF m c(2)] assms(2) c(3)])
  obtain w' where w': "IW_move ops (It_Prev ops) (ws ! c) = Some w'" "wrapped_at ops at w' (ess ! c) (?moved c)"
    using wrapped_move [of ops at "ws ! c" "ess ! c" "child_pos es (ess ! c) n" "It_Prev ops"] at_prev [OF _ p] c(4) ws(3)
    unfolding back_pos_def by metis
  have "backward_at ops at (ws[c := w']) es ess n"
    using ws(2,4) w'(2) c(2) by (auto simp: backward_at_def nth_list_update)
  then show ?thesis
    using ws(1) w'(1) c(1) largest_lands [OF m _ less_imp_le [OF assms(2)]] by (simp add: MI_Prev_def move_current_def)
qed

lemma first_error_OK: "\<forall>s \<in> set ss. s = OK \<Longrightarrow> first_error ss = OK"
  by (induction ss) auto

lemma merging_status: "merging_at_with compare key_ok ops at ess m es n \<Longrightarrow> MI_status ops m = OK"
proof -
  assume m: "merging_at_with compare key_ok ops at ess m es n"
  have "IW_status ops w = OK" if "w \<in> set (mi_children m)" for w
    using that merging_children [OF m] wrapped_status by (metis in_set_conv_nth)
  then show ?thesis by (simp add: MI_status_def first_error_OK)
qed

theorem merging_cursor: "cursor compare key_ok (MergingOps compare ops) (merging_at compare key_ok ops at)"
proof
  fix m es n assume "merging_at compare key_ok ops at m es n"
  then obtain ess where m: "merging_at_with compare key_ok ops at ess m es n" by (auto simp: merging_at_def)
  show "n \<le> length es" "sorted_entries compare key_ok es"
    using m by (auto simp: merging_at_with_def merged_def)
  show "It_Valid (MergingOps compare ops) m \<longleftrightarrow> n < length es"
    using m by (auto simp: MergingOps_def MI_Valid_def merging_at_with_def)
  show "It_status (MergingOps compare ops) m = OK" using merging_status [OF m] by (simp add: MergingOps_def)
  show "\<exists>m'. It_SeekToFirst (MergingOps compare ops) m = Some m' \<and> merging_at compare key_ok ops at m' es 0"
    using merging_first [OF m] by (auto simp: MergingOps_def merging_at_def)
  show "\<exists>m'. It_SeekToLast (MergingOps compare ops) m = Some m' \<and> merging_at compare key_ok ops at m' es (length es - 1)"
    using merging_last [OF m] unfolding MergingOps_def merging_at_def Iterator.simps by blast
  show "\<exists>m'. It_Seek (MergingOps compare ops) k m = Some m' \<and> merging_at compare key_ok ops at m' es (seek_pos compare k es)"
    if "key_ok k" for k
    using merging_seek [OF m that] by (auto simp: MergingOps_def merging_at_def)
  assume n: "n < length es"
  show "It_key (MergingOps compare ops) m = fst (es ! n)" "It_value (MergingOps compare ops) m = snd (es ! n)"
    by (rule merging_current [OF m n]; simp add: MergingOps_def)+
  show "\<exists>m'. It_Next (MergingOps compare ops) m = Some m' \<and> merging_at compare key_ok ops at m' es (Suc n)"
    using merging_next [OF m n] by (auto simp: MergingOps_def merging_at_def)
  show "\<exists>m'. It_Prev (MergingOps compare ops) m = Some m' \<and>
      merging_at compare key_ok ops at m' es (if n = 0 then length es else n - 1)"
    using merging_prev [OF m n] unfolding MergingOps_def merging_at_def Iterator.simps by blast
qed

end

section \<open>What the factory returns\<close>

definition merged_at ::
  "(bytes \<Rightarrow> bytes \<Rightarrow> int) \<Rightarrow> (bytes \<Rightarrow> bool) \<Rightarrow> 'i Iterator \<Rightarrow> ('i \<Rightarrow> entries \<Rightarrow> nat \<Rightarrow> bool) \<Rightarrow> 'i merged_iterator \<Rightarrow> entries \<Rightarrow> nat \<Rightarrow> bool" where
  "merged_at compare key_ok ops at it es n \<longleftrightarrow>
     (case it of
        NoChild s \<Rightarrow> s = NewEmptyIterator \<and> es = [] \<and> n = 0
      | OneChild i \<Rightarrow> at i es n
      | Merging m \<Rightarrow> merging_at compare key_ok ops at m es n)"

lemma merged_move_at:
  assumes "merged_at compare key_ok ops at it es n"
    and "\<And>s. s = NewEmptyIterator \<Longrightarrow> es = [] \<Longrightarrow> n = 0 \<Longrightarrow> \<exists>s'. f s = Some s' \<and> s' = NewEmptyIterator \<and> k = 0"
    and "\<And>i. at i es n \<Longrightarrow> \<exists>i'. g i = Some i' \<and> at i' es k"
    and "\<And>m. merging_at compare key_ok ops at m es n \<Longrightarrow> \<exists>m'. h m = Some m' \<and> merging_at compare key_ok ops at m' es k"
  shows "\<exists>it'. merged_move f g h it = Some it' \<and> merged_at compare key_ok ops at it' es k"
  using assms by (cases it) (fastforce simp: merged_at_def merged_move_def)+

context cursor
begin

lemma merged_cursor: "cursor compare key_ok (MergedOps compare ops) (merged_at compare key_ok ops at)"
proof -
  note ops = MergedOps_def Let_def Iterator.simps
  let ?mops = "MergingOps compare ops" and ?mat = "merging_at compare key_ok ops at"
  have c: "cursor compare key_ok ?mops ?mat" by (rule merging_cursor)
  show ?thesis
  proof
    fix it es n assume it: "merged_at compare key_ok ops at it es n"
    show "n \<le> length es" "sorted_entries compare key_ok es"
      using it at_bound at_sorted cursor.at_bound [OF c] cursor.at_sorted [OF c]
      by (cases it; force simp: merged_at_def sorted_entries_def)+
    show "It_Valid (MergedOps compare ops) it \<longleftrightarrow> n < length es" "It_status (MergedOps compare ops) it = OK"
      using it at_valid at_status cursor.at_valid [OF c] cursor.at_status [OF c]
      by (cases it; force simp: merged_at_def ops EmptyIterator_def NewEmptyIterator_def)+
    show "\<exists>it'. It_SeekToFirst (MergedOps compare ops) it = Some it' \<and> merged_at compare key_ok ops at it' es 0"
      unfolding ops by (rule merged_move_at [OF it]) (simp_all add: EmptyIterator_def at_first cursor.at_first [OF c])
    show "\<exists>it'. It_SeekToLast (MergedOps compare ops) it = Some it' \<and> merged_at compare key_ok ops at it' es (length es - 1)"
      unfolding ops by (rule merged_move_at [OF it]) (simp_all add: EmptyIterator_def at_last cursor.at_last [OF c] del: One_nat_def)
    show "\<exists>it'. It_Seek (MergedOps compare ops) k it = Some it' \<and> merged_at compare key_ok ops at it' es (seek_pos compare k es)"
      if "key_ok k" for k
      unfolding ops using that
      by (intro merged_move_at [OF it]) (simp_all add: EmptyIterator_def seek_pos_def at_seek [unfolded seek_pos_def] cursor.at_seek [OF c, unfolded seek_pos_def])
    assume n: "n < length es"
    then have e: "s = NewEmptyIterator \<Longrightarrow> es = [] \<Longrightarrow> P" for s P by simp
    show "It_key (MergedOps compare ops) it = fst (es ! n)" "It_value (MergedOps compare ops) it = snd (es ! n)"
      using it n at_key at_value cursor.at_key [OF c] cursor.at_value [OF c]
      by (cases it; force simp: merged_at_def ops)+
    show "\<exists>it'. It_Next (MergedOps compare ops) it = Some it' \<and> merged_at compare key_ok ops at it' es (Suc n)"
      unfolding ops by (rule merged_move_at [OF it e]) (use n at_next cursor.at_next [OF c] in blast)+
    show "\<exists>it'. It_Prev (MergedOps compare ops) it = Some it' \<and> merged_at compare key_ok ops at it' es (if n = 0 then length es else n - 1)"
      unfolding ops by (rule merged_move_at [OF it e]) (use n at_prev cursor.at_prev [OF c] in blast)+
  qed
qed

lemma NewMergingIterator_at:
  assumes m: "merged compare key_ok es ess" and len: "length its = length ess" and its: "\<forall>j < length ess. \<exists>k. at (its ! j) (ess ! j) k"
  shows "\<exists>n. merged_at compare key_ok ops at (NewMergingIterator ops its) es n"
proof (cases its rule: remdups_adj.cases)
  case 1
  then show ?thesis using m len by (auto simp: NewMergingIterator_def merged_at_def merged_def)
next
  case (2 it)
  then obtain xs where xs: "ess = [xs]" using len by (cases ess) auto
  then have "es = xs" using m by (intro sorted_entries_unique) (auto simp: merged_def)
  then show ?thesis using its 2 xs by (auto simp: NewMergingIterator_def merged_at_def)
next
  case (3 a b rest)
  have "wrapped_at ops at (IW_Set ops (Some (its ! j)) make_IteratorWrapper) (ess ! j) k" if "at (its ! j) (ess ! j) k" for j k
    using that by (simp add: IW_Set_def wrapped_at_Update)
  then have "\<forall>j < length ess. \<exists>k. wrapped_at ops at (mi_children (make_MergingIterator ops its) ! j) (ess ! j) k"
    using its len by (simp add: make_MergingIterator_def) blast
  then have "merging_at_with compare key_ok ops at ess (make_MergingIterator ops its) es (length es)"
    using m len by (simp add: merging_at_with_def make_MergingIterator_def)
  then show ?thesis using 3 by (auto simp: NewMergingIterator_def merged_at_def merging_at_def)
qed

end

interpretation merged_blocks: cursor "Compare (InternalKeyComparator BytewiseComparator)" "internal_key_ok (\<lambda>_. True)"
    "MergedOps (Compare (InternalKeyComparator BytewiseComparator)) (BlockIterOps (InternalKeyComparator BytewiseComparator))"
    "merged_at (Compare (InternalKeyComparator BytewiseComparator)) (internal_key_ok (\<lambda>_. True))
       (BlockIterOps (InternalKeyComparator BytewiseComparator))
       (block_at (InternalKeyComparator BytewiseComparator) (internal_key_ok (\<lambda>_. True)))"
  by (rule internal_block.merged_cursor)

section \<open>Properties\<close>

text \<open>C24. Merging: over children that are cursors, each over its own sorted list, with no entry in
  common, \<^verbatim>\<open>NewMergingIterator\<close> gives a cursor over the merged list, for any number of children and any
  sequence of \<^verbatim>\<open>SeekToFirst\<close>, \<^verbatim>\<open>SeekToLast\<close>, \<^verbatim>\<open>Seek\<close>, \<^verbatim>\<open>Next\<close> and \<^verbatim>\<open>Prev\<close>, changes of direction included.\<close>

theorem merging_iterator_is_cursor:
  assumes "cursor compare key_ok ops at" and "merged compare key_ok es ess" and "length its = length ess"
    and "\<forall>j < length ess. \<exists>k. at (its ! j) (ess ! j) k"
  shows "cursor compare key_ok (MergedOps compare ops) (merged_at compare key_ok ops at) \<and>
    (\<exists>n. merged_at compare key_ok ops at (NewMergingIterator ops its) es n)"
  using cursor.merged_cursor [OF assms(1)] cursor.NewMergingIterator_at [OF assms] by blast

lemma small_blocks:
  "length (build_block 2 [([1], [2]), ([3], [4])]) < 2 ^ 32" "length (build_block 2 [([2], [0]), ([7], [])]) < 2 ^ 32"
  by (simp_all add: build_block_def make_BlockBuilder_def BlockBuilder_Add_def BlockBuilder_Finish_def Let_def PutVarint32_def
      PutFixed32_def EncodeVarint32_def)

theorem merging_iterator_is_cursor_witness:
  "\<exists>a b n. Block_NewIterator (make_Block (build_block 2 [([1], [2]), ([3], [4])])) = Iter a \<and>
     Block_NewIterator (make_Block (build_block 2 [([2], [0]), ([7], [])])) = Iter b \<and>
     merged_at (Compare BytewiseComparator) (\<lambda>_. True) (BlockIterOps BytewiseComparator) (block_at BytewiseComparator (\<lambda>_. True))
       (NewMergingIterator (BlockIterOps BytewiseComparator) [a, b]) [([1], [2]), ([2], [0]), ([3], [4]), ([7], [])] n"
proof -
  let ?xs = "[([1], [2]), ([3], [4])] :: entries" and ?ys = "[([2], [0]), ([7], [])] :: entries"
  obtain a where a: "Block_NewIterator (make_Block (build_block 2 ?xs)) = Iter a" "block_at BytewiseComparator (\<lambda>_. True) a ?xs (length ?xs)"
    using built_block_at [of 2 BytewiseComparator "\<lambda>_. True" ?xs] small_blocks(1) by (simp add: sorted_entries_def) blast
  obtain b where b: "Block_NewIterator (make_Block (build_block 2 ?ys)) = Iter b" "block_at BytewiseComparator (\<lambda>_. True) b ?ys (length ?ys)"
    using built_block_at [of 2 BytewiseComparator "\<lambda>_. True" ?ys] small_blocks(2) by (simp add: sorted_entries_def) blast
  have "merged (Compare BytewiseComparator) (\<lambda>_. True) [([1], [2]), ([2], [0]), ([3], [4]), ([7], [])] [?xs, ?ys]"
    by (auto simp: merged_def sorted_entries_def less_Suc_eq)
  from merging_iterator_is_cursor [OF bytewise_block.cursor_axioms this, of "[a, b]"] a b show ?thesis
    by (auto simp: less_Suc_eq)
qed

end
