(* ===== verification/Format.thy ===== *)
theory Format
  imports Memenv Crc32c
begin

text \<open>
  The pieces of a table file (table/format.h, table/format.cc): block handles, the footer, and reading a
  block with its trailer. The compression libraries behind port/port_stdcxx.h are parameters; without
  them the port functions report failure, as the code does when it is built without the libraries.
\<close>

section \<open>Block handles\<close>

record BlockHandle =
  bh_offset :: u64
  bh_size :: u64

definition kMaxEncodedLength :: nat where "kMaxEncodedLength = 10 + 10"

definition make_BlockHandle :: BlockHandle where
  "make_BlockHandle = \<lparr>bh_offset = NOT 0, bh_size = NOT 0\<rparr>"

definition BlockHandle_EncodeTo :: "BlockHandle \<Rightarrow> bytes \<Rightarrow> bytes" where
  "BlockHandle_EncodeTo h dst = PutVarint64 (PutVarint64 dst (bh_offset h)) (bh_size h)"

definition BlockHandle_DecodeFrom :: "bytes \<Rightarrow> status + (BlockHandle \<times> bytes)" where
  "BlockHandle_DecodeFrom input =
     (case GetVarint64 input of
        None \<Rightarrow> Inl (Corruption ''bad block handle'')
      | Some (offset, input) \<Rightarrow>
          (case GetVarint64 input of
             None \<Rightarrow> Inl (Corruption ''bad block handle'')
           | Some (fsize, input) \<Rightarrow> Inr (\<lparr>bh_offset = offset, bh_size = fsize\<rparr>, input)))"

section \<open>The footer\<close>

record Footer =
  metaindex_handle :: BlockHandle
  index_handle :: BlockHandle

definition kEncodedLength :: nat where "kEncodedLength = 2 * kMaxEncodedLength + 8"

definition kTableMagicNumber :: u64 where "kTableMagicNumber = 0xdb4775248b80fb57"

definition string_resize :: "nat \<Rightarrow> bytes \<Rightarrow> bytes" where
  "string_resize n s = take n s @ replicate (n - length s) 0"

definition Footer_EncodeTo :: "Footer \<Rightarrow> bytes \<Rightarrow> bytes" where
  "Footer_EncodeTo f dst =
     (let dst = BlockHandle_EncodeTo (metaindex_handle f) dst;
          dst = BlockHandle_EncodeTo (index_handle f) dst;
          dst = string_resize (2 * kMaxEncodedLength) dst;
          dst = PutFixed32 dst (ucast (kTableMagicNumber AND 0xffffffff))
      in PutFixed32 dst (ucast (drop_bit 32 kTableMagicNumber)))"

definition Footer_DecodeFrom :: "bytes \<Rightarrow> status + (Footer \<times> bytes)" where
  "Footer_DecodeFrom input =
     (if length input < kEncodedLength then Inl (Corruption ''not an sstable (footer too short)'')
      else
        let magic_ptr = drop (kEncodedLength - 8) input;
            magic_lo = DecodeFixed32 magic_ptr;
            magic_hi = DecodeFixed32 (drop 4 magic_ptr);
            magic = push_bit 32 (ucast magic_hi) OR (ucast magic_lo :: u64)
        in if magic \<noteq> kTableMagicNumber then Inl (Corruption ''not an sstable (bad magic number)'')
           else (case BlockHandle_DecodeFrom input of
                   Inl s \<Rightarrow> Inl s
                 | Inr (metaindex, input') \<Rightarrow>
                     (case BlockHandle_DecodeFrom input' of
                        Inl s \<Rightarrow> Inl s
                      | Inr (index, _) \<Rightarrow>
                          Inr (\<lparr>metaindex_handle = metaindex, index_handle = index\<rparr>, drop 8 magic_ptr))))"

section \<open>Compression\<close>

datatype CompressionType = kNoCompression | kSnappyCompression | kZstdCompression

definition compression_byte :: "CompressionType \<Rightarrow> byte" where
  "compression_byte t = (case t of kNoCompression \<Rightarrow> 0 | kSnappyCompression \<Rightarrow> 1 | kZstdCompression \<Rightarrow> 2)"

text \<open>
  The libraries. \<^verbatim>\<open>ZSTD_getFrameContentSize\<close> returns a number; a compression or decompression that
  reports an error is \<open>None\<close>.
\<close>

record Snappy =
  RawCompress :: "bytes \<Rightarrow> bytes"
  RawUncompressedLength :: "bytes \<Rightarrow> nat option"
  RawUncompress :: "bytes \<Rightarrow> bytes option"

record Zstd =
  ZSTD_compress :: "int \<Rightarrow> bytes \<Rightarrow> bytes option"
  ZSTD_getFrameContentSize :: "bytes \<Rightarrow> nat"
  ZSTD_decompress :: "nat \<Rightarrow> bytes \<Rightarrow> bytes option"

record port =
  HAVE_SNAPPY :: "Snappy option"
  HAVE_ZSTD :: "Zstd option"

definition Snappy_Compress :: "port \<Rightarrow> bytes \<Rightarrow> bytes option" where
  "Snappy_Compress p input = (case HAVE_SNAPPY p of Some l \<Rightarrow> Some (RawCompress l input) | None \<Rightarrow> None)"

definition Snappy_GetUncompressedLength :: "port \<Rightarrow> bytes \<Rightarrow> nat option" where
  "Snappy_GetUncompressedLength p input =
     (case HAVE_SNAPPY p of Some l \<Rightarrow> RawUncompressedLength l input | None \<Rightarrow> None)"

definition Snappy_Uncompress :: "port \<Rightarrow> bytes \<Rightarrow> bytes option" where
  "Snappy_Uncompress p input = (case HAVE_SNAPPY p of Some l \<Rightarrow> RawUncompress l input | None \<Rightarrow> None)"

definition Zstd_Compress :: "port \<Rightarrow> int \<Rightarrow> bytes \<Rightarrow> bytes option" where
  "Zstd_Compress p level input = (case HAVE_ZSTD p of Some l \<Rightarrow> ZSTD_compress l level input | None \<Rightarrow> None)"

definition Zstd_GetUncompressedLength :: "port \<Rightarrow> bytes \<Rightarrow> nat option" where
  "Zstd_GetUncompressedLength p input =
     (case HAVE_ZSTD p of
        Some l \<Rightarrow> (let n = ZSTD_getFrameContentSize l input in if n = 0 then None else Some n)
      | None \<Rightarrow> None)"

definition Zstd_Uncompress :: "port \<Rightarrow> bytes \<Rightarrow> bytes option" where
  "Zstd_Uncompress p input =
     (case HAVE_ZSTD p of
        Some l \<Rightarrow>
          (case Zstd_GetUncompressedLength p input of
             None \<Rightarrow> None
           | Some outlen \<Rightarrow> ZSTD_decompress l outlen input)
      | None \<Rightarrow> None)"

text \<open>What the code relies on: decompression restores what was compressed.\<close>

definition port_ok :: "port \<Rightarrow> bool" where
  "port_ok p \<longleftrightarrow>
     (\<forall>l. HAVE_SNAPPY p = Some l \<longrightarrow>
        (\<forall>x. RawUncompressedLength l (RawCompress l x) = Some (length x) \<and> RawUncompress l (RawCompress l x) = Some x)) \<and>
     (\<forall>l. HAVE_ZSTD p = Some l \<longrightarrow>
        (\<forall>level x y. ZSTD_compress l level x = Some y \<longrightarrow>
           ZSTD_getFrameContentSize l y = length x \<and> ZSTD_decompress l (length x) y = Some x))"

section \<open>Reading a block\<close>

definition kBlockTrailerSize :: nat where "kBlockTrailerSize = 5"

record BlockContents =
  bc_data :: bytes
  bc_cachable :: bool
  bc_heap_allocated :: bool

text \<open>
  The size of the read wraps around like the \<^verbatim>\<open>size_t\<close> sum in the code. \<open>None\<close> is an access outside the
  buffer that was read into.
\<close>

definition ReadBlock ::
  "port \<Rightarrow> 'f RandomAccessFile \<Rightarrow> 'f \<Rightarrow> bool \<Rightarrow> BlockHandle \<Rightarrow> (status + BlockContents) option" where
  "ReadBlock prt ops file verify_checksums handle =
     (let n = unat (bh_size handle);
          wanted = (n + kBlockTrailerSize) mod 2 ^ 64
      in case RRead ops file (unat (bh_offset handle)) wanted of
           (s, contents, scratch) \<Rightarrow>
             if \<not> status_ok s then Some (Inl s)
             else if length contents \<noteq> wanted then Some (Inl (Corruption ''truncated block read''))
             else if length contents < n + kBlockTrailerSize then None
             else if verify_checksums \<and> Value (take (n + 1) contents) \<noteq> Unmask (DecodeFixed32 (drop (n + 1) contents))
             then Some (Inl (Corruption ''block checksum mismatch''))
             else
               let data = take n contents
               in if contents ! n = compression_byte kNoCompression
                  then Some (Inr \<lparr>bc_data = data, bc_cachable = scratch, bc_heap_allocated = scratch\<rparr>)
                  else if contents ! n = compression_byte kSnappyCompression
                  then (case Snappy_GetUncompressedLength prt data of
                          None \<Rightarrow> Some (Inl (Corruption ''corrupted snappy compressed block length''))
                        | Some ulength \<Rightarrow>
                            (case Snappy_Uncompress prt data of
                               None \<Rightarrow> Some (Inl (Corruption ''corrupted snappy compressed block contents''))
                             | Some ubuf \<Rightarrow>
                                 Some (Inr \<lparr>bc_data = take ulength ubuf, bc_cachable = True, bc_heap_allocated = True\<rparr>)))
                  else if contents ! n = compression_byte kZstdCompression
                  then (case Zstd_GetUncompressedLength prt data of
                          None \<Rightarrow> Some (Inl (Corruption ''corrupted zstd compressed block length''))
                        | Some ulength \<Rightarrow>
                            (case Zstd_Uncompress prt data of
                               None \<Rightarrow> Some (Inl (Corruption ''corrupted zstd compressed block contents''))
                             | Some ubuf \<Rightarrow>
                                 Some (Inr \<lparr>bc_data = take ulength ubuf, bc_cachable = True, bc_heap_allocated = True\<rparr>)))
                  else Some (Inl (Corruption ''bad block type'')))"

section \<open>Handles and footers are read back\<close>

lemma BlockHandle_EncodeTo_append: "BlockHandle_EncodeTo h dst = dst @ BlockHandle_EncodeTo h []"
  by (simp add: BlockHandle_EncodeTo_def PutVarint64_def)

lemma BlockHandle_Decode_Encode: "BlockHandle_DecodeFrom (BlockHandle_EncodeTo h [] @ rest) = Inr (h, rest)"
  by (simp add: BlockHandle_DecodeFrom_def BlockHandle_EncodeTo_def PutVarint64_def)

lemma BlockHandle_Encode_inj: "BlockHandle_EncodeTo h [] = BlockHandle_EncodeTo h' [] \<Longrightarrow> h = h'"
  using BlockHandle_Decode_Encode [of h "[]"] BlockHandle_Decode_Encode [of h' "[]"] by simp

lemma BlockHandle_Encode_length: "length (BlockHandle_EncodeTo h []) \<le> kMaxEncodedLength"
  using VarintLength_le_10 [of "bh_offset h"] VarintLength_le_10 [of "bh_size h"]
  by (simp add: BlockHandle_EncodeTo_def PutVarint64_def kMaxEncodedLength_def length_EncodeVarint64)

lemma Footer_Encode_length: "length (Footer_EncodeTo f []) = kEncodedLength"
  using BlockHandle_Encode_length [of "metaindex_handle f"] BlockHandle_Encode_length [of "index_handle f"]
  by (simp add: Footer_EncodeTo_def Let_def BlockHandle_EncodeTo_append [of _ "BlockHandle_EncodeTo _ []"]
      string_resize_def PutFixed32_def kEncodedLength_def kMaxEncodedLength_def)

lemma magic_split:
  "push_bit 32 (ucast (ucast (drop_bit 32 m) :: u32)) OR (ucast (ucast (m AND 0xffffffff) :: u32) :: u64) = (m :: u64)"
proof (rule bit_word_eqI)
  fix n assume "n < LENGTH(64)"
  moreover have "bit (0xffffffff :: u64) n \<longleftrightarrow> n < 32" using bit_mask_iff [where 'a = u64, of 32 n]
    by (auto simp: mask_eq_exp_minus_1 possible_bit_word)
  ultimately show "bit (push_bit 32 (ucast (ucast (drop_bit 32 m) :: u32)) OR (ucast (ucast (m AND 0xffffffff) :: u32) :: u64)) n \<longleftrightarrow> bit m n"
    by (auto simp: bit_or_iff bit_push_bit_iff bit_ucast_iff bit_drop_bit_eq bit_and_iff)
qed

lemma Footer_Encode_shape:
  "\<exists>pad. Footer_EncodeTo f [] = BlockHandle_EncodeTo (metaindex_handle f) [] @ BlockHandle_EncodeTo (index_handle f) [] @ pad @
     EncodeFixed32 (ucast (kTableMagicNumber AND 0xffffffff)) @ EncodeFixed32 (ucast (drop_bit 32 kTableMagicNumber)) \<and>
     length (BlockHandle_EncodeTo (metaindex_handle f) []) + length (BlockHandle_EncodeTo (index_handle f) []) + length pad = kEncodedLength - 8"
  using BlockHandle_Encode_length [of "metaindex_handle f"] BlockHandle_Encode_length [of "index_handle f"]
  by (intro exI [of _ "replicate (kEncodedLength - 8 - (length (BlockHandle_EncodeTo (metaindex_handle f) []) + length (BlockHandle_EncodeTo (index_handle f) []))) 0"])
     (simp add: Footer_EncodeTo_def Let_def BlockHandle_EncodeTo_append [of _ "BlockHandle_EncodeTo _ []"]
      string_resize_def PutFixed32_def kEncodedLength_def kMaxEncodedLength_def)

lemma Footer_Decode_Encode: "Footer_DecodeFrom (Footer_EncodeTo f [] @ rest) = Inr (f, rest)"
proof -
  obtain pad where enc: "Footer_EncodeTo f [] = BlockHandle_EncodeTo (metaindex_handle f) [] @ BlockHandle_EncodeTo (index_handle f) [] @ pad @
      EncodeFixed32 (ucast (kTableMagicNumber AND 0xffffffff)) @ EncodeFixed32 (ucast (drop_bit 32 kTableMagicNumber))"
    and len: "length (BlockHandle_EncodeTo (metaindex_handle f) []) + length (BlockHandle_EncodeTo (index_handle f) []) + length pad = kEncodedLength - 8"
    using Footer_Encode_shape by blast
  let ?input = "Footer_EncodeTo f [] @ rest"
  have "drop (kEncodedLength - 8) ?input =
      EncodeFixed32 (ucast (kTableMagicNumber AND 0xffffffff)) @ EncodeFixed32 (ucast (drop_bit 32 kTableMagicNumber)) @ rest"
    unfolding enc by (simp flip: len)
  moreover have "\<not> length ?input < kEncodedLength" by (simp add: Footer_Encode_length)
  moreover have "BlockHandle_DecodeFrom ?input = Inr (metaindex_handle f, drop (length (BlockHandle_EncodeTo (metaindex_handle f) [])) ?input)"
    unfolding enc by (simp add: BlockHandle_Decode_Encode)
  moreover have "\<exists>r. BlockHandle_DecodeFrom (drop (length (BlockHandle_EncodeTo (metaindex_handle f) [])) ?input) = Inr (index_handle f, r)"
    unfolding enc by (simp add: BlockHandle_Decode_Encode)
  ultimately show ?thesis by (auto simp: Footer_DecodeFrom_def Let_def magic_split)
qed

section \<open>Stored blocks are read back\<close>

text \<open>A block in a file: its bytes, its type, and the masked checksum of both.\<close>

definition stored_block :: "CompressionType \<Rightarrow> bytes \<Rightarrow> bytes" where
  "stored_block t data =
     data @ [compression_byte t] @ EncodeFixed32 (Mask (Extend (Value data) [compression_byte t]))"

text \<open>What the decompressor of a type makes of stored bytes.\<close>

definition decompressed :: "port \<Rightarrow> CompressionType \<Rightarrow> bytes \<Rightarrow> bytes option" where
  "decompressed prt t data =
     (case t of
        kNoCompression \<Rightarrow> Some data
      | kSnappyCompression \<Rightarrow>
          (case (Snappy_GetUncompressedLength prt data, Snappy_Uncompress prt data) of
             (Some n, Some x) \<Rightarrow> Some (take n x) | _ \<Rightarrow> None)
      | kZstdCompression \<Rightarrow>
          (case (Zstd_GetUncompressedLength prt data, Zstd_Uncompress prt data) of
             (Some n, Some x) \<Rightarrow> Some (take n x) | _ \<Rightarrow> None))"

lemma length_stored_block [simp]: "length (stored_block t data) = length data + kBlockTrailerSize"
  by (simp add: stored_block_def kBlockTrailerSize_def)

lemma compression_byte_eq [simp]: "compression_byte t = compression_byte t' \<longleftrightarrow> t = t'"
  by (cases t; cases t') (simp_all add: compression_byte_def)

context random_access_file
begin

lemma ReadBlock_stored:
  assumes f: "r_ok f" "r_contents f = pre @ stored_block t data @ post"
    and h: "unat (bh_offset h) = length pre" "unat (bh_size h) = length data" "length data + kBlockTrailerSize < 2 ^ 64"
    and d: "decompressed prt t data = Some x"
  shows "\<exists>b. ReadBlock prt r_ops f verify h = Some (Inr \<lparr>bc_data = x, bc_cachable = b, bc_heap_allocated = b\<rparr>)"
proof -
  obtain scratch where r: "RRead r_ops f (length pre) (length data + kBlockTrailerSize) = (OK, stored_block t data, scratch)"
    using r_read [OF f(1), of "length pre" "length data + kBlockTrailerSize"] f(2) by auto
  have crc: "Value (take (length data + 1) (stored_block t data)) = Unmask (DecodeFixed32 (drop (length data + 1) (stored_block t data)))"
    by (simp add: stored_block_def Value_def Extend_append)
  have nth: "take (length data) (stored_block t data) = data" "stored_block t data ! length data = compression_byte t"
    by (simp_all add: stored_block_def)
  show ?thesis
    using r h d crc nth by (cases t) (auto simp: ReadBlock_def Let_def decompressed_def split: option.splits)
qed

end

section \<open>Properties\<close>

text \<open>C27. A footer takes 48 bytes and is read back from them, whatever its handles and whatever follows it.\<close>

theorem footer_roundtrip:
  "length (Footer_EncodeTo f []) = kEncodedLength \<and> Footer_DecodeFrom (Footer_EncodeTo f [] @ rest) = Inr (f, rest)"
  by (simp add: Footer_Encode_length Footer_Decode_Encode)



end
