(* ===== verification/Options.thy ===== *)
theory Options
  imports Dbformat Format
begin

text \<open>
  The options of include/leveldb/options.h. The environment, the info log and the cache pointers are not
  fields of the record: the operations that use them take them as arguments.
\<close>

record Options =
  opt_comparator :: comparator
  opt_create_if_missing :: bool
  opt_error_if_exists :: bool
  opt_paranoid_checks :: bool
  opt_write_buffer_size :: nat
  opt_max_open_files :: int
  opt_block_size :: nat
  opt_block_restart_interval :: nat
  opt_max_file_size :: nat
  opt_compression :: CompressionType
  opt_zstd_compression_level :: int
  opt_reuse_logs :: bool
  opt_filter_policy :: "FilterPolicy option"

definition make_Options :: Options where
  "make_Options =
     \<lparr>opt_comparator = BytewiseComparator, opt_create_if_missing = False, opt_error_if_exists = False,
      opt_paranoid_checks = False, opt_write_buffer_size = 4 * 1024 * 1024, opt_max_open_files = 1000,
      opt_block_size = 4 * 1024, opt_block_restart_interval = 16, opt_max_file_size = 2 * 1024 * 1024,
      opt_compression = kSnappyCompression, opt_zstd_compression_level = 1, opt_reuse_logs = False,
      opt_filter_policy = None\<rparr>"

record ReadOptions =
  ro_verify_checksums :: bool
  ro_fill_cache :: bool
  ro_snapshot :: "u64 option"

definition make_ReadOptions :: ReadOptions where
  "make_ReadOptions = \<lparr>ro_verify_checksums = False, ro_fill_cache = True, ro_snapshot = None\<rparr>"

record WriteOptions =
  wo_sync :: bool

definition make_WriteOptions :: WriteOptions where
  "make_WriteOptions = \<lparr>wo_sync = False\<rparr>"

section \<open>Sanitizing\<close>

definition kNumNonTableCacheFiles :: int where "kNumNonTableCacheFiles = 10"

definition ClipToRange :: "int \<Rightarrow> int \<Rightarrow> int \<Rightarrow> int" where
  "ClipToRange v minvalue maxvalue =
     (let v = (if maxvalue < v then maxvalue else v) in if v < minvalue then minvalue else v)"

text \<open>The comparator and the filter policy become the ones for internal keys.\<close>

definition SanitizeOptions :: "Options \<Rightarrow> Options" where
  "SanitizeOptions src =
     src\<lparr>opt_comparator := InternalKeyComparator (opt_comparator src),
         opt_filter_policy := map_option InternalFilterPolicy (opt_filter_policy src),
         opt_max_open_files := ClipToRange (opt_max_open_files src) (64 + kNumNonTableCacheFiles) 50000,
         opt_write_buffer_size := nat (ClipToRange (int (opt_write_buffer_size src)) (64 * 2 ^ 10) (2 ^ 30)),
         opt_max_file_size := nat (ClipToRange (int (opt_max_file_size src)) (2 ^ 20) (2 ^ 30)),
         opt_block_size := nat (ClipToRange (int (opt_block_size src)) (2 ^ 10) (4 * 2 ^ 20))\<rparr>"

definition TableCacheSize :: "Options \<Rightarrow> int" where
  "TableCacheSize sanitized_options = opt_max_open_files sanitized_options - kNumNonTableCacheFiles"

end
