(* ===== verification/Bloom.thy ===== *)
theory Bloom
  imports Dbformat
begin

text \<open>
  The hash of util/hash.cc and the Bloom filter of util/bloom.cc. What the tables rely on is the locale
  \<^verbatim>\<open>filter_policy\<close>: a key a filter was built from matches it. The Bloom filter provides it, and so
  does the wrapper for internal keys of db/dbformat.cc around any policy that does.
\<close>

section \<open>Hashing\<close>

fun Hash_loop :: "u32 \<Rightarrow> bytes \<Rightarrow> u32 \<times> bytes" where
  "Hash_loop h (a # b # c # d # rest) =
     (let w = DecodeFixed32 [a, b, c, d]; h = h + w; h = h * 0xc6a4a793; h = h XOR drop_bit 16 h
      in Hash_loop h rest)"
| "Hash_loop h rest = (h, rest)"

definition Hash :: "bytes \<Rightarrow> u32 \<Rightarrow> u32" where
  "Hash data seed =
     (let m = 0xc6a4a793 :: u32; r = 24;
          h = seed XOR (word_of_nat (length data) * m);
          (h, rest) = Hash_loop h data;
          h = (if length rest = 3 then h + push_bit 16 (ucast (rest ! 2)) else h);
          h = (if 2 \<le> length rest then h + push_bit 8 (ucast (rest ! 1)) else h)
      in if 1 \<le> length rest then
           let h = h + ucast (rest ! 0); h = h * m in h XOR drop_bit r h
         else h)"

section \<open>The policy\<close>

definition BloomHash :: "bytes \<Rightarrow> u32" where
  "BloomHash key = Hash key 0xbc9f1d34"

record BloomFilterPolicy =
  bits_per_key :: nat
  bloom_k :: nat

text \<open>The product with the double 0.69 is truncated; up to the cap of 30 it is never within rounding
  distance of an integer, so exact arithmetic gives the same number.\<close>

definition make_BloomFilterPolicy :: "nat \<Rightarrow> BloomFilterPolicy" where
  "make_BloomFilterPolicy n =
     (let k = n * 69 div 100;
          k = (if k < 1 then 1 else k);
          k = (if 30 < k then 30 else k)
      in \<lparr>bits_per_key = n, bloom_k = k\<rparr>)"

definition bloom_delta :: "u32 \<Rightarrow> u32" where
  "bloom_delta h = drop_bit 17 h OR push_bit 15 h"

fun bloom_set :: "nat \<Rightarrow> u32 \<Rightarrow> u32 \<Rightarrow> nat \<Rightarrow> bytes \<Rightarrow> bytes" where
  "bloom_set 0 h delta bits array = array"
| "bloom_set (Suc j) h delta bits array =
     (let bitpos = unat h mod bits;
          array = array[bitpos div 8 := array ! (bitpos div 8) OR push_bit (bitpos mod 8) 1]
      in bloom_set j (h + delta) delta bits array)"

definition Bloom_CreateFilter :: "BloomFilterPolicy \<Rightarrow> bytes list \<Rightarrow> bytes \<Rightarrow> bytes" where
  "Bloom_CreateFilter p keys dst =
     (let bits = length keys * bits_per_key p;
          bits = (if bits < 64 then 64 else bits);
          nbytes = (bits + 7) div 8;
          bits = nbytes * 8;
          array = replicate nbytes 0;
          array = foldl (\<lambda>array key. let h = BloomHash key in bloom_set (bloom_k p) h (bloom_delta h) bits array) array keys
      in dst @ array @ [word_of_nat (bloom_k p)])"

fun bloom_test :: "nat \<Rightarrow> u32 \<Rightarrow> u32 \<Rightarrow> nat \<Rightarrow> bytes \<Rightarrow> bool" where
  "bloom_test 0 h delta bits array = True"
| "bloom_test (Suc j) h delta bits array =
     (let bitpos = unat h mod bits in
      if array ! (bitpos div 8) AND push_bit (bitpos mod 8) 1 = 0 then False
      else bloom_test j (h + delta) delta bits array)"

definition Bloom_KeyMayMatch :: "bytes \<Rightarrow> bytes \<Rightarrow> bool" where
  "Bloom_KeyMayMatch key bloom_filter =
     (let len = length bloom_filter in
      if len < 2 then False
      else
        let bits = (len - 1) * 8;
            k = unat (bloom_filter ! (len - 1))
        in if 30 < k then True
           else let h = BloomHash key in bloom_test k h (bloom_delta h) bits bloom_filter)"

definition NewBloomFilterPolicy :: "nat \<Rightarrow> FilterPolicy" where
  "NewBloomFilterPolicy n =
     (let p = make_BloomFilterPolicy n in
      \<lparr>FilterName = ''leveldb.BuiltinBloomFilter2'', CreateFilter = Bloom_CreateFilter p,
       KeyMayMatch = Bloom_KeyMayMatch\<rparr>)"

section \<open>The contract of a filter policy\<close>

locale filter_policy =
  fixes policy :: FilterPolicy
  assumes filter_appends: "take (length dst) (CreateFilter policy keys dst) = dst"
    and filter_matches: "key \<in> set keys \<Longrightarrow> KeyMayMatch policy key (drop (length dst) (CreateFilter policy keys dst))"
begin

lemma internal_filter_policy: "filter_policy (InternalFilterPolicy policy)"
  by unfold_locales (simp_all add: InternalFilterPolicy_def filter_appends filter_matches)

end

section \<open>Bits\<close>

definition array_bit :: "bytes \<Rightarrow> nat \<Rightarrow> bool" where
  "array_bit array p = bit (array ! (p div 8)) (p mod 8)"

lemma length_bloom_set [simp]: "length (bloom_set k h delta bits array) = length array"
  by (induction k h delta bits array rule: bloom_set.induct) (simp_all add: Let_def)

lemma array_bit_set:
  assumes "p div 8 < length array"
  shows "array_bit (array[p div 8 := array ! (p div 8) OR push_bit (p mod 8) 1]) q \<longleftrightarrow> array_bit array q \<or> q = p"
proof -
  have "q = p \<longleftrightarrow> q div 8 = p div 8 \<and> q mod 8 = p mod 8" by (metis div_mult_mod_eq)
  moreover have "bit (push_bit i (1 :: byte)) j \<longleftrightarrow> j = i" if "i < 8" "j < 8" for i j
    using that by (auto simp: bit_exp_iff possible_bit_word)
  ultimately show ?thesis
    using assms by (auto simp: array_bit_def nth_list_update bit_or_iff)
qed

lemma bloom_test_iff:
  "bloom_test k h delta bits array \<longleftrightarrow> (\<forall>j < k. array_bit array (unat (h + word_of_nat j * delta) mod bits))"
proof (induction k h delta bits array rule: bloom_test.induct)
  case (2 j h delta bits array)
  have "(w :: byte) AND push_bit i 1 = 0 \<longleftrightarrow> \<not> bit w i" for w i
    by (simp only: bit_iff_and_push_bit_not_eq_0 simp_thms)
  moreover have "(\<forall>i < Suc j. P i) \<longleftrightarrow> P 0 \<and> (\<forall>i < j. P (Suc i))" for P :: "nat \<Rightarrow> bool"
    by (auto simp: less_Suc_eq_0_disj)
  ultimately show ?case
    using 2 by (simp add: Let_def array_bit_def algebra_simps)
qed simp

lemma array_bit_bloom_set:
  assumes "bits = length array * 8" and "0 < bits"
  shows "array_bit (bloom_set k h delta bits array) q \<longleftrightarrow>
    array_bit array q \<or> (\<exists>j < k. q = unat (h + word_of_nat j * delta) mod bits)"
  using assms
proof (induction k h delta bits array rule: bloom_set.induct)
  case (2 j h delta bits array)
  let ?p = "unat h mod bits"
  let ?a = "array[?p div 8 := array ! (?p div 8) OR push_bit (?p mod 8) 1]"
  have "?p < bits" using 2(3) by simp
  then have "?p div 8 < length array" using 2(2) by (simp add: less_mult_imp_div_less)
  note set = array_bit_set [OF this, of q]
  have "array_bit (bloom_set (Suc j) h delta bits array) q \<longleftrightarrow>
      array_bit ?a q \<or> (\<exists>i < j. q = unat (h + delta + word_of_nat i * delta) mod bits)"
    using 2 by (simp add: Let_def)
  also have "\<dots> \<longleftrightarrow> array_bit array q \<or> q = ?p \<or> (\<exists>i < j. q = unat (h + word_of_nat (Suc i) * delta) mod bits)"
    unfolding set by (simp add: algebra_simps)
  also have "\<dots> \<longleftrightarrow> array_bit array q \<or> (\<exists>i < Suc j. q = unat (h + word_of_nat i * delta) mod bits)"
    by (auto simp: less_Suc_eq_0_disj)
  finally show ?case .
qed simp

lemma bloom_fold_bits:
  assumes "bits = length array * 8" and "0 < bits"
  shows "length (foldl (\<lambda>a key. bloom_set k (f key) (g key) bits a) array keys) = length array"
    and "array_bit (foldl (\<lambda>a key. bloom_set k (f key) (g key) bits a) array keys) q \<longleftrightarrow>
      array_bit array q \<or> (\<exists>key \<in> set keys. \<exists>j < k. q = unat (f key + word_of_nat j * g key) mod bits)"
  using assms
proof (induction keys arbitrary: array)
  case (Cons key keys)
  {
    case 1
    then show ?case using Cons(1) [of "bloom_set k (f key) (g key) bits array"] by simp
  next
    case 2
    then show ?case
      using Cons(2) [of "bloom_set k (f key) (g key) bits array"] array_bit_bloom_set [OF 2] by auto
  }
qed simp_all

lemma Bloom_matches:
  assumes "key \<in> set keys" and k: "bloom_k p \<le> 30"
  shows "Bloom_KeyMayMatch key (drop (length dst) (Bloom_CreateFilter p keys dst))"
proof -
  define bits where "bits = (let b = length keys * bits_per_key p in if b < 64 then 64 else b)"
  define n where "n = (bits + 7) div 8"
  define array where "array = foldl (\<lambda>a key. bloom_set (bloom_k p) (BloomHash key) (bloom_delta (BloomHash key)) (n * 8) a) (replicate n 0) keys"
  have "64 \<le> bits" by (simp add: bits_def Let_def)
  then have n: "1 \<le> n" unfolding n_def using div_le_mono [of 8 "bits + 7" 8] by simp
  have len: "length array = n" using n unfolding array_def by (subst bloom_fold_bits(1)) simp_all
  have bits: "array_bit array q" if "j < bloom_k p" "q = unat (BloomHash key + word_of_nat j * bloom_delta (BloomHash key)) mod (n * 8)" for j q
    using assms(1) that n unfolding array_def by (subst bloom_fold_bits(2)) auto
  have f: "drop (length dst) (Bloom_CreateFilter p keys dst) = array @ [word_of_nat (bloom_k p)]"
    by (simp add: Bloom_CreateFilter_def Let_def array_def n_def bits_def)
  have "array_bit (array @ [word_of_nat (bloom_k p)]) q" if "array_bit array q" "q < n * 8" for q
    using that len by (simp add: array_bit_def nth_append less_mult_imp_div_less)
  then show ?thesis
    using bits n len k unfolding f
    by (auto simp: Bloom_KeyMayMatch_def Let_def bloom_test_iff unat_of_nat_small nth_append)
qed

interpretation bloom_policy: filter_policy "NewBloomFilterPolicy n" for n
proof
  show "take (length dst) (CreateFilter (NewBloomFilterPolicy n) keys dst) = dst" for dst keys
    by (simp add: NewBloomFilterPolicy_def Bloom_CreateFilter_def Let_def)
  show "KeyMayMatch (NewBloomFilterPolicy n) key (drop (length dst) (CreateFilter (NewBloomFilterPolicy n) keys dst))"
    if "key \<in> set keys" for key keys dst
    using that by (simp add: NewBloomFilterPolicy_def Bloom_matches make_BloomFilterPolicy_def Let_def)
qed

interpretation internal_bloom_policy: filter_policy "InternalFilterPolicy (NewBloomFilterPolicy n)" for n
  by (rule bloom_policy.internal_filter_policy)

text \<open>C19. A Bloom filter has no false negatives: whatever the number of bits per key, every key a filter
  was created from matches it, also through the wrapper that hashes the user part of internal keys.\<close>

theorem bloom_no_false_negatives:
  assumes "key \<in> set keys"
  shows "KeyMayMatch (NewBloomFilterPolicy n) key (CreateFilter (NewBloomFilterPolicy n) keys []) \<and>
    KeyMayMatch (InternalFilterPolicy (NewBloomFilterPolicy n)) key
      (CreateFilter (InternalFilterPolicy (NewBloomFilterPolicy n)) keys [])"
  using bloom_policy.filter_matches [OF assms, of n "[]"] internal_bloom_policy.filter_matches [OF assms, of n "[]"] by simp

theorem bloom_no_false_negatives_witness:
  "KeyMayMatch (NewBloomFilterPolicy 10) [1] (CreateFilter (NewBloomFilterPolicy 10) [[1], [2, 3]] [])"
  using bloom_no_false_negatives [of "[1]" "[[1], [2, 3]]" 10] by simp

end
