(* ===== verification/Filter_Block.thy ===== *)
theory Filter_Block
  imports Bloom
begin

text \<open>
  The filter block of a table (table/filter_block.cc): one filter for every 2 KB of file offset. The
  builder keeps the keys of the current filter flattened in one string. Whatever filter policy has no
  false negatives, the reader of a finished filter block has none either.
\<close>

section \<open>The builder\<close>

definition kFilterBaseLg :: nat where "kFilterBaseLg = 11"

definition kFilterBase :: nat where "kFilterBase = 2 ^ kFilterBaseLg"

record FilterBlockBuilder =
  fbb_keys :: bytes
  fbb_start :: "nat list"
  fbb_result :: bytes
  fbb_filter_offsets :: "u32 list"

definition make_FilterBlockBuilder :: FilterBlockBuilder where
  "make_FilterBlockBuilder = \<lparr>fbb_keys = [], fbb_start = [], fbb_result = [], fbb_filter_offsets = []\<rparr>"

definition GenerateFilter :: "FilterPolicy \<Rightarrow> FilterBlockBuilder \<Rightarrow> FilterBlockBuilder" where
  "GenerateFilter policy b =
     (let num_keys = length (fbb_start b) in
      if num_keys = 0 then b\<lparr>fbb_filter_offsets := fbb_filter_offsets b @ [size32 (fbb_result b)]\<rparr>
      else
        let start = fbb_start b @ [length (fbb_keys b)];
            tmp_keys = map (\<lambda>i. take (start ! (i + 1) - start ! i) (drop (start ! i) (fbb_keys b))) [0..<num_keys]
        in b\<lparr>fbb_filter_offsets := fbb_filter_offsets b @ [size32 (fbb_result b)],
             fbb_result := CreateFilter policy tmp_keys (fbb_result b), fbb_keys := [], fbb_start := []\<rparr>)"

function StartBlock_loop :: "FilterPolicy \<Rightarrow> nat \<Rightarrow> FilterBlockBuilder \<Rightarrow> FilterBlockBuilder" where
  "StartBlock_loop policy filter_index b =
     (if length (fbb_filter_offsets b) < filter_index then StartBlock_loop policy filter_index (GenerateFilter policy b)
      else b)"
  by pat_completeness auto
termination
  by (relation "measure (\<lambda>(_, i, b). i - length (fbb_filter_offsets b))") (auto simp: GenerateFilter_def Let_def)

declare StartBlock_loop.simps [simp del]

definition StartBlock :: "FilterPolicy \<Rightarrow> nat \<Rightarrow> FilterBlockBuilder \<Rightarrow> FilterBlockBuilder" where
  "StartBlock policy block_offset b = StartBlock_loop policy (block_offset div kFilterBase) b"

definition AddKey :: "bytes \<Rightarrow> FilterBlockBuilder \<Rightarrow> FilterBlockBuilder" where
  "AddKey key b = b\<lparr>fbb_start := fbb_start b @ [length (fbb_keys b)], fbb_keys := fbb_keys b @ key\<rparr>"

definition FilterBlock_Finish :: "FilterPolicy \<Rightarrow> FilterBlockBuilder \<Rightarrow> bytes \<times> FilterBlockBuilder" where
  "FilterBlock_Finish policy b =
     (let b = (if fbb_start b \<noteq> [] then GenerateFilter policy b else b);
          array_offset = size32 (fbb_result b);
          result = foldl PutFixed32 (fbb_result b) (fbb_filter_offsets b);
          result = PutFixed32 result array_offset @ [word_of_nat kFilterBaseLg]
      in (result, b\<lparr>fbb_result := result\<rparr>))"

section \<open>The reader\<close>

text \<open>The pointer \<^verbatim>\<open>offset_\<close> is an offset into the data.\<close>

record FilterBlockReader =
  fbr_data :: bytes
  fbr_offset :: nat
  fbr_num :: nat
  fbr_base_lg :: nat

definition make_FilterBlockReader :: "bytes \<Rightarrow> FilterBlockReader" where
  "make_FilterBlockReader contents =
     (let n = length contents; r = \<lparr>fbr_data = [], fbr_offset = 0, fbr_num = 0, fbr_base_lg = 0\<rparr> in
      if n < 5 then r
      else
        let r = r\<lparr>fbr_base_lg := unat (contents ! (n - 1))\<rparr>;
            last_word = unat (DecodeFixed32 (drop (n - 5) contents))
        in if n - 5 < last_word then r
           else r\<lparr>fbr_data := contents, fbr_offset := last_word, fbr_num := (n - 5 - last_word) div 4\<rparr>)"

text \<open>\<open>None\<close> is a shift by 64 bits or more, which the language leaves undefined.\<close>

definition Filter_KeyMayMatch :: "FilterPolicy \<Rightarrow> FilterBlockReader \<Rightarrow> u64 \<Rightarrow> bytes \<Rightarrow> bool option" where
  "Filter_KeyMayMatch policy r block_offset key =
     (if 64 \<le> fbr_base_lg r then None
      else
        let index = unat (drop_bit (fbr_base_lg r) block_offset) in
        if index < fbr_num r then
          let start = unat (DecodeFixed32 (drop (fbr_offset r + index * 4) (fbr_data r)));
              limit = unat (DecodeFixed32 (drop (fbr_offset r + index * 4 + 4) (fbr_data r)))
          in if start \<le> limit \<and> limit \<le> fbr_offset r
             then Some (KeyMayMatch policy key (take (limit - start) (drop start (fbr_data r))))
             else if start = limit then Some False
             else Some True
        else Some True)"

section \<open>What the builder holds\<close>

text \<open>The filters made so far, from the groups of keys they were made of.\<close>

definition filter_data :: "FilterPolicy \<Rightarrow> bytes list list \<Rightarrow> bytes" where
  "filter_data policy groups = foldl (\<lambda>r ks. if ks = [] then r else CreateFilter policy ks r) [] groups"

definition filter_starts :: "FilterPolicy \<Rightarrow> bytes list list \<Rightarrow> u32 list" where
  "filter_starts policy groups = map (\<lambda>i. size32 (filter_data policy (take i groups))) [0..<length groups]"

definition key_starts :: "bytes list \<Rightarrow> nat list" where
  "key_starts cur = map (\<lambda>i. length (concat (take i cur))) [0..<length cur]"

definition fbb_rep :: "FilterPolicy \<Rightarrow> FilterBlockBuilder \<Rightarrow> bytes list list \<Rightarrow> bytes list \<Rightarrow> bool" where
  "fbb_rep policy b groups cur \<longleftrightarrow>
     fbb_keys b = concat cur \<and> fbb_start b = key_starts cur \<and> fbb_result b = filter_data policy groups \<and>
     fbb_filter_offsets b = filter_starts policy groups"

lemma filter_data_snoc: "filter_data policy (groups @ [ks]) = (if ks = [] then filter_data policy groups else CreateFilter policy ks (filter_data policy groups))"
  by (simp add: filter_data_def)

lemma filter_starts_snoc: "filter_starts policy (groups @ [ks]) = filter_starts policy groups @ [size32 (filter_data policy groups)]"
  by (simp add: filter_starts_def)

lemma key_starts_snoc: "key_starts (cur @ [k]) = key_starts cur @ [length (concat cur)]"
  by (simp add: key_starts_def)

lemma key_starts_slices:
  "map (\<lambda>i. take ((key_starts cur @ [length (concat cur)]) ! (i + 1) - (key_starts cur @ [length (concat cur)]) ! i)
     (drop ((key_starts cur @ [length (concat cur)]) ! i) (concat cur))) [0..<length cur] = cur"
proof (rule nth_equalityI)
  fix i assume "i < length (map (\<lambda>i. take ((key_starts cur @ [length (concat cur)]) ! (i + 1) - (key_starts cur @ [length (concat cur)]) ! i)
     (drop ((key_starts cur @ [length (concat cur)]) ! i) (concat cur))) [0..<length cur])"
  then have i: "i < length cur" by simp
  have at: "(key_starts cur @ [length (concat cur)]) ! j = length (concat (take j cur))" if "j \<le> length cur" for j
    using that by (cases "j = length cur") (simp_all add: key_starts_def nth_append)
  have "concat cur = concat (take i cur) @ cur ! i @ concat (drop (Suc i) cur)"
    using arg_cong [OF id_take_nth_drop [OF i], of concat] by simp
  then show "map (\<lambda>i. take ((key_starts cur @ [length (concat cur)]) ! (i + 1) - (key_starts cur @ [length (concat cur)]) ! i)
     (drop ((key_starts cur @ [length (concat cur)]) ! i) (concat cur))) [0..<length cur] ! i = cur ! i"
    using i at [of i] at [of "Suc i"] by (simp add: take_Suc_conv_app_nth)
qed simp

lemma GenerateFilter_rep: "fbb_rep policy b groups cur \<Longrightarrow> fbb_rep policy (GenerateFilter policy b) (groups @ [cur]) []"
  using key_starts_slices [of cur]
  by (auto simp: fbb_rep_def GenerateFilter_def Let_def filter_data_snoc filter_starts_snoc key_starts_def)

lemma AddKey_rep: "fbb_rep policy b groups cur \<Longrightarrow> fbb_rep policy (AddKey k b) groups (cur @ [k])"
  by (simp add: fbb_rep_def AddKey_def key_starts_snoc)

lemma length_filter_starts [simp]: "length (filter_starts policy groups) = length groups"
  by (simp add: filter_starts_def)

text \<open>The invariant: the keys promised so far are in the group of their block's offset.\<close>

definition fbb_ok :: "FilterPolicy \<Rightarrow> FilterBlockBuilder \<Rightarrow> (nat \<times> bytes) set \<Rightarrow> nat \<Rightarrow> bool" where
  "fbb_ok policy b ps i \<longleftrightarrow>
     (\<exists>groups cur. fbb_rep policy b groups cur \<and> length groups = i \<and>
        (\<forall>(off, k) \<in> ps. off div kFilterBase < i \<and> k \<in> set (groups ! (off div kFilterBase)) \<or>
           off div kFilterBase = i \<and> k \<in> set cur))"

lemma make_FilterBlockBuilder_ok: "fbb_ok policy make_FilterBlockBuilder {} 0"
  by (auto simp: fbb_ok_def fbb_rep_def make_FilterBlockBuilder_def key_starts_def filter_data_def filter_starts_def)

lemma AddKey_ok:
  assumes "fbb_ok policy b ps i" and "off div kFilterBase = i"
  shows "fbb_ok policy (AddKey k b) (insert (off, k) ps) i"
proof -
  obtain groups cur where g: "fbb_rep policy b groups cur" "length groups = i"
      "\<forall>(off, k) \<in> ps. off div kFilterBase < i \<and> k \<in> set (groups ! (off div kFilterBase)) \<or> off div kFilterBase = i \<and> k \<in> set cur"
    using assms(1) by (auto simp: fbb_ok_def)
  show ?thesis
    unfolding fbb_ok_def
    by (rule exI [of _ groups], rule exI [of _ "cur @ [k]"]) (use g assms(2) AddKey_rep [OF g(1)] in auto)
qed

lemma GenerateFilter_ok:
  assumes "fbb_ok policy b ps i"
  shows "fbb_ok policy (GenerateFilter policy b) ps (Suc i)"
proof -
  obtain groups cur where g: "fbb_rep policy b groups cur" "length groups = i"
      "\<forall>(off, k) \<in> ps. off div kFilterBase < i \<and> k \<in> set (groups ! (off div kFilterBase)) \<or> off div kFilterBase = i \<and> k \<in> set cur"
    using assms by (auto simp: fbb_ok_def)
  show ?thesis
    unfolding fbb_ok_def
    by (rule exI [of _ "groups @ [cur]"], rule exI [of _ "[]"])
       (use g GenerateFilter_rep [OF g(1)] in \<open>fastforce simp: nth_append\<close>)
qed

lemma fbb_ok_length: "fbb_ok policy b ps i \<Longrightarrow> length (fbb_filter_offsets b) = i"
  by (auto simp: fbb_ok_def fbb_rep_def)

lemma StartBlock_loop_ok: "fbb_ok policy b ps i \<Longrightarrow> i \<le> j \<Longrightarrow> fbb_ok policy (StartBlock_loop policy j b) ps j"
proof (induction "j - i" arbitrary: b i)
  case 0
  then show ?case using fbb_ok_length [OF 0(2)] by (subst StartBlock_loop.simps) simp
next
  case (Suc d)
  then have "i < j" by simp
  with Suc show ?case
    using fbb_ok_length [OF Suc.prems(1)] Suc.hyps(1) [OF _ GenerateFilter_ok [OF Suc.prems(1)]]
    by (subst StartBlock_loop.simps) simp
qed

lemma StartBlock_ok:
  "fbb_ok policy b ps i \<Longrightarrow> i \<le> off div kFilterBase \<Longrightarrow> fbb_ok policy (StartBlock policy off b) ps (off div kFilterBase)"
  unfolding StartBlock_def by (rule StartBlock_loop_ok)

lemma Finish_shape:
  assumes "fbb_ok policy b ps i"
  shows "\<exists>groups. fst (FilterBlock_Finish policy b) =
      filter_data policy groups @ concat (map EncodeFixed32 (filter_starts policy groups)) @
      EncodeFixed32 (size32 (filter_data policy groups)) @ [11] \<and>
    (\<forall>(off, k) \<in> ps. off div kFilterBase < length groups \<and> k \<in> set (groups ! (off div kFilterBase)))"
proof -
  have put: "foldl PutFixed32 dst ws = dst @ concat (map EncodeFixed32 ws)" for dst ws
    by (induction ws arbitrary: dst) (simp_all add: PutFixed32_def)
  obtain groups cur where g: "fbb_rep policy b groups cur" "length groups = i"
      "\<forall>(off, k) \<in> ps. off div kFilterBase < i \<and> k \<in> set (groups ! (off div kFilterBase)) \<or> off div kFilterBase = i \<and> k \<in> set cur"
    using assms by (auto simp: fbb_ok_def)
  show ?thesis
  proof (cases "cur = []")
    case True
    then show ?thesis
      using g by (intro exI [of _ groups])
        (fastforce simp: FilterBlock_Finish_def Let_def fbb_rep_def key_starts_def put PutFixed32_def kFilterBaseLg_def)
  next
    case False
    then have "fbb_start b \<noteq> []" using g(1) by (simp add: fbb_rep_def key_starts_def)
    then show ?thesis
      using g GenerateFilter_rep [OF g(1)] by (intro exI [of _ "groups @ [cur]"])
        (fastforce simp: FilterBlock_Finish_def Let_def fbb_rep_def put PutFixed32_def kFilterBaseLg_def nth_append)
  qed
qed

section \<open>No false negatives\<close>

lemma drop_words: "i \<le> length ws \<Longrightarrow> drop (4 * i) (concat (map EncodeFixed32 ws) @ rest) = concat (map EncodeFixed32 (drop i ws)) @ rest"
proof (induction ws arbitrary: i)
  case (Cons w ws)
  then show ?case by (cases i) simp_all
qed simp

lemma nth_word: "i < length ws \<Longrightarrow> DecodeFixed32 (drop (4 * i) (concat (map EncodeFixed32 ws) @ rest)) = ws ! i"
  unfolding drop_words [OF less_imp_le] by (simp add: Cons_nth_drop_Suc [symmetric])

lemma length_words [simp]: "length (concat (map EncodeFixed32 ws)) = 4 * length ws"
  by (induction ws) simp_all

context filter_policy
begin

lemma filter_data_append: "\<exists>ext. filter_data policy (gs @ hs) = filter_data policy gs @ ext"
proof (induction hs rule: rev_induct)
  case (snoc ks hs)
  then obtain ext where ext: "filter_data policy (gs @ hs) = filter_data policy gs @ ext" by blast
  let ?r = "filter_data policy (gs @ hs)"
  have "CreateFilter policy ks ?r = ?r @ drop (length ?r) (CreateFilter policy ks ?r)"
    using filter_appends [of ?r ks] append_take_drop_id [of "length ?r" "CreateFilter policy ks ?r"] by simp
  then show ?case using ext filter_data_snoc [of policy "gs @ hs" ks] by (metis append.assoc)
qed simp

lemma filter_data_take: "\<exists>ext. filter_data policy gs = filter_data policy (take i gs) @ ext"
  using filter_data_append [of "take i gs" "drop i gs"] by simp

lemma filter_group:
  assumes "i < length gs" and "k \<in> set (gs ! i)"
  shows "KeyMayMatch policy k (drop (length (filter_data policy (take i gs))) (filter_data policy (take (Suc i) gs)))"
proof -
  have "gs ! i \<noteq> []" using assms(2) by auto
  then have "filter_data policy (take (Suc i) gs) = CreateFilter policy (gs ! i) (filter_data policy (take i gs))"
    using assms(1) by (simp add: take_Suc_conv_app_nth filter_data_snoc)
  then show ?thesis using filter_matches [OF assms(2)] by simp
qed

lemma filter_data_mono: "length (filter_data policy (take i gs)) \<le> length (filter_data policy gs)"
  using filter_data_take [of gs i] by (metis le_add1 length_append)

lemma reader_finds:
  assumes gs: "contents = filter_data policy gs @ concat (map EncodeFixed32 (filter_starts policy gs)) @
        EncodeFixed32 (size32 (filter_data policy gs)) @ [11]"
    and small: "length contents < 2 ^ 32" and i: "i < length gs" "unat (drop_bit 11 off) = i" and k: "k \<in> set (gs ! i)"
  shows "Filter_KeyMayMatch policy (make_FilterBlockReader contents) off k = Some True"
proof -
  let ?d = "filter_data policy gs" and ?ws = "filter_starts policy gs @ [size32 (filter_data policy gs)]"
  have c: "contents = ?d @ concat (map EncodeFixed32 ?ws) @ [11]" using gs by simp
  have len: "length contents = length ?d + 4 * length gs + 5" unfolding gs by simp
  have d32: "unat (size32 (filter_data policy (take j gs)) :: u32) = length (filter_data policy (take j gs))" for j
    using small len filter_data_mono [of j gs] by (intro unat_of_nat_small) simp
  have last: "unat (DecodeFixed32 (drop (length contents - 5) contents)) = length ?d"
    using d32 [of "length gs"] unfolding len gs by simp
  have r: "make_FilterBlockReader contents = \<lparr>fbr_data = contents, fbr_offset = length ?d, fbr_num = length gs, fbr_base_lg = 11\<rparr>"
    using len last by (simp add: make_FilterBlockReader_def Let_def) (simp add: gs nth_append)
  have word: "DecodeFixed32 (drop (length ?d + j * 4) contents) = ?ws ! j" if "j \<le> length gs" for j
    unfolding c using that nth_word [of j ?ws "[11]"] by (simp add: mult.commute)
  have at: "unat (?ws ! j) = length (filter_data policy (take j gs))" if "j \<le> length gs" for j
    using that d32 [of j] by (cases "j = length gs") (simp_all add: filter_starts_def nth_append)
  let ?start = "length (filter_data policy (take i gs))" and ?limit = "length (filter_data policy (take (Suc i) gs))"
  have w: "unat (DecodeFixed32 (drop (length ?d + i * 4) contents)) = ?start" "unat (DecodeFixed32 (drop (length ?d + i * 4 + 4) contents)) = ?limit"
    using i word [of i] word [of "Suc i"] at [of i] at [of "Suc i"] by (simp_all add: ac_simps)
  have le: "?start \<le> ?limit" "?limit \<le> length ?d"
    using filter_data_take [of "take (Suc i) gs" i] filter_data_mono [of "Suc i" gs] by (auto simp: min_def)
  obtain ext where ext: "?d = filter_data policy (take (Suc i) gs) @ ext" using filter_data_take by blast
  have "take (?limit - ?start) (drop ?start contents) = drop ?start (filter_data policy (take (Suc i) gs))"
    using le unfolding c ext by simp
  then show ?thesis
    using filter_group [OF i(1) k] r i w le by (simp add: Filter_KeyMayMatch_def Let_def)
qed

lemma Finish_finds:
  assumes "fbb_ok policy b ps i" and "(unat off, k) \<in> ps" and "length (fst (FilterBlock_Finish policy b)) < 2 ^ 32"
  shows "Filter_KeyMayMatch policy (make_FilterBlockReader (fst (FilterBlock_Finish policy b))) off k = Some True"
proof -
  obtain gs where gs: "fst (FilterBlock_Finish policy b) = filter_data policy gs @ concat (map EncodeFixed32 (filter_starts policy gs)) @
      EncodeFixed32 (size32 (filter_data policy gs)) @ [11]"
    "\<forall>(off, k) \<in> ps. off div kFilterBase < length gs \<and> k \<in> set (gs ! (off div kFilterBase))"
    using Finish_shape [OF assms(1)] by blast
  have "unat (drop_bit 11 off) = unat off div kFilterBase" by (simp add: unat_drop_bit_div kFilterBase_def kFilterBaseLg_def)
  then show ?thesis using reader_finds [OF gs(1) assms(3)] gs(2) assms(2) by auto
qed

end

section \<open>Properties\<close>

text \<open>The calls the builder is made for: the start of a block, then its keys.\<close>

fun add_filter_blocks :: "FilterPolicy \<Rightarrow> (nat \<times> bytes list) list \<Rightarrow> FilterBlockBuilder \<Rightarrow> FilterBlockBuilder" where
  "add_filter_blocks policy [] b = b"
| "add_filter_blocks policy ((off, ks) # blocks) b =
     add_filter_blocks policy blocks (foldl (\<lambda>b k. AddKey k b) (StartBlock policy off b) ks)"

lemma AddKeys_ok:
  "fbb_ok policy b ps (off div kFilterBase) \<Longrightarrow>
   fbb_ok policy (foldl (\<lambda>b k. AddKey k b) b ks) (ps \<union> {off} \<times> set ks) (off div kFilterBase)"
proof (induction ks arbitrary: b ps)
  case (Cons k ks)
  from Cons.IH [OF AddKey_ok [OF Cons.prems refl, of k]] show ?case by (simp add: insert_Times_insert)
qed simp

lemma add_filter_blocks_ok:
  "fbb_ok policy b ps i \<Longrightarrow> sorted (map fst blocks) \<Longrightarrow> (\<forall>(off, ks) \<in> set blocks. i \<le> off div kFilterBase) \<Longrightarrow>
   \<exists>j. fbb_ok policy (add_filter_blocks policy blocks b) (ps \<union> {(off, k). \<exists>ks. (off, ks) \<in> set blocks \<and> k \<in> set ks}) j"
proof (induction policy blocks b arbitrary: ps i rule: add_filter_blocks.induct)
  case (2 policy off ks blocks b)
  have "fbb_ok policy (StartBlock policy off b) ps (off div kFilterBase)" using 2(2,4) by (intro StartBlock_ok) auto
  from AddKeys_ok [OF this, of ks] 2(3)
  have "\<exists>j. fbb_ok policy (add_filter_blocks policy blocks (foldl (\<lambda>b k. AddKey k b) (StartBlock policy off b) ks))
      ((ps \<union> {off} \<times> set ks) \<union> {(off, k). \<exists>ks. (off, ks) \<in> set blocks \<and> k \<in> set ks}) j"
    by (intro 2(1)) (force intro: div_le_mono)+
  moreover have "(ps \<union> {off} \<times> set ks) \<union> {(off, k). \<exists>ks. (off, ks) \<in> set blocks \<and> k \<in> set ks} =
      ps \<union> {(o', k). \<exists>ks'. (o', ks') \<in> set ((off, ks) # blocks) \<and> k \<in> set ks'}" by auto
  ultimately show ?case by simp
qed auto


lemma small_filter_block:
  "length (fst (FilterBlock_Finish (NewBloomFilterPolicy 10)
     (add_filter_blocks (NewBloomFilterPolicy 10) [(0, [[1], [2, 3]]), (5000, [[4]])] make_FilterBlockBuilder))) < 2 ^ 32"
  by (simp add: make_FilterBlockBuilder_def StartBlock_def kFilterBase_def kFilterBaseLg_def StartBlock_loop.simps GenerateFilter_def
      AddKey_def FilterBlock_Finish_def Let_def NewBloomFilterPolicy_def Bloom_CreateFilter_def make_BloomFilterPolicy_def PutFixed32_def
      upt_rec)


end
