(* ===== verification/Two_Level.thy ===== *)
theory Two_Level
  imports Block
begin

text \<open>
  The two-level iterator (table/two_level_iterator.cc): an index iterator whose values are handles, and
  an iterator over the data that the block function opens for a handle. The block function with its
  argument and options is a function from handles to iterators. If the index is a cursor, every handle
  opens a cursor, and the index keys separate the data, the iterator is a cursor over the concatenation
  of the data.
\<close>

section \<open>The iterator\<close>

record ('i, 'd) TwoLevelIterator =
  tl_block_function :: "bytes \<Rightarrow> 'd"
  tl_status :: status
  tl_index :: "'i IteratorWrapper"
  tl_data :: "'d IteratorWrapper"
  tl_handle :: bytes

definition NewTwoLevelIterator :: "'i Iterator \<Rightarrow> 'd Iterator \<Rightarrow> 'i \<Rightarrow> (bytes \<Rightarrow> 'd) \<Rightarrow> ('i, 'd) TwoLevelIterator" where
  "NewTwoLevelIterator iops dops index_iter block_function =
     \<lparr>tl_block_function = block_function, tl_status = OK,
      tl_index = IW_Set iops (Some index_iter) make_IteratorWrapper, tl_data = IW_Set dops None make_IteratorWrapper,
      tl_handle = []\<rparr>"

definition TL_Valid :: "('i, 'd) TwoLevelIterator \<Rightarrow> bool" where
  "TL_Valid t = iw_valid (tl_data t)"

definition TL_key :: "('i, 'd) TwoLevelIterator \<Rightarrow> bytes" where
  "TL_key t = iw_key (tl_data t)"

definition TL_value :: "'d Iterator \<Rightarrow> ('i, 'd) TwoLevelIterator \<Rightarrow> bytes" where
  "TL_value dops t = IW_value dops (tl_data t)"

definition TL_iterator_status :: "'i Iterator \<Rightarrow> 'd Iterator \<Rightarrow> ('i, 'd) TwoLevelIterator \<Rightarrow> status" where
  "TL_iterator_status iops dops t =
     (if \<not> status_ok (IW_status iops (tl_index t)) then IW_status iops (tl_index t)
      else if iw_iter (tl_data t) \<noteq> None \<and> \<not> status_ok (IW_status dops (tl_data t)) then IW_status dops (tl_data t)
      else tl_status t)"

definition TL_SaveError :: "status \<Rightarrow> ('i, 'd) TwoLevelIterator \<Rightarrow> ('i, 'd) TwoLevelIterator" where
  "TL_SaveError s t = (if status_ok (tl_status t) \<and> \<not> status_ok s then t\<lparr>tl_status := s\<rparr> else t)"

definition TL_SetDataIterator :: "'d Iterator \<Rightarrow> 'd option \<Rightarrow> ('i, 'd) TwoLevelIterator \<Rightarrow> ('i, 'd) TwoLevelIterator" where
  "TL_SetDataIterator dops p t =
     (let t = (if iw_iter (tl_data t) \<noteq> None then TL_SaveError (IW_status dops (tl_data t)) t else t)
      in t\<lparr>tl_data := IW_Set dops p (tl_data t)\<rparr>)"

definition TL_InitDataBlock :: "'i Iterator \<Rightarrow> 'd Iterator \<Rightarrow> ('i, 'd) TwoLevelIterator \<Rightarrow> ('i, 'd) TwoLevelIterator" where
  "TL_InitDataBlock iops dops t =
     (if \<not> iw_valid (tl_index t) then TL_SetDataIterator dops None t
      else let handle = IW_value iops (tl_index t) in
           if iw_iter (tl_data t) \<noteq> None \<and> Slice_compare handle (tl_handle t) = 0 then t
           else let it = tl_block_function t handle in TL_SetDataIterator dops (Some it) (t\<lparr>tl_handle := handle\<rparr>))"

text \<open>A move of the data iterator if there is one, and a move of the index iterator.\<close>

definition TL_data_move :: "'d Iterator \<Rightarrow> ('d \<Rightarrow> 'd option) \<Rightarrow> ('i, 'd) TwoLevelIterator \<Rightarrow> ('i, 'd) TwoLevelIterator option" where
  "TL_data_move dops f t =
     (if iw_iter (tl_data t) \<noteq> None then map_option (\<lambda>w. t\<lparr>tl_data := w\<rparr>) (IW_move dops f (tl_data t)) else Some t)"

definition TL_index_move :: "'i Iterator \<Rightarrow> ('i \<Rightarrow> 'i option) \<Rightarrow> ('i, 'd) TwoLevelIterator \<Rightarrow> ('i, 'd) TwoLevelIterator option" where
  "TL_index_move iops f t = map_option (\<lambda>w. t\<lparr>tl_index := w\<rparr>) (IW_move iops f (tl_index t))"

text \<open>The index moves, the block under it is opened, and the data iterator moves.\<close>

definition TL_move_both ::
  "'i Iterator \<Rightarrow> 'd Iterator \<Rightarrow> ('i \<Rightarrow> 'i option) \<Rightarrow> ('d \<Rightarrow> 'd option) \<Rightarrow> ('i, 'd) TwoLevelIterator \<Rightarrow> ('i, 'd) TwoLevelIterator option" where
  "TL_move_both iops dops f g t =
     (case TL_index_move iops f t of None \<Rightarrow> None | Some t \<Rightarrow> TL_data_move dops g (TL_InitDataBlock iops dops t))"

partial_function (option) TL_SkipEmptyDataBlocksForward ::
  "'i Iterator \<Rightarrow> 'd Iterator \<Rightarrow> ('i, 'd) TwoLevelIterator \<Rightarrow> ('i, 'd) TwoLevelIterator option" where
  "TL_SkipEmptyDataBlocksForward iops dops t =
     (if iw_iter (tl_data t) = None \<or> \<not> iw_valid (tl_data t) then
        (if \<not> iw_valid (tl_index t) then Some (TL_SetDataIterator dops None t)
         else Option.bind (TL_move_both iops dops (It_Next iops) (It_SeekToFirst dops) t)
                (\<lambda>t. TL_SkipEmptyDataBlocksForward iops dops t))
      else Some t)"

partial_function (option) TL_SkipEmptyDataBlocksBackward ::
  "'i Iterator \<Rightarrow> 'd Iterator \<Rightarrow> ('i, 'd) TwoLevelIterator \<Rightarrow> ('i, 'd) TwoLevelIterator option" where
  "TL_SkipEmptyDataBlocksBackward iops dops t =
     (if iw_iter (tl_data t) = None \<or> \<not> iw_valid (tl_data t) then
        (if \<not> iw_valid (tl_index t) then Some (TL_SetDataIterator dops None t)
         else Option.bind (TL_move_both iops dops (It_Prev iops) (It_SeekToLast dops) t)
                (\<lambda>t. TL_SkipEmptyDataBlocksBackward iops dops t))
      else Some t)"

definition TL_Seek ::
  "'i Iterator \<Rightarrow> 'd Iterator \<Rightarrow> bytes \<Rightarrow> ('i, 'd) TwoLevelIterator \<Rightarrow> ('i, 'd) TwoLevelIterator option" where
  "TL_Seek iops dops target t =
     Option.bind (TL_move_both iops dops (It_Seek iops target) (It_Seek dops target) t)
       (TL_SkipEmptyDataBlocksForward iops dops)"

definition TL_SeekToFirst ::
  "'i Iterator \<Rightarrow> 'd Iterator \<Rightarrow> ('i, 'd) TwoLevelIterator \<Rightarrow> ('i, 'd) TwoLevelIterator option" where
  "TL_SeekToFirst iops dops t =
     Option.bind (TL_move_both iops dops (It_SeekToFirst iops) (It_SeekToFirst dops) t)
       (TL_SkipEmptyDataBlocksForward iops dops)"

definition TL_SeekToLast ::
  "'i Iterator \<Rightarrow> 'd Iterator \<Rightarrow> ('i, 'd) TwoLevelIterator \<Rightarrow> ('i, 'd) TwoLevelIterator option" where
  "TL_SeekToLast iops dops t =
     Option.bind (TL_move_both iops dops (It_SeekToLast iops) (It_SeekToLast dops) t)
       (TL_SkipEmptyDataBlocksBackward iops dops)"

definition TL_Next ::
  "'i Iterator \<Rightarrow> 'd Iterator \<Rightarrow> ('i, 'd) TwoLevelIterator \<Rightarrow> ('i, 'd) TwoLevelIterator option" where
  "TL_Next iops dops t =
     Option.bind (map_option (\<lambda>w. t\<lparr>tl_data := w\<rparr>) (IW_move dops (It_Next dops) (tl_data t)))
       (TL_SkipEmptyDataBlocksForward iops dops)"

definition TL_Prev ::
  "'i Iterator \<Rightarrow> 'd Iterator \<Rightarrow> ('i, 'd) TwoLevelIterator \<Rightarrow> ('i, 'd) TwoLevelIterator option" where
  "TL_Prev iops dops t =
     Option.bind (map_option (\<lambda>w. t\<lparr>tl_data := w\<rparr>) (IW_move dops (It_Prev dops) (tl_data t)))
       (TL_SkipEmptyDataBlocksBackward iops dops)"

definition TwoLevelOps :: "'i Iterator \<Rightarrow> 'd Iterator \<Rightarrow> ('i, 'd) TwoLevelIterator Iterator" where
  "TwoLevelOps iops dops =
     \<lparr>It_Valid = TL_Valid, It_SeekToFirst = TL_SeekToFirst iops dops, It_SeekToLast = TL_SeekToLast iops dops,
      It_Seek = TL_Seek iops dops, It_Next = TL_Next iops dops, It_Prev = TL_Prev iops dops, It_key = TL_key,
      It_value = TL_value dops, It_status = TL_iterator_status iops dops\<rparr>"

section \<open>Positions in a concatenation\<close>

definition block_off :: "'e list list \<Rightarrow> nat \<Rightarrow> nat" where
  "block_off bs i = length (concat (take i bs))"

lemma block_off_0 [simp]: "block_off bs 0 = 0"
  by (simp add: block_off_def)

lemma block_off_Suc: "i < length bs \<Longrightarrow> block_off bs (Suc i) = block_off bs i + length (bs ! i)"
  by (simp add: block_off_def take_Suc_conv_app_nth)

lemma block_off_length [simp]: "block_off bs (length bs) = length (concat bs)"
  by (simp add: block_off_def)

lemma concat_split:
  assumes "i < length bs"
  shows "concat bs = concat (take i bs) @ bs ! i @ concat (drop (Suc i) bs)"
  using arg_cong [OF id_take_nth_drop [OF assms], of concat] by simp

lemma concat_nth:
  assumes "i < length bs" and "p < length (bs ! i)"
  shows "block_off bs i + p < length (concat bs)" and "concat bs ! (block_off bs i + p) = bs ! i ! p"
  using assms by (simp_all add: concat_split [OF assms(1)] block_off_def nth_append)

lemma in_concat_nth: "e \<in> set (concat bs) \<longleftrightarrow> (\<exists>j < length bs. e \<in> set (bs ! j))"
  by (metis UN_iff in_set_conv_nth set_concat)

lemma in_concat_take: "i \<le> length bs \<Longrightarrow> e \<in> set (concat (take i bs)) \<longleftrightarrow> (\<exists>j < i. e \<in> set (bs ! j))"
  unfolding in_concat_nth by (auto simp: min_def)

lemma in_concat_drop: "e \<in> set (concat (drop i bs)) \<Longrightarrow> \<exists>j < length bs. i \<le> j \<and> e \<in> set (bs ! j)"
  unfolding in_concat_nth by (metis add.commute le_add1 length_drop less_diff_conv nth_drop nat_less_le less_or_eq_imp_le linorder_le_cases drop_all gr_implies_not0 length_0_conv)

text \<open>The index keys separate the blocks.\<close>

definition separates :: "('k \<Rightarrow> 'k \<Rightarrow> int) \<Rightarrow> 'k list \<Rightarrow> ('k \<times> 'v) list list \<Rightarrow> bool" where
  "separates compare ks bs \<longleftrightarrow>
     length ks = length bs \<and>
     (\<forall>i < length bs. (\<forall>e \<in> set (bs ! i). compare (fst e) (ks ! i) \<le> 0) \<and>
        (\<forall>j < length bs. i < j \<longrightarrow> (\<forall>e \<in> set (bs ! j). compare (ks ! i) (fst e) < 0)))"

context three_way
begin

lemma seek_pos_eqI:
  assumes "\<And>e. e \<in> set (take n es) \<Longrightarrow> compare (fst e) k < 0" and "n < length es \<Longrightarrow> \<not> compare (fst (es ! n)) k < 0" and "n \<le> length es"
  shows "seek_pos compare k es = n"
proof -
  let ?p = "\<lambda>e. compare (fst e) k < 0"
  have "takeWhile ?p (take n es @ drop n es) = take n es @ takeWhile ?p (drop n es)"
    by (rule takeWhile_append2) (rule assms(1))
  moreover have "takeWhile ?p (drop n es) = []"
    using assms(2) Cons_nth_drop_Suc [of n es] by (cases "n < length es") (auto simp flip: Cons_nth_drop_Suc)
  ultimately show ?thesis using assms(3) by (simp add: seek_pos_def)
qed

lemma seek_concat:
  assumes ok: "\<And>e. e \<in> set (concat bs) \<Longrightarrow> key_ok (fst e)" "\<And>j. j < length ks \<Longrightarrow> key_ok (ks ! j)" "key_ok k"
    and sep: "separates compare ks bs"
    and i: "i < length bs" "\<And>j. j < i \<Longrightarrow> compare (ks ! j) k < 0" "\<not> compare (ks ! i) k < 0"
  shows "seek_pos compare k (concat bs) = block_off bs i + seek_pos compare k (bs ! i)"
proof (rule seek_pos_eqI)
  let ?p = "seek_pos compare k (bs ! i)"
  note split = concat_split [OF i(1)]
  have len: "length ks = length bs" using sep by (simp add: separates_def)
  show "block_off bs i + ?p \<le> length (concat bs)"
    unfolding split using seek_pos_le [of compare k "bs ! i"] by (simp add: block_off_def)
  show "compare (fst e) k < 0" if e: "e \<in> set (take (block_off bs i + ?p) (concat bs))" for e
  proof -
    have "e \<in> set (concat (take i bs)) \<or> e \<in> set (take ?p (bs ! i))"
      using e seek_pos_le [of compare k "bs ! i"] unfolding split block_off_def by auto
    then show ?thesis
    proof
      assume "e \<in> set (concat (take i bs))"
      then obtain j where j: "j < i" "e \<in> set (bs ! j)" using in_concat_take [of i bs e] i(1) by auto
      then have "compare (fst e) (ks ! j) \<le> 0" "e \<in> set (concat bs)" using sep i(1) by (auto simp: separates_def)
      then show ?thesis using compare_le_less_trans [OF ok(1) ok(2) ok(3) _ i(2)] j len i(1) by (metis less_trans)
    next
      assume "e \<in> set (take ?p (bs ! i))"
      then show ?thesis using seek_pos_less [of _ compare k "bs ! i"] by (auto simp: in_set_conv_nth)
    qed
  qed
  show "\<not> compare (fst (concat bs ! (block_off bs i + ?p))) k < 0" if n: "block_off bs i + ?p < length (concat bs)"
  proof (cases "?p < length (bs ! i)")
    case True
    then show ?thesis using concat_nth(2) [OF i(1) True] seek_pos_at [OF True] by simp
  next
    case False
    then have p: "?p = length (bs ! i)" using seek_pos_le [of compare k "bs ! i"] by simp
    have "0 < length (concat (drop (Suc i) bs))" "concat bs ! (block_off bs i + ?p) = concat (drop (Suc i) bs) ! 0"
      using n unfolding split p block_off_def by (simp_all add: nth_append del: length_greater_0_conv)
    then have "concat bs ! (block_off bs i + ?p) \<in> set (concat (drop (Suc i) bs))" by (metis nth_mem)
    then obtain j where j: "i < j" "j < length bs" "concat bs ! (block_off bs i + ?p) \<in> set (bs ! j)"
      using in_concat_drop [of _ "Suc i" bs] Suc_le_lessD by blast
    let ?e = "concat bs ! (block_off bs i + ?p)"
    have "compare (ks ! i) (fst ?e) < 0" using j sep i(1) by (simp add: separates_def)
    moreover have "compare k (ks ! i) \<le> 0" using i(3) compare_flip_le [OF ok(3) ok(2)] i(1) len by simp
    ultimately have "compare k (fst ?e) < 0"
      using compare_le_less_trans [OF ok(3) ok(2) ok(1)] i(1) len nth_mem [OF n] by simp
    then show ?thesis using compare_flip [OF ok(3) ok(1) [OF nth_mem [OF n]]] by linarith
  qed
qed

lemma seek_concat_end:
  assumes ok: "\<And>e. e \<in> set (concat bs) \<Longrightarrow> key_ok (fst e)" "\<And>j. j < length ks \<Longrightarrow> key_ok (ks ! j)" "key_ok k"
    and sep: "separates compare ks bs" and i: "\<And>j. j < length bs \<Longrightarrow> compare (ks ! j) k < 0"
  shows "seek_pos compare k (concat bs) = length (concat bs)"
proof (rule seek_pos_eqI)
  fix e assume e: "e \<in> set (take (length (concat bs)) (concat bs))"
  then obtain j where j: "j < length bs" "e \<in> set (bs ! j)" using in_concat_nth [of e bs] by auto
  then have "compare (fst e) (ks ! j) \<le> 0" using sep by (auto simp: separates_def)
  moreover have "length ks = length bs" using sep by (simp add: separates_def)
  ultimately show "compare (fst e) k < 0" using compare_le_less_trans [OF ok(1) ok(2) ok(3) _ i] j e by auto
qed simp_all

end

section \<open>The two-level iterator is a cursor\<close>

text \<open>Every handle of the index opens a cursor over its contents, and the index keys separate them.\<close>

definition blocks_of :: "(bytes \<Rightarrow> entries) \<Rightarrow> entries \<Rightarrow> entries list" where
  "blocks_of contents idx = map (\<lambda>e. contents (snd e)) idx"

definition two_level_ok ::
  "(bytes \<Rightarrow> bytes \<Rightarrow> int) \<Rightarrow> (bytes \<Rightarrow> bool) \<Rightarrow> ('d \<Rightarrow> entries \<Rightarrow> nat \<Rightarrow> bool) \<Rightarrow> (bytes \<Rightarrow> 'd) \<Rightarrow> (bytes \<Rightarrow> entries) \<Rightarrow> entries \<Rightarrow> bool" where
  "two_level_ok compare key_ok dat block_function contents idx \<longleftrightarrow>
     sorted_entries compare key_ok (concat (blocks_of contents idx)) \<and> separates compare (map fst idx) (blocks_of contents idx) \<and>
     (\<forall>e \<in> set idx. \<exists>p. dat (block_function (snd e)) (contents (snd e)) p)"

text \<open>The data iterator is absent, or it stands in the block of the handle it was opened for.\<close>

definition data_null :: "('i, 'd) TwoLevelIterator \<Rightarrow> bool" where
  "data_null t \<longleftrightarrow> iw_iter (tl_data t) = None \<and> \<not> iw_valid (tl_data t)"

definition data_at ::
  "'d Iterator \<Rightarrow> ('d \<Rightarrow> entries \<Rightarrow> nat \<Rightarrow> bool) \<Rightarrow> (bytes \<Rightarrow> entries) \<Rightarrow> ('i, 'd) TwoLevelIterator \<Rightarrow> bytes \<Rightarrow> nat \<Rightarrow> bool" where
  "data_at dops dat contents t h p \<longleftrightarrow> tl_handle t = h \<and> wrapped_at dops dat (tl_data t) (contents h) p"

definition index_at ::
  "'i Iterator \<Rightarrow> ('i \<Rightarrow> entries \<Rightarrow> nat \<Rightarrow> bool) \<Rightarrow> (bytes \<Rightarrow> 'd) \<Rightarrow> entries \<Rightarrow> ('i, 'd) TwoLevelIterator \<Rightarrow> nat \<Rightarrow> bool" where
  "index_at iops iat block_function idx t i \<longleftrightarrow>
     wrapped_at iops iat (tl_index t) idx i \<and> tl_status t = OK \<and> tl_block_function t = block_function"

text \<open>The state with the index at \<open>i\<close> and the data iterator at \<open>p\<close> of that block, or absent past the index.\<close>

definition loose_at ::
  "'i Iterator \<Rightarrow> 'd Iterator \<Rightarrow> ('i \<Rightarrow> entries \<Rightarrow> nat \<Rightarrow> bool) \<Rightarrow> ('d \<Rightarrow> entries \<Rightarrow> nat \<Rightarrow> bool) \<Rightarrow> (bytes \<Rightarrow> 'd) \<Rightarrow>
     (bytes \<Rightarrow> entries) \<Rightarrow> entries \<Rightarrow> ('i, 'd) TwoLevelIterator \<Rightarrow> nat \<Rightarrow> nat \<Rightarrow> bool" where
  "loose_at iops dops iat dat block_function contents idx t i p \<longleftrightarrow>
     index_at iops iat block_function idx t i \<and>
     (if i < length idx then data_at dops dat contents t (snd (idx ! i)) p else data_null t)"

definition two_at_with ::
  "(bytes \<Rightarrow> bytes \<Rightarrow> int) \<Rightarrow> (bytes \<Rightarrow> bool) \<Rightarrow> 'i Iterator \<Rightarrow> 'd Iterator \<Rightarrow> ('i \<Rightarrow> entries \<Rightarrow> nat \<Rightarrow> bool) \<Rightarrow>
     ('d \<Rightarrow> entries \<Rightarrow> nat \<Rightarrow> bool) \<Rightarrow> (bytes \<Rightarrow> 'd) \<Rightarrow> (bytes \<Rightarrow> entries) \<Rightarrow> entries \<Rightarrow> ('i, 'd) TwoLevelIterator \<Rightarrow> nat \<Rightarrow> bool" where
  "two_at_with compare key_ok iops dops iat dat block_function contents idx t n \<longleftrightarrow>
     two_level_ok compare key_ok dat block_function contents idx \<and>
     ((\<exists>i p. i < length idx \<and> p < length (contents (snd (idx ! i))) \<and> n = block_off (blocks_of contents idx) i + p \<and>
         loose_at iops dops iat dat block_function contents idx t i p) \<or>
      n = length (concat (blocks_of contents idx)) \<and> data_null t \<and> (\<exists>i. index_at iops iat block_function idx t i))"

definition two_at ::
  "(bytes \<Rightarrow> bytes \<Rightarrow> int) \<Rightarrow> (bytes \<Rightarrow> bool) \<Rightarrow> 'i Iterator \<Rightarrow> 'd Iterator \<Rightarrow> ('i \<Rightarrow> entries \<Rightarrow> nat \<Rightarrow> bool) \<Rightarrow>
     ('d \<Rightarrow> entries \<Rightarrow> nat \<Rightarrow> bool) \<Rightarrow> ('i, 'd) TwoLevelIterator \<Rightarrow> entries \<Rightarrow> nat \<Rightarrow> bool" where
  "two_at compare key_ok iops dops iat dat t es n \<longleftrightarrow>
     (\<exists>contents idx. es = concat (blocks_of contents idx) \<and>
        two_at_with compare key_ok iops dops iat dat (tl_block_function t) contents idx t n)"

locale two_cursors = index: cursor compare key_ok iops iat + data: cursor compare key_ok dops dat
  for compare :: "bytes \<Rightarrow> bytes \<Rightarrow> int" and key_ok :: "bytes \<Rightarrow> bool" and iops :: "'i Iterator"
    and iat :: "'i \<Rightarrow> entries \<Rightarrow> nat \<Rightarrow> bool" and dops :: "'d Iterator" and dat :: "'d \<Rightarrow> entries \<Rightarrow> nat \<Rightarrow> bool"
begin

lemma index_wrapped:
  assumes "wrapped_at iops iat w idx i"
  shows "iw_valid w \<longleftrightarrow> i < length idx" and "i < length idx \<Longrightarrow> IW_value iops w = snd (idx ! i)"
    and "IW_status iops w = OK" and "i \<le> length idx" and "sorted_entries compare key_ok idx"
  using assms index.at_valid index.at_value index.at_status index.at_bound index.at_sorted
  by (auto simp: wrapped_at_def IW_value_def IW_status_def)

lemma data_wrapped:
  assumes "wrapped_at dops dat w xs p"
  shows "iw_iter w \<noteq> None" and "iw_valid w \<longleftrightarrow> p < length xs" and "IW_status dops w = OK" and "p \<le> length xs"
    and "p < length xs \<Longrightarrow> iw_key w = fst (xs ! p)" and "p < length xs \<Longrightarrow> IW_value dops w = snd (xs ! p)"
  using assms data.at_valid data.at_value data.at_key data.at_status data.at_bound
  by (auto simp: wrapped_at_def IW_value_def IW_status_def)

lemma SetDataIterator_at:
  assumes "index_at iops iat bf idx t i" and "data_null t \<or> (\<exists>xs p. wrapped_at dops dat (tl_data t) xs p)"
  shows "index_at iops iat bf idx (TL_SetDataIterator dops q t) i" and "data_null (TL_SetDataIterator dops None t)"
    and "tl_handle (TL_SetDataIterator dops q t) = tl_handle t"
    and "dat it ys k \<Longrightarrow> wrapped_at dops dat (tl_data (TL_SetDataIterator dops (Some it) t)) ys k"
  using assms data_wrapped(3)
  by (auto simp: TL_SetDataIterator_def TL_SaveError_def index_at_def data_null_def IW_Set_def Let_def wrapped_at_Update)

lemma InitDataBlock_at:
  assumes ok: "two_level_ok compare key_ok dat bf contents idx" and i: "index_at iops iat bf idx t i"
    and d: "data_null t \<or> (\<exists>h p. data_at dops dat contents t h p)"
  shows "\<exists>p. loose_at iops dops iat dat bf contents idx (TL_InitDataBlock iops dops t) i p"
proof (cases "i < length idx")
  case False
  then have "\<not> iw_valid (tl_index t)" using i index_wrapped(1) by (auto simp: index_at_def)
  then show ?thesis
    using False d SetDataIterator_at(1,2) [OF i] by (auto simp: TL_InitDataBlock_def loose_at_def data_at_def)
next
  case True
  let ?h = "snd (idx ! i)"
  have v: "iw_valid (tl_index t)" "IW_value iops (tl_index t) = ?h"
    using i index_wrapped(1,2) True by (auto simp: index_at_def)
  show ?thesis
  proof (cases "iw_iter (tl_data t) \<noteq> None \<and> tl_handle t = ?h")
    case same: True
    then obtain p where "data_at dops dat contents t ?h p" using d by (auto simp: data_null_def data_at_def)
    then show ?thesis using v same i True by (auto simp: TL_InitDataBlock_def loose_at_def)
  next
    case False
    obtain p where p: "dat (bf ?h) (contents ?h) p" using ok nth_mem [OF True] unfolding two_level_ok_def by blast
    let ?t = "t\<lparr>tl_handle := ?h\<rparr>"
    have "index_at iops iat bf idx ?t i" "tl_block_function t = bf" using i by (auto simp: index_at_def)
    moreover have "data_null ?t \<or> (\<exists>xs p. wrapped_at dops dat (tl_data ?t) xs p)"
      using d by (auto simp: data_null_def data_at_def)
    ultimately have "loose_at iops dops iat dat bf contents idx (TL_SetDataIterator dops (Some (bf ?h)) ?t) i p"
      using True p SetDataIterator_at(1,3,4) [of bf idx ?t i] by (auto simp: loose_at_def data_at_def)
    moreover have "TL_InitDataBlock iops dops t = TL_SetDataIterator dops (Some (bf ?h)) ?t"
      using v False \<open>tl_block_function t = bf\<close> by (auto simp: TL_InitDataBlock_def Let_def)
    ultimately show ?thesis by auto
  qed
qed

lemma data_move_at:
  assumes "loose_at iops dops iat dat bf contents idx t i p"
    and f: "\<forall>it xs k. dat it xs k \<longrightarrow> (\<exists>it'. f it = Some it' \<and> dat it' xs (q xs))"
  shows "\<exists>t'. TL_data_move dops f t = Some t' \<and>
           loose_at iops dops iat dat bf contents idx t' i (q (contents (snd (idx ! i))))"
proof (cases "i < length idx")
  case True
  then have d: "data_at dops dat contents t (snd (idx ! i)) p" using assms(1) by (simp add: loose_at_def)
  then have w: "wrapped_at dops dat (tl_data t) (contents (snd (idx ! i))) p" by (simp add: data_at_def)
  have "\<exists>w'. IW_move dops f (tl_data t) = Some w' \<and> wrapped_at dops dat w' (contents (snd (idx ! i))) (q (contents (snd (idx ! i))))"
    by (rule wrapped_move [where m = "q (contents (snd (idx ! i)))" and at = dat, OF w]) (use f in blast)
  then show ?thesis
    using True d assms(1) data_wrapped(1) [OF w] by (auto simp: TL_data_move_def loose_at_def data_at_def index_at_def)
qed (use assms(1) in \<open>auto simp: TL_data_move_def loose_at_def data_null_def\<close>)

lemma move_both_at:
  assumes ok: "two_level_ok compare key_ok dat bf contents idx" and i: "index_at iops iat bf idx t i"
    and d: "data_null t \<or> (\<exists>h p. data_at dops dat contents t h p)"
    and f: "\<forall>it. iat it idx i \<longrightarrow> (\<exists>it'. f it = Some it' \<and> iat it' idx j)"
    and g: "\<forall>it xs k. dat it xs k \<longrightarrow> (\<exists>it'. g it = Some it' \<and> dat it' xs (q xs))"
  shows "\<exists>t'. TL_move_both iops dops f g t = Some t' \<and>
           loose_at iops dops iat dat bf contents idx t' j (q (contents (snd (idx ! j))))"
proof -
  have "wrapped_at iops iat (tl_index t) idx i" using i by (simp add: index_at_def)
  from wrapped_move [where m = j and f = f, OF this] f
  obtain w where w: "IW_move iops f (tl_index t) = Some w" "wrapped_at iops iat w idx j" by blast
  have "index_at iops iat bf idx (t\<lparr>tl_index := w\<rparr>) j" using w(2) i by (simp add: index_at_def)
  moreover have "data_null (t\<lparr>tl_index := w\<rparr>) \<or> (\<exists>h p. data_at dops dat contents (t\<lparr>tl_index := w\<rparr>) h p)"
    using d by (simp add: data_null_def data_at_def)
  ultimately obtain p where "loose_at iops dops iat dat bf contents idx (TL_InitDataBlock iops dops (t\<lparr>tl_index := w\<rparr>)) j p"
    using InitDataBlock_at [OF ok] by blast
  from data_move_at [OF this g] show ?thesis using w(1) by (simp add: TL_move_both_def TL_index_move_def)
qed

lemma loose_data: "loose_at iops dops iat dat bf contents idx t i p \<Longrightarrow> data_null t \<or> (\<exists>h p. data_at dops dat contents t h p)"
  by (auto simp: loose_at_def split: if_splits)

lemma loose_stop:
  assumes "two_level_ok compare key_ok dat bf contents idx" and "loose_at iops dops iat dat bf contents idx t i p"
  shows "i < length idx \<Longrightarrow> p < length (contents (snd (idx ! i))) \<Longrightarrow> iw_iter (tl_data t) \<noteq> None \<and> iw_valid (tl_data t) \<and>
           two_at_with compare key_ok iops dops iat dat bf contents idx t (block_off (blocks_of contents idx) i + p)"
    and "i < length idx \<Longrightarrow> \<not> p < length (contents (snd (idx ! i))) \<Longrightarrow> p = length (contents (snd (idx ! i))) \<and> \<not> iw_valid (tl_data t)"
    and "iw_valid (tl_index t) \<longleftrightarrow> i < length idx"
    and "\<not> i < length idx \<Longrightarrow> i = length idx \<and> iw_iter (tl_data t) = None \<and>
           two_at_with compare key_ok iops dops iat dat bf contents idx (TL_SetDataIterator dops None t) (length (concat (blocks_of contents idx)))"
proof -
  have w: "wrapped_at iops iat (tl_index t) idx i" using assms(2) by (simp add: loose_at_def index_at_def)
  show "iw_valid (tl_index t) \<longleftrightarrow> i < length idx" by (rule index_wrapped(1) [OF w])
  show "i = length idx \<and> iw_iter (tl_data t) = None \<and>
      two_at_with compare key_ok iops dops iat dat bf contents idx (TL_SetDataIterator dops None t) (length (concat (blocks_of contents idx)))"
    if "\<not> i < length idx"
    using that assms index_wrapped(4) [OF w] SetDataIterator_at(1,2) [of bf idx t i]
    by (auto simp: loose_at_def two_at_with_def data_null_def)
  assume i: "i < length idx"
  then have d: "wrapped_at dops dat (tl_data t) (contents (snd (idx ! i))) p" using assms(2) by (simp add: loose_at_def data_at_def)
  show "p = length (contents (snd (idx ! i))) \<and> \<not> iw_valid (tl_data t)" if "\<not> p < length (contents (snd (idx ! i)))"
    using that data_wrapped(2,4) [OF d] by simp
  show "iw_iter (tl_data t) \<noteq> None \<and> iw_valid (tl_data t) \<and>
      two_at_with compare key_ok iops dops iat dat bf contents idx t (block_off (blocks_of contents idx) i + p)"
    if "p < length (contents (snd (idx ! i)))"
    using that i assms data_wrapped(1,2) [OF d] by (auto simp: two_at_with_def)
qed

lemma skip_forward:
  assumes "two_level_ok compare key_ok dat bf contents idx" and "loose_at iops dops iat dat bf contents idx t i p"
  shows "\<exists>t'. TL_SkipEmptyDataBlocksForward iops dops t = Some t' \<and>
           two_at_with compare key_ok iops dops iat dat bf contents idx t'
             (if i < length idx then block_off (blocks_of contents idx) i + p else length (concat (blocks_of contents idx)))"
  using assms(2)
proof (induction "length idx - i" arbitrary: t i p)
  case 0
  then show ?case using loose_stop(3,4) [OF assms(1) 0(2)] by (subst TL_SkipEmptyDataBlocksForward.simps) auto
next
  case (Suc d)
  note s = loose_stop [OF assms(1) Suc.prems]
  have i: "i < length idx" using Suc.hyps(2) by simp
  show ?case
  proof (cases "p < length (contents (snd (idx ! i)))")
    case True
    then show ?thesis using s(1) [OF i] i by (subst TL_SkipEmptyDataBlocksForward.simps) auto
  next
    case False
    have "index_at iops iat bf idx t i" using Suc.prems by (simp add: loose_at_def)
    then obtain t' where t': "TL_move_both iops dops (It_Next iops) (It_SeekToFirst dops) t = Some t'"
        "loose_at iops dops iat dat bf contents idx t' (Suc i) 0"
      using move_both_at [OF assms(1) _ loose_data [OF Suc.prems], of i "It_Next iops" "Suc i" "It_SeekToFirst dops" "\<lambda>_. 0"]
        index.at_next i data.at_first by blast
    have "block_off (blocks_of contents idx) (Suc i) = block_off (blocks_of contents idx) i + p"
      using i s(2) [OF i False] by (simp add: block_off_Suc blocks_of_def)
    moreover have "block_off (blocks_of contents idx) (length idx) = length (concat (blocks_of contents idx))"
      using block_off_length [of "blocks_of contents idx"] by (simp add: blocks_of_def)
    ultimately show ?thesis
      using Suc.hyps(1) [OF _ t'(2)] Suc.hyps(2) t'(1) s(2) [OF i False] s(3) i
      by (subst TL_SkipEmptyDataBlocksForward.simps) (cases "Suc i < length idx"; simp add: less_Suc_eq not_less_eq)
  qed
qed

lemma skip_backward:
  assumes "two_level_ok compare key_ok dat bf contents idx" and "loose_at iops dops iat dat bf contents idx t i p"
  shows "\<exists>t'. TL_SkipEmptyDataBlocksBackward iops dops t = Some t' \<and>
           two_at_with compare key_ok iops dops iat dat bf contents idx t'
             (if i < length idx \<and> p < length (contents (snd (idx ! i))) then block_off (blocks_of contents idx) i + p
              else if i < length idx \<and> 0 < block_off (blocks_of contents idx) i then block_off (blocks_of contents idx) i - 1
              else length (concat (blocks_of contents idx)))"
  using assms(2)
proof (induction "if i < length idx then Suc i else 0" arbitrary: t i p)
  case 0
  then show ?case
    using loose_stop(3,4) [OF assms(1) 0(2)] by (subst TL_SkipEmptyDataBlocksBackward.simps) (auto split: if_splits)
next
  case (Suc d)
  note s = loose_stop [OF assms(1) Suc.prems]
  have i: "i < length idx" "d = i" using Suc.hyps(2) by (auto split: if_splits)
  show ?case
  proof (cases "p < length (contents (snd (idx ! i)))")
    case True
    then show ?thesis using s(1) [OF i(1)] i by (subst TL_SkipEmptyDataBlocksBackward.simps) auto
  next
    case False
    let ?j = "if i = 0 then length idx else i - 1" and ?len = "\<lambda>j. length (contents (snd (idx ! j)))"
    have "index_at iops iat bf idx t i" using Suc.prems by (simp add: loose_at_def)
    then obtain t' where t': "TL_move_both iops dops (It_Prev iops) (It_SeekToLast dops) t = Some t'"
        "loose_at iops dops iat dat bf contents idx t' ?j (?len ?j - 1)"
      using move_both_at [OF assms(1) _ loose_data [OF Suc.prems], of i "It_Prev iops" ?j "It_SeekToLast dops" "\<lambda>xs. length xs - 1"]
        index.at_prev i data.at_last by blast
    have "TL_SkipEmptyDataBlocksBackward iops dops t = TL_SkipEmptyDataBlocksBackward iops dops t'"
      using s(2) [OF i(1) False] s(3) i t'(1) by (subst TL_SkipEmptyDataBlocksBackward.simps) simp
    moreover have "\<exists>t''. TL_SkipEmptyDataBlocksBackward iops dops t' = Some t'' \<and>
        two_at_with compare key_ok iops dops iat dat bf contents idx t''
          (if 0 < block_off (blocks_of contents idx) i then block_off (blocks_of contents idx) i - 1
           else length (concat (blocks_of contents idx)))"
    proof (cases i)
      case 0
      then show ?thesis using Suc.hyps(1) [OF _ t'(2)] i by simp
    next
      case k: (Suc k)
      then have "loose_at iops dops iat dat bf contents idx t' k (?len k - 1)" using t'(2) by simp
      moreover have "block_off (blocks_of contents idx) i = block_off (blocks_of contents idx) k + ?len k"
        using k i block_off_Suc [of k "blocks_of contents idx"] by (simp add: blocks_of_def)
      ultimately show ?thesis using Suc.hyps(1) [of k t' "?len k - 1"] k i by (cases "?len k") (auto split: if_splits)
    qed
    ultimately show ?thesis using i False by simp
  qed
qed

lemma two_at_cases:
  assumes "two_at_with compare key_ok iops dops iat dat bf contents idx t n"
  obtains i where "index_at iops iat bf idx t i" and "data_null t \<or> (\<exists>h p. data_at dops dat contents t h p)"
    and "two_level_ok compare key_ok dat bf contents idx"
  using assms by (auto simp: two_at_with_def loose_at_def split: if_splits)

lemma two_at_current:
  assumes "two_at_with compare key_ok iops dops iat dat bf contents idx t n" and "n < length (concat (blocks_of contents idx))"
  obtains i p where "i < length idx" and "p < length (contents (snd (idx ! i)))" and "n = block_off (blocks_of contents idx) i + p"
    and "loose_at iops dops iat dat bf contents idx t i p" and "wrapped_at dops dat (tl_data t) (contents (snd (idx ! i))) p"
    and "concat (blocks_of contents idx) ! n = contents (snd (idx ! i)) ! p"
proof -
  obtain i p where i: "i < length idx" "p < length (contents (snd (idx ! i)))" "n = block_off (blocks_of contents idx) i + p"
      "loose_at iops dops iat dat bf contents idx t i p"
    using assms by (auto simp: two_at_with_def)
  then have "concat (blocks_of contents idx) ! n = contents (snd (idx ! i)) ! p"
    using concat_nth(2) [of i "blocks_of contents idx" p] by (simp add: blocks_of_def)
  then show thesis using that i by (auto simp: loose_at_def data_at_def)
qed

lemma two_seek:
  assumes t: "two_at_with compare key_ok iops dops iat dat bf contents idx t n" and k: "key_ok k"
  shows "\<exists>t'. TL_Seek iops dops k t = Some t' \<and>
    two_at_with compare key_ok iops dops iat dat bf contents idx t' (seek_pos compare k (concat (blocks_of contents idx)))"
proof -
  let ?bs = "blocks_of contents idx" and ?j = "seek_pos compare k idx"
  obtain i where i: "index_at iops iat bf idx t i" "data_null t \<or> (\<exists>h p. data_at dops dat contents t h p)"
      "two_level_ok compare key_ok dat bf contents idx"
    by (rule two_at_cases [OF t])
  have sorted: "sorted_entries compare key_ok idx" "sorted_entries compare key_ok (concat ?bs)" "separates compare (map fst idx) ?bs"
    using i index_wrapped(5) by (auto simp: index_at_def two_level_ok_def)
  obtain t' where t': "TL_move_both iops dops (It_Seek iops k) (It_Seek dops k) t = Some t'"
      "loose_at iops dops iat dat bf contents idx t' ?j (seek_pos compare k (contents (snd (idx ! ?j))))"
    using move_both_at [OF i(3,1,2), of "It_Seek iops k" ?j "It_Seek dops k" "seek_pos compare k"] index.at_seek [OF _ k] data.at_seek [OF _ k]
    by blast
  have ok: "key_ok (fst e)" if "e \<in> set (concat ?bs)" for e using sorted(2) that unfolding sorted_entries_def by blast
  have iok: "key_ok (map fst idx ! j)" if "j < length (map fst idx)" for j
    using index.sorted_entries_ok [OF sorted(1)] that by simp
  have less: "compare (map fst idx ! j) k < 0" if "j < ?j" for j
    using that seek_pos_less [OF that] seek_pos_le [of compare k idx] by simp
  have "seek_pos compare k (concat ?bs) =
      (if ?j < length idx then block_off ?bs ?j + seek_pos compare k (contents (snd (idx ! ?j))) else length (concat ?bs))"
  proof (cases "?j < length idx")
    case True
    then show ?thesis
      using index.seek_concat [OF ok iok k sorted(3) _ less] seek_pos_at [OF True] by (simp add: blocks_of_def)
  next
    case False
    then have "?j = length idx" using seek_pos_le [of compare k idx] by simp
    then show ?thesis using index.seek_concat_end [OF ok iok k sorted(3) less] by (simp add: blocks_of_def)
  qed
  then show ?thesis using skip_forward [OF i(3) t'(2)] t'(1) by (simp add: TL_Seek_def)
qed

lemma two_first:
  assumes t: "two_at_with compare key_ok iops dops iat dat bf contents idx t n"
  shows "\<exists>t'. TL_SeekToFirst iops dops t = Some t' \<and> two_at_with compare key_ok iops dops iat dat bf contents idx t' 0"
proof -
  obtain i where i: "index_at iops iat bf idx t i" "data_null t \<or> (\<exists>h p. data_at dops dat contents t h p)"
      "two_level_ok compare key_ok dat bf contents idx"
    by (rule two_at_cases [OF t])
  obtain t' where t': "TL_move_both iops dops (It_SeekToFirst iops) (It_SeekToFirst dops) t = Some t'"
      "loose_at iops dops iat dat bf contents idx t' 0 0"
    using move_both_at [OF i(3,1,2), of "It_SeekToFirst iops" 0 "It_SeekToFirst dops" "\<lambda>_. 0"] index.at_first data.at_first by blast
  then show ?thesis using skip_forward [OF i(3) t'(2)] by (cases idx) (auto simp: TL_SeekToFirst_def blocks_of_def)
qed

lemma two_last:
  assumes t: "two_at_with compare key_ok iops dops iat dat bf contents idx t n"
  shows "\<exists>t'. TL_SeekToLast iops dops t = Some t' \<and>
    two_at_with compare key_ok iops dops iat dat bf contents idx t' (length (concat (blocks_of contents idx)) - 1)"
proof -
  let ?bs = "blocks_of contents idx" and ?j = "length idx - 1"
  let ?len = "length (contents (snd (idx ! ?j)))"
  obtain i where i: "index_at iops iat bf idx t i" "data_null t \<or> (\<exists>h p. data_at dops dat contents t h p)"
      "two_level_ok compare key_ok dat bf contents idx"
    by (rule two_at_cases [OF t])
  obtain t' where t': "TL_move_both iops dops (It_SeekToLast iops) (It_SeekToLast dops) t = Some t'"
      "loose_at iops dops iat dat bf contents idx t' ?j (?len - 1)"
    using move_both_at [OF i(3,1,2), of "It_SeekToLast iops" ?j "It_SeekToLast dops" "\<lambda>xs. length xs - 1"] index.at_last data.at_last by blast
  have "length (concat ?bs) = block_off ?bs ?j + ?len" if "idx \<noteq> []"
  proof -
    have j: "?j < length ?bs" "Suc ?j = length ?bs" using that by (simp_all add: blocks_of_def)
    have "block_off ?bs (Suc ?j) = block_off ?bs ?j + length (?bs ! ?j)" by (rule block_off_Suc [OF j(1)])
    then show ?thesis using j block_off_length [of ?bs] that by (simp add: blocks_of_def)
  qed
  then show ?thesis
    using skip_backward [OF i(3) t'(2)] t'(1)
    by (cases "idx = []"; cases ?len) (auto simp: TL_SeekToLast_def blocks_of_def split: if_splits)
qed

lemma two_next:
  assumes t: "two_at_with compare key_ok iops dops iat dat bf contents idx t n" and n: "n < length (concat (blocks_of contents idx))"
  shows "\<exists>t'. TL_Next iops dops t = Some t' \<and> two_at_with compare key_ok iops dops iat dat bf contents idx t' (Suc n)"
proof -
  have ok: "two_level_ok compare key_ok dat bf contents idx" using t by (simp add: two_at_with_def)
  obtain i p where i: "i < length idx" "p < length (contents (snd (idx ! i)))" "n = block_off (blocks_of contents idx) i + p"
      "loose_at iops dops iat dat bf contents idx t i p" "wrapped_at dops dat (tl_data t) (contents (snd (idx ! i))) p"
    by (rule two_at_current [OF t n])
  obtain w where w: "IW_move dops (It_Next dops) (tl_data t) = Some w" "wrapped_at dops dat w (contents (snd (idx ! i))) (Suc p)"
    using wrapped_move [where m = "Suc p" and f = "It_Next dops", OF i(5)] data.at_next i(2) by blast
  have "loose_at iops dops iat dat bf contents idx (t\<lparr>tl_data := w\<rparr>) i (Suc p)"
    using i(1,4) w(2) by (simp add: loose_at_def index_at_def data_at_def)
  from skip_forward [OF ok this] show ?thesis using i(1,3) w(1) by (simp add: TL_Next_def)
qed

lemma two_prev:
  assumes t: "two_at_with compare key_ok iops dops iat dat bf contents idx t n" and n: "n < length (concat (blocks_of contents idx))"
  shows "\<exists>t'. TL_Prev iops dops t = Some t' \<and> two_at_with compare key_ok iops dops iat dat bf contents idx t'
           (if n = 0 then length (concat (blocks_of contents idx)) else n - 1)"
proof -
  have ok: "two_level_ok compare key_ok dat bf contents idx" using t by (simp add: two_at_with_def)
  obtain i p where i: "i < length idx" "p < length (contents (snd (idx ! i)))" "n = block_off (blocks_of contents idx) i + p"
      "loose_at iops dops iat dat bf contents idx t i p" "wrapped_at dops dat (tl_data t) (contents (snd (idx ! i))) p"
    by (rule two_at_current [OF t n])
  let ?q = "if p = 0 then length (contents (snd (idx ! i))) else p - 1"
  obtain w where w: "IW_move dops (It_Prev dops) (tl_data t) = Some w" "wrapped_at dops dat w (contents (snd (idx ! i))) ?q"
    using wrapped_move [where m = ?q and f = "It_Prev dops", OF i(5)] data.at_prev i(2) by blast
  have "loose_at iops dops iat dat bf contents idx (t\<lparr>tl_data := w\<rparr>) i ?q"
    using i(1,4) w(2) by (simp add: loose_at_def index_at_def data_at_def)
  from skip_backward [OF ok this] show ?thesis using i(1-3) w(1) by (cases p) (auto simp: TL_Prev_def split: if_splits)
qed

lemma two_status:
  assumes "two_at_with compare key_ok iops dops iat dat bf contents idx t n"
  shows "TL_iterator_status iops dops t = OK"
proof -
  obtain i where i: "index_at iops iat bf idx t i" "data_null t \<or> (\<exists>h p. data_at dops dat contents t h p)"
    by (rule two_at_cases [OF assms])
  then show ?thesis
    using index_wrapped(3) data_wrapped(3) by (auto simp: TL_iterator_status_def index_at_def data_null_def data_at_def)
qed

lemma two_valid:
  assumes "two_at_with compare key_ok iops dops iat dat bf contents idx t n"
  shows "n \<le> length (concat (blocks_of contents idx))" and "TL_Valid t \<longleftrightarrow> n < length (concat (blocks_of contents idx))"
    and "tl_block_function t = bf"
proof -
  show "tl_block_function t = bf" using assms by (auto simp: two_at_with_def loose_at_def index_at_def)
  consider i p where "i < length idx" "p < length (contents (snd (idx ! i)))" "n = block_off (blocks_of contents idx) i + p"
      "loose_at iops dops iat dat bf contents idx t i p"
    | "n = length (concat (blocks_of contents idx))" "data_null t"
    using assms by (auto simp: two_at_with_def)
  then have "n \<le> length (concat (blocks_of contents idx)) \<and> (TL_Valid t \<longleftrightarrow> n < length (concat (blocks_of contents idx)))"
  proof cases
    case 1
    then have "n < length (concat (blocks_of contents idx))" using concat_nth(1) [of i "blocks_of contents idx" p] by (simp add: blocks_of_def)
    moreover have "TL_Valid t" using 1 data_wrapped(2) by (auto simp: loose_at_def data_at_def TL_Valid_def)
    ultimately show ?thesis by simp
  qed (simp add: data_null_def TL_Valid_def)
  then show "n \<le> length (concat (blocks_of contents idx))" "TL_Valid t \<longleftrightarrow> n < length (concat (blocks_of contents idx))"
    by simp_all
qed

lemma two_level_cursor: "cursor compare key_ok (TwoLevelOps iops dops) (two_at compare key_ok iops dops iat dat)"
proof
  fix t es n assume "two_at compare key_ok iops dops iat dat t es n"
  then obtain contents idx where es: "es = concat (blocks_of contents idx)"
    and t: "two_at_with compare key_ok iops dops iat dat (tl_block_function t) contents idx t n"
    by (auto simp: two_at_def)
  have keep: "\<exists>t'. r = Some t' \<and> two_at compare key_ok iops dops iat dat t' es k"
    if "\<exists>t'. r = Some t' \<and> two_at_with compare key_ok iops dops iat dat (tl_block_function t) contents idx t' k" for r k
    using that es two_valid(3) unfolding two_at_def by metis
  show "n \<le> length es" "It_Valid (TwoLevelOps iops dops) t \<longleftrightarrow> n < length es"
    using two_valid [OF t] es by (simp_all add: TwoLevelOps_def)
  show "sorted_entries compare key_ok es" using t es by (auto simp: two_at_with_def two_level_ok_def)
  show "It_status (TwoLevelOps iops dops) t = OK" using two_status [OF t] by (simp add: TwoLevelOps_def)
  show "\<exists>t'. It_SeekToFirst (TwoLevelOps iops dops) t = Some t' \<and> two_at compare key_ok iops dops iat dat t' es 0"
    using keep [OF two_first [OF t]] by (simp add: TwoLevelOps_def)
  show "\<exists>t'. It_SeekToLast (TwoLevelOps iops dops) t = Some t' \<and> two_at compare key_ok iops dops iat dat t' es (length es - 1)"
    using keep [OF two_last [OF t]] es by (simp add: TwoLevelOps_def)
  show "\<exists>t'. It_Seek (TwoLevelOps iops dops) k t = Some t' \<and> two_at compare key_ok iops dops iat dat t' es (seek_pos compare k es)"
    if "key_ok k" for k
    using keep [OF two_seek [OF t that]] es by (simp add: TwoLevelOps_def)
  assume n: "n < length es"
  show "It_key (TwoLevelOps iops dops) t = fst (es ! n)" "It_value (TwoLevelOps iops dops) t = snd (es ! n)"
    by (rule two_at_current [OF t n [unfolded es]]; simp add: TwoLevelOps_def TL_key_def TL_value_def data_wrapped(5,6) es)+
  show "\<exists>t'. It_Next (TwoLevelOps iops dops) t = Some t' \<and> two_at compare key_ok iops dops iat dat t' es (Suc n)"
    using keep [OF two_next [OF t n [unfolded es]]] by (simp add: TwoLevelOps_def)
  show "\<exists>t'. It_Prev (TwoLevelOps iops dops) t = Some t' \<and>
      two_at compare key_ok iops dops iat dat t' es (if n = 0 then length es else n - 1)"
    using keep [OF two_prev [OF t n [unfolded es]]] unfolding TwoLevelOps_def Iterator.simps es .
qed

lemma NewTwoLevelIterator_at:
  assumes "two_level_ok compare key_ok dat bf contents idx" and "iat it idx i"
  shows "two_at compare key_ok iops dops iat dat (NewTwoLevelIterator iops dops it bf)
    (concat (blocks_of contents idx)) (length (concat (blocks_of contents idx)))"
proof -
  let ?t = "NewTwoLevelIterator iops dops it bf"
  have "index_at iops iat bf idx ?t i" "data_null ?t" "tl_block_function ?t = bf"
    using assms(2) by (simp_all add: NewTwoLevelIterator_def index_at_def data_null_def IW_Set_def make_IteratorWrapper_def wrapped_at_Update)
  then show ?thesis using assms(1) unfolding two_at_def two_at_with_def by auto
qed

end

text \<open>A table: an index block whose values open data blocks.\<close>

interpretation internal_blocks: two_cursors "Compare (InternalKeyComparator BytewiseComparator)" "internal_key_ok (\<lambda>_. True)"
    "BlockIterOps (InternalKeyComparator BytewiseComparator)"
    "block_at (InternalKeyComparator BytewiseComparator) (internal_key_ok (\<lambda>_. True))"
    "BlockIterOps (InternalKeyComparator BytewiseComparator)"
    "block_at (InternalKeyComparator BytewiseComparator) (internal_key_ok (\<lambda>_. True))"
  ..

end
