(* ===== verification/Table_Builder.thy ===== *)
theory Table_Builder
  imports Options Filter_Block Two_Level
begin

text \<open>
  Writing a table (table/table_builder.cc): data blocks, the index of their handles, the range
  deletions, the filter block, the metaindex block and the footer. The file is any \<^verbatim>\<open>WritableFile\<close>.
  The assertions of the code are not modelled: they are compiled away in a release build.
\<close>

section \<open>The builder\<close>

text \<open>The filter block builder keeps the policy it was made with.\<close>

record 'f TableBuilder =
  tb_options :: Options
  tb_index_block_options :: Options
  tb_file :: 'f
  tb_offset :: u64
  tb_status :: status
  tb_data_block :: BlockBuilder
  tb_index_block :: BlockBuilder
  tb_range_del_block :: BlockBuilder
  tb_last_key :: bytes
  tb_num_entries :: nat
  tb_closed :: bool
  tb_filter_block :: "(FilterPolicy \<times> FilterBlockBuilder) option"
  tb_pending_index_entry :: bool
  tb_pending_handle :: BlockHandle

definition make_TableBuilder :: "Options \<Rightarrow> 'f \<Rightarrow> 'f TableBuilder" where
  "make_TableBuilder options file =
     \<lparr>tb_options = options, tb_index_block_options = options\<lparr>opt_block_restart_interval := 1\<rparr>, tb_file = file,
      tb_offset = 0, tb_status = OK, tb_data_block = make_BlockBuilder, tb_index_block = make_BlockBuilder,
      tb_range_del_block = make_BlockBuilder, tb_last_key = [], tb_num_entries = 0, tb_closed = False,
      tb_filter_block = map_option (\<lambda>policy. (policy, StartBlock policy 0 make_FilterBlockBuilder)) (opt_filter_policy options),
      tb_pending_index_entry = False, tb_pending_handle = make_BlockHandle\<rparr>"

text \<open>The comparators are compared by their address; the model compares them by their name.\<close>

definition TB_ChangeOptions :: "Options \<Rightarrow> 'f TableBuilder \<Rightarrow> status \<times> 'f TableBuilder" where
  "TB_ChangeOptions options r =
     (if Name (opt_comparator options) \<noteq> Name (opt_comparator (tb_options r))
      then (InvalidArgument ''changing comparator while building table'', r)
      else (OK, r\<lparr>tb_options := options, tb_index_block_options := options\<lparr>opt_block_restart_interval := 1\<rparr>\<rparr>))"

definition WriteRawBlock ::
  "'f WritableFile \<Rightarrow> bytes \<Rightarrow> CompressionType \<Rightarrow> 'f TableBuilder \<Rightarrow> BlockHandle \<times> 'f TableBuilder" where
  "WriteRawBlock wops block_contents t r =
     (let handle = \<lparr>bh_offset = tb_offset r, bh_size = word_of_nat (length block_contents)\<rparr> in
      case WAppend wops (tb_file r) block_contents of
        (s, file) \<Rightarrow>
          let r = r\<lparr>tb_status := s, tb_file := file\<rparr> in
          if \<not> status_ok s then (handle, r)
          else
            let crc = Value block_contents;
                crc = Extend crc [compression_byte t];
                trailer = [compression_byte t] @ EncodeFixed32 (Mask crc)
            in case WAppend wops (tb_file r) trailer of
                 (s, file) \<Rightarrow>
                   let r = r\<lparr>tb_status := s, tb_file := file\<rparr> in
                   if \<not> status_ok s then (handle, r)
                   else (handle, r\<lparr>tb_offset := tb_offset r + word_of_nat (length block_contents + kBlockTrailerSize)\<rparr>))"

text \<open>The contents of a block as they are stored, with their type.\<close>

definition compress_block :: "port \<Rightarrow> Options \<Rightarrow> bytes \<Rightarrow> bytes \<times> CompressionType" where
  "compress_block prt options raw =
     (let worthwhile = \<lambda>compressed. length compressed < length raw - length raw div 8 in
      case opt_compression options of
        kNoCompression \<Rightarrow> (raw, kNoCompression)
      | kSnappyCompression \<Rightarrow>
          (case Snappy_Compress prt raw of
             Some compressed \<Rightarrow> if worthwhile compressed then (compressed, kSnappyCompression) else (raw, kNoCompression)
           | None \<Rightarrow> (raw, kNoCompression))
      | kZstdCompression \<Rightarrow>
          (case Zstd_Compress prt (opt_zstd_compression_level options) raw of
             Some compressed \<Rightarrow> if worthwhile compressed then (compressed, kZstdCompression) else (raw, kNoCompression)
           | None \<Rightarrow> (raw, kNoCompression)))"

text \<open>The block is written and reset.\<close>

definition WriteBlock ::
  "port \<Rightarrow> 'f WritableFile \<Rightarrow> BlockBuilder \<Rightarrow> 'f TableBuilder \<Rightarrow> BlockHandle \<times> BlockBuilder \<times> 'f TableBuilder" where
  "WriteBlock prt wops block r =
     (case BlockBuilder_Finish block of
        (raw, block) \<Rightarrow>
          (case compress_block prt (tb_options r) raw of
             (block_contents, t) \<Rightarrow>
               (case WriteRawBlock wops block_contents t r of (handle, r) \<Rightarrow> (handle, BlockBuilder_Reset block, r))))"

definition TB_Flush :: "port \<Rightarrow> 'f WritableFile \<Rightarrow> 'f TableBuilder \<Rightarrow> 'f TableBuilder" where
  "TB_Flush prt wops r =
     (if \<not> status_ok (tb_status r) then r
      else if BlockBuilder_empty (tb_data_block r) then r
      else
        (case WriteBlock prt wops (tb_data_block r) r of
           (handle, block, r) \<Rightarrow>
             let r = r\<lparr>tb_pending_handle := handle, tb_data_block := block\<rparr>;
                 r = (if status_ok (tb_status r)
                      then (case WFlush wops (tb_file r) of
                              (s, file) \<Rightarrow> r\<lparr>tb_pending_index_entry := True, tb_status := s, tb_file := file\<rparr>)
                      else r)
             in r\<lparr>tb_filter_block :=
                    map_option (\<lambda>(policy, b). (policy, StartBlock policy (unat (tb_offset r)) b)) (tb_filter_block r)\<rparr>))"

text \<open>The type in the tag of an internal key.\<close>

definition is_range_deletion :: "bytes \<Rightarrow> bool" where
  "is_range_deletion key \<longleftrightarrow>
     8 \<le> length key \<and> DecodeFixed64 (drop (length key - 8) key) AND 0xff = word_of_nat (ValueType_code kTypeRangeDeletion)"

definition add_index_entry :: "bytes \<Rightarrow> 'f TableBuilder \<Rightarrow> 'f TableBuilder" where
  "add_index_entry key r =
     r\<lparr>tb_last_key := key,
       tb_index_block := BlockBuilder_Add (opt_block_restart_interval (tb_index_block_options r)) key
         (BlockHandle_EncodeTo (tb_pending_handle r) []) (tb_index_block r),
       tb_pending_index_entry := False\<rparr>"

definition TB_Add :: "port \<Rightarrow> 'f WritableFile \<Rightarrow> bytes \<Rightarrow> bytes \<Rightarrow> 'f TableBuilder \<Rightarrow> 'f TableBuilder" where
  "TB_Add prt wops key value r =
     (if \<not> status_ok (tb_status r) then r
      else if is_range_deletion key then
        r\<lparr>tb_range_del_block := BlockBuilder_Add (opt_block_restart_interval (tb_options r)) key value (tb_range_del_block r),
          tb_num_entries := tb_num_entries r + 1\<rparr>
      else
        let r = (if tb_pending_index_entry r
                 then add_index_entry (FindShortestSeparator (opt_comparator (tb_options r)) (tb_last_key r) key) r
                 else r);
            r = r\<lparr>tb_filter_block := map_option (\<lambda>(policy, b). (policy, AddKey key b)) (tb_filter_block r)\<rparr>;
            r = r\<lparr>tb_last_key := key, tb_num_entries := tb_num_entries r + 1,
                  tb_data_block := BlockBuilder_Add (opt_block_restart_interval (tb_options r)) key value (tb_data_block r)\<rparr>
        in if opt_block_size (tb_options r) \<le> CurrentSizeEstimate (tb_data_block r) then TB_Flush prt wops r else r)"

definition range_deletions_key :: bytes where
  "range_deletions_key = string_bytes ''leveldb.range_deletions''"

definition filter_key :: "FilterPolicy \<Rightarrow> bytes" where
  "filter_key policy = string_bytes (''filter.'' @ FilterName policy)"

text \<open>The parts of \<^verbatim>\<open>Finish\<close>, in its order.\<close>

definition finish_range_dels :: "port \<Rightarrow> 'f WritableFile \<Rightarrow> 'f TableBuilder \<Rightarrow> BlockHandle \<times> 'f TableBuilder" where
  "finish_range_dels prt wops r =
     (if status_ok (tb_status r) \<and> \<not> BlockBuilder_empty (tb_range_del_block r)
      then (case WriteBlock prt wops (tb_range_del_block r) r of (handle, block, r) \<Rightarrow> (handle, r\<lparr>tb_range_del_block := block\<rparr>))
      else (make_BlockHandle, r))"

definition finish_filter :: "'f WritableFile \<Rightarrow> 'f TableBuilder \<Rightarrow> BlockHandle \<times> 'f TableBuilder" where
  "finish_filter wops r =
     (if status_ok (tb_status r)
      then (case tb_filter_block r of
              None \<Rightarrow> (make_BlockHandle, r)
            | Some (policy, b) \<Rightarrow>
                (case FilterBlock_Finish policy b of
                   (contents, b) \<Rightarrow> WriteRawBlock wops contents kNoCompression (r\<lparr>tb_filter_block := Some (policy, b)\<rparr>)))
      else (make_BlockHandle, r))"

definition finish_metaindex ::
  "port \<Rightarrow> 'f WritableFile \<Rightarrow> bool \<Rightarrow> BlockHandle \<Rightarrow> BlockHandle \<Rightarrow> 'f TableBuilder \<Rightarrow> BlockHandle \<times> 'f TableBuilder" where
  "finish_metaindex prt wops has_range_dels range_del_handle filter_handle r =
     (if status_ok (tb_status r)
      then
        let interval = opt_block_restart_interval (tb_options r);
            block = make_BlockBuilder;
            block = (case (tb_filter_block r, opt_filter_policy (tb_options r)) of
                       (Some _, Some policy) \<Rightarrow>
                         BlockBuilder_Add interval (filter_key policy) (BlockHandle_EncodeTo filter_handle []) block
                     | _ \<Rightarrow> block);
            block = (if has_range_dels
                     then BlockBuilder_Add interval range_deletions_key (BlockHandle_EncodeTo range_del_handle []) block
                     else block)
        in (case WriteBlock prt wops block r of (handle, _, r) \<Rightarrow> (handle, r))
      else (make_BlockHandle, r))"

definition finish_index :: "port \<Rightarrow> 'f WritableFile \<Rightarrow> 'f TableBuilder \<Rightarrow> BlockHandle \<times> 'f TableBuilder" where
  "finish_index prt wops r =
     (if status_ok (tb_status r)
      then
        let r = (if tb_pending_index_entry r
                 then add_index_entry (FindShortSuccessor (opt_comparator (tb_options r)) (tb_last_key r)) r else r)
        in (case WriteBlock prt wops (tb_index_block r) r of (handle, block, r) \<Rightarrow> (handle, r\<lparr>tb_index_block := block\<rparr>))
      else (make_BlockHandle, r))"

definition finish_footer :: "'f WritableFile \<Rightarrow> BlockHandle \<Rightarrow> BlockHandle \<Rightarrow> 'f TableBuilder \<Rightarrow> 'f TableBuilder" where
  "finish_footer wops metaindex index r =
     (if status_ok (tb_status r)
      then
        let footer_encoding = Footer_EncodeTo \<lparr>metaindex_handle = metaindex, index_handle = index\<rparr> [] in
        case WAppend wops (tb_file r) footer_encoding of
          (s, file) \<Rightarrow>
            let r = r\<lparr>tb_status := s, tb_file := file\<rparr> in
            if status_ok s then r\<lparr>tb_offset := tb_offset r + word_of_nat (length footer_encoding)\<rparr> else r
      else r)"

definition TB_Finish :: "port \<Rightarrow> 'f WritableFile \<Rightarrow> 'f TableBuilder \<Rightarrow> status \<times> 'f TableBuilder" where
  "TB_Finish prt wops r =
     (let r = TB_Flush prt wops r;
          r = r\<lparr>tb_closed := True\<rparr>;
          has_range_dels = (\<not> BlockBuilder_empty (tb_range_del_block r));
          (range_del_handle, r) = finish_range_dels prt wops r;
          (filter_handle, r) = finish_filter wops r;
          (metaindex, r) = finish_metaindex prt wops has_range_dels range_del_handle filter_handle r;
          (index, r) = finish_index prt wops r;
          r = finish_footer wops metaindex index r
      in (tb_status r, r))"

definition TB_Abandon :: "'f TableBuilder \<Rightarrow> 'f TableBuilder" where
  "TB_Abandon r = r\<lparr>tb_closed := True\<rparr>"

definition TB_NumEntries :: "'f TableBuilder \<Rightarrow> nat" where
  "TB_NumEntries r = tb_num_entries r"

definition TB_FileSize :: "'f TableBuilder \<Rightarrow> u64" where
  "TB_FileSize r = tb_offset r"

section \<open>What the file holds\<close>

abbreviation filled_block :: "nat \<Rightarrow> entries \<Rightarrow> BlockBuilder" where
  "filled_block interval es \<equiv> foldl (\<lambda>b (k, v). BlockBuilder_Add interval k v b) make_BlockBuilder es"

lemma BlockBuilder_Reset_make [simp]: "BlockBuilder_Reset b = make_BlockBuilder"
  by (simp add: BlockBuilder_Reset_def make_BlockBuilder_def)

lemma filled_block_empty:
  assumes "1 \<le> interval"
  shows "BlockBuilder_empty (filled_block interval es) \<longleftrightarrow> es = []"
proof -
  obtain items rs where b: "bb_rep (filled_block interval es) items rs" "map snd items = es"
    using build_rep [OF make_BlockBuilder_rep assms, of es] by auto
  have "enc_items items = [] \<longleftrightarrow> items = []"
    by (cases items) (auto simp: enc_item_def item_header_def EncodeVarint32_def)
  then show ?thesis using b by (auto simp: BlockBuilder_empty_def bb_rep_def)
qed

text \<open>The data blocks in the file, and the handle of one of them.\<close>

definition data_images :: "nat \<Rightarrow> entries list \<Rightarrow> bytes" where
  "data_images interval bs = concat (map (\<lambda>b. stored_block kNoCompression (build_block interval b)) bs)"

definition handle_at :: "nat \<Rightarrow> entries list \<Rightarrow> nat \<Rightarrow> BlockHandle" where
  "handle_at interval bs i =
     \<lparr>bh_offset = word_of_nat (length (data_images interval (take i bs))),
      bh_size = word_of_nat (length (build_block interval (bs ! i)))\<rparr>"

lemma data_images_simps [simp]:
  "data_images interval [] = []"
  "data_images interval (bs @ bs') = data_images interval bs @ data_images interval bs'"
  "data_images interval [b] = stored_block kNoCompression (build_block interval b)"
  by (simp_all add: data_images_def)

lemma handle_at_append: "i < length bs \<Longrightarrow> handle_at interval (bs @ bs') i = handle_at interval bs i"
  by (simp add: handle_at_def nth_append)

text \<open>The index keys added so far, against the blocks they separate.\<close>

definition index_keys_ok :: "('k \<Rightarrow> 'k \<Rightarrow> int) \<Rightarrow> ('k \<Rightarrow> bool) \<Rightarrow> 'k list \<Rightarrow> ('k \<times> 'v) list list \<Rightarrow> bool" where
  "index_keys_ok compare key_ok ks bs \<longleftrightarrow>
     (\<forall>i < length ks. key_ok (ks ! i) \<and> (\<forall>e \<in> set (bs ! i). compare (fst e) (ks ! i) \<le> 0) \<and>
        (\<forall>j < length bs. i < j \<longrightarrow> (\<forall>e \<in> set (bs ! j). compare (ks ! i) (fst e) < 0)))"

text \<open>An index key is the shortest separator of the blocks around it.\<close>

definition index_seps :: "comparator \<Rightarrow> bytes list \<Rightarrow> entries list \<Rightarrow> bool" where
  "index_seps cmp ks bs \<longleftrightarrow>
     (\<forall>i < length ks. Suc i < length bs \<longrightarrow> bs ! Suc i \<noteq> [] \<longrightarrow>
        ks ! i = FindShortestSeparator cmp (fst (last (bs ! i))) (fst (hd (bs ! Suc i))))"

lemma last_concat: "bs \<noteq> [] \<Longrightarrow> [] \<notin> set bs \<Longrightarrow> last (concat bs) = last (bs ! (length bs - 1))"
  by (induction bs rule: rev_induct) (auto simp: nth_append)

text \<open>The keys the filter block has been given, by the offset of their block.\<close>

definition promised :: "nat \<Rightarrow> entries list \<Rightarrow> entries \<Rightarrow> (nat \<times> bytes) set" where
  "promised interval bs cur =
     {(length (data_images interval (take i bs)), k) | i k. i < length bs \<and> k \<in> fst ` set (bs ! i)} \<union>
     {length (data_images interval bs)} \<times> fst ` set cur"

lemma promised_Flush: "promised interval (bs @ [cur]) [] = promised interval bs cur"
  by (auto simp: promised_def nth_append less_Suc_eq) (rule exI [of _ "length bs"], force)

lemma promised_Add: "promised interval bs (cur @ [e]) = insert (length (data_images interval bs), fst e) (promised interval bs cur)"
  by (auto simp: promised_def)

definition filter_inv :: "Options \<Rightarrow> nat \<Rightarrow> (FilterPolicy \<times> FilterBlockBuilder) option \<Rightarrow> entries list \<Rightarrow> entries \<Rightarrow> bool" where
  "filter_inv options interval fb bs cur \<longleftrightarrow>
     (case fb of
        None \<Rightarrow> opt_filter_policy options = None
      | Some (policy, b) \<Rightarrow>
          opt_filter_policy options = Some policy \<and>
          (length (data_images interval bs) < 2 ^ 64 \<longrightarrow>
             fbb_ok policy b (promised interval bs cur) (length (data_images interval bs) div kFilterBase)))"

text \<open>Options a table is written with: blocks are stored as they are.\<close>

definition table_options_ok :: "port \<Rightarrow> comparator \<Rightarrow> Options \<Rightarrow> bool" where
  "table_options_ok prt cmp options \<longleftrightarrow>
     opt_comparator options = cmp \<and> 1 \<le> opt_block_restart_interval options \<and>
     (\<forall>raw. compress_block prt options raw = (raw, kNoCompression))"

definition tb_inv ::
  "comparator \<Rightarrow> (bytes \<Rightarrow> bool) \<Rightarrow> ('f \<Rightarrow> bytes) \<Rightarrow> ('f \<Rightarrow> bool) \<Rightarrow> Options \<Rightarrow> 'f TableBuilder \<Rightarrow>
     entries list \<Rightarrow> entries \<Rightarrow> entries \<Rightarrow> entries \<Rightarrow> bool" where
  "tb_inv cmp key_ok written w_ok options r bs idx cur rds \<longleftrightarrow>
     (let interval = opt_block_restart_interval options in
      w_ok (tb_file r) \<and> written (tb_file r) = data_images interval bs \<and>
      tb_offset r = word_of_nat (length (data_images interval bs)) \<and> tb_status r = OK \<and>
      tb_data_block r = filled_block interval cur \<and> tb_index_block r = filled_block 1 idx \<and>
      tb_range_del_block r = filled_block interval rds \<and>
      tb_options r = options \<and> tb_index_block_options r = options\<lparr>opt_block_restart_interval := 1\<rparr> \<and>
      sorted_entries (Compare cmp) key_ok (concat bs @ cur) \<and> [] \<notin> set bs \<and>
      (concat bs @ cur \<noteq> [] \<longrightarrow> tb_last_key r = fst (last (concat bs @ cur))) \<and>
      (if tb_pending_index_entry r
       then cur = [] \<and> length bs = Suc (length idx) \<and> tb_pending_handle r = handle_at interval bs (length idx)
       else length bs = length idx \<and> (bs \<noteq> [] \<longrightarrow> cur \<noteq> [])) \<and>
      (\<forall>i < length idx. snd (idx ! i) = BlockHandle_EncodeTo (handle_at interval bs i) []) \<and>
      index_keys_ok (Compare cmp) key_ok (map fst idx) (bs @ [cur]) \<and> index_seps cmp (map fst idx) (bs @ [cur]) \<and>
      filter_inv options interval (tb_filter_block r) bs cur)"

lemma make_TableBuilder_inv:
  assumes "w_ok f" and "written f = []"
  shows "tb_inv cmp key_ok written w_ok options (make_TableBuilder options f) [] [] [] []"
proof -
  have "fbb_ok policy (StartBlock policy 0 make_FilterBlockBuilder) {} 0" for policy
    using StartBlock_ok [OF make_FilterBlockBuilder_ok, of 0 policy] by simp
  then show ?thesis
    using assms
    by (auto simp: tb_inv_def make_TableBuilder_def Let_def sorted_entries_def index_keys_ok_def index_seps_def filter_inv_def promised_def split: option.splits)
qed

context writable_file
begin

lemma WriteRawBlock_spec:
  assumes "w_ok (tb_file r)"
  shows "\<exists>f. WriteRawBlock w_ops contents t r =
      (\<lparr>bh_offset = tb_offset r, bh_size = word_of_nat (length contents)\<rparr>,
       r\<lparr>tb_status := OK, tb_file := f, tb_offset := tb_offset r + word_of_nat (length contents + kBlockTrailerSize)\<rparr>) \<and>
    w_ok f \<and> written f = written (tb_file r) @ stored_block t contents"
proof -
  obtain f where f: "WAppend w_ops (tb_file r) contents = (OK, f)" "w_ok f" "written f = written (tb_file r) @ contents"
    using w_append [OF assms] by blast
  let ?trailer = "[compression_byte t] @ EncodeFixed32 (Mask (Extend (Value contents) [compression_byte t]))"
  obtain f' where "WAppend w_ops f ?trailer = (OK, f')" "w_ok f'" "written f' = written f @ ?trailer"
    using w_append [OF f(2)] by blast
  then show ?thesis using f by (intro exI [of _ f']) (simp add: WriteRawBlock_def stored_block_def Let_def)
qed

lemma WriteBlock_spec:
  assumes "w_ok (tb_file r)" and "\<forall>raw. compress_block prt (tb_options r) raw = (raw, kNoCompression)"
  shows "\<exists>f. WriteBlock prt w_ops (filled_block interval es) r =
      (\<lparr>bh_offset = tb_offset r, bh_size = word_of_nat (length (build_block interval es))\<rparr>, make_BlockBuilder,
       r\<lparr>tb_status := OK, tb_file := f,
         tb_offset := tb_offset r + word_of_nat (length (build_block interval es) + kBlockTrailerSize)\<rparr>) \<and>
    w_ok f \<and> written f = written (tb_file r) @ stored_block kNoCompression (build_block interval es)"
proof -
  obtain raw b where raw: "BlockBuilder_Finish (filled_block interval es) = (raw, b)" by fastforce
  then have "raw = build_block interval es" by (simp add: build_block_def)
  then show ?thesis
    using raw WriteRawBlock_spec [OF assms(1), of raw kNoCompression] assms(2) by (auto simp: WriteBlock_def)
qed

lemma TB_Flush_inv:
  assumes inv: "tb_inv cmp key_ok written w_ok options r bs idx cur rds" and o: "table_options_ok prt cmp options"
    and cur: "cur \<noteq> []"
  shows "tb_inv cmp key_ok written w_ok options (TB_Flush prt w_ops r) (bs @ [cur]) idx [] rds \<and>
    tb_num_entries (TB_Flush prt w_ops r) = tb_num_entries r"
proof -
  let ?iv = "opt_block_restart_interval options"
  have r: "w_ok (tb_file r)" "tb_options r = options" "tb_status r = OK" "tb_data_block r = filled_block ?iv cur"
      "tb_offset r = word_of_nat (length (data_images ?iv bs))" "\<not> tb_pending_index_entry r" "length bs = length idx"
      "written (tb_file r) = data_images ?iv bs" "filter_inv options ?iv (tb_filter_block r) bs cur"
    using inv cur by (auto simp: tb_inv_def Let_def split: if_splits)
  have c: "\<forall>raw. compress_block prt (tb_options r) raw = (raw, kNoCompression)" "1 \<le> ?iv"
    using o r(2) by (auto simp: table_options_ok_def)
  obtain f where f: "WriteBlock prt w_ops (filled_block ?iv cur) r =
      (\<lparr>bh_offset = tb_offset r, bh_size = word_of_nat (length (build_block ?iv cur))\<rparr>, make_BlockBuilder,
       r\<lparr>tb_status := OK, tb_file := f, tb_offset := tb_offset r + word_of_nat (length (build_block ?iv cur) + kBlockTrailerSize)\<rparr>)"
      "w_ok f" "written f = written (tb_file r) @ stored_block kNoCompression (build_block ?iv cur)"
    using WriteBlock_spec [OF r(1) c(1)] by blast
  obtain f' where f': "WFlush w_ops f = (OK, f')" "w_ok f'" "written f' = written f" using w_flush [OF f(2)] by blast
  let ?off = "word_of_nat (length (data_images ?iv (bs @ [cur]))) :: u64"
  have flush: "TB_Flush prt w_ops r = r\<lparr>tb_offset := ?off, tb_pending_handle := handle_at ?iv (bs @ [cur]) (length idx),
      tb_data_block := make_BlockBuilder, tb_pending_index_entry := True, tb_status := OK, tb_file := f',
      tb_filter_block := map_option (\<lambda>(policy, b). (policy, StartBlock policy (unat ?off) b)) (tb_filter_block r)\<rparr>"
    using filled_block_empty [OF c(2), of cur] cur
    by (simp add: TB_Flush_def Let_def handle_at_def r(3,4,5) r(7) [symmetric] f(1) [unfolded r(5)] f'(1))
  have filter: "filter_inv options ?iv (tb_filter_block (TB_Flush prt w_ops r)) (bs @ [cur]) []"
  proof (cases "tb_filter_block r")
    case None
    then show ?thesis using r(9) by (simp add: flush filter_inv_def)
  next
    case (Some pb)
    obtain policy b where pb: "pb = (policy, b)" by fastforce
    have "fbb_ok policy (StartBlock policy (unat ?off) b) (promised ?iv bs cur) (length (data_images ?iv (bs @ [cur])) div kFilterBase)"
      if small: "length (data_images ?iv (bs @ [cur])) < 2 ^ 64"
    proof -
      have "unat ?off = length (data_images ?iv (bs @ [cur]))" using small by (intro unat_of_nat_small) simp
      moreover have "fbb_ok policy b (promised ?iv bs cur) (length (data_images ?iv bs) div kFilterBase)"
        using r(9) Some pb small by (simp add: filter_inv_def)
      ultimately show ?thesis using StartBlock_ok [of policy b _ _ "unat ?off"] by (simp add: div_le_mono)
    qed
    then show ?thesis using r(9) Some pb by (simp add: flush filter_inv_def promised_Flush del: data_images_simps of_nat_add)
  qed
  have "index_keys_ok (Compare cmp) key_ok (map fst idx) ((bs @ [cur]) @ [[]])"
    using inv r(7) by (auto simp: tb_inv_def Let_def index_keys_ok_def nth_append less_Suc_eq)
  moreover have "index_seps cmp (map fst idx) ((bs @ [cur]) @ [[]])"
    using inv r(7) by (auto simp: tb_inv_def Let_def index_seps_def nth_append less_Suc_eq)
  ultimately show ?thesis
    using inv filter f(3) f'(2,3) r(7,8) cur unfolding tb_inv_def Let_def flush
    by (simp add: handle_at_append split: if_splits)
qed

end

context three_way
begin

lemma sorted_entries_last:
  assumes "sorted_entries compare key_ok es" and "e \<in> set es"
  shows "compare (fst e) (fst (last es)) \<le> 0"
proof -
  obtain i where i: "i < length es" "e = es ! i" using assms(2) by (auto simp: in_set_conv_nth)
  then have l: "last es = es ! (length es - 1)" by (cases es) (auto simp: last_conv_nth)
  show ?thesis
  proof (cases "i = length es - 1")
    case True
    then show ?thesis using i l compare_refl [OF sorted_entries_ok [OF assms(1) i(1)]] by simp
  next
    case False
    then have "i < length es - 1" "length es - 1 < length es" using i(1) by simp_all
    from sorted_entries_nth [OF assms(1) this] show ?thesis using i(2) l by simp
  qed
qed

lemma sorted_entries_snoc:
  assumes "sorted_entries compare key_ok es" and "key_ok k" and "es \<noteq> [] \<Longrightarrow> compare (fst (last es)) k < 0"
  shows "sorted_entries compare key_ok (es @ [(k, v)])"
proof -
  have "compare (fst e) k < 0" if e: "e \<in> set es" for e
  proof -
    have "es \<noteq> []" using e by auto
    then have "key_ok (fst (last es))" "key_ok (fst e)" using assms(1) e by (auto simp: sorted_entries_def)
    then show ?thesis
      using compare_le_less_trans [OF _ _ assms(2) sorted_entries_last [OF assms(1) e] assms(3)] \<open>es \<noteq> []\<close> by blast
  qed
  then show ?thesis using assms by (auto simp: sorted_entries_def sorted_wrt_append)
qed

lemma index_keys_later:
  assumes "index_keys_ok compare key_ok ks bs" and "i < length ks" and "i < j" and "j < length bs" and "l \<in> set (bs ! j)"
    and "key_ok (fst l)" and "key_ok k" and "compare (fst l) k < 0"
  shows "compare (ks ! i) k < 0"
  using assms compare_less_trans [of "ks ! i" "fst l" k] by (auto simp: index_keys_ok_def)

end

locale table_writer = key_comparator cmp key_ok + writable_file w_ops written w_ok
  for cmp :: comparator and key_ok :: "bytes \<Rightarrow> bool" and w_ops :: "'f WritableFile" and written :: "'f \<Rightarrow> bytes"
    and w_ok :: "'f \<Rightarrow> bool"
begin

lemma last_block_entry:
  assumes "sorted_entries (Compare cmp) key_ok (concat bs @ cur)" and "[] \<notin> set bs" and "concat bs @ cur \<noteq> []" and "cur = [] \<Longrightarrow> bs \<noteq> []"
  shows "last (concat bs @ cur) \<in> set ((bs @ [cur]) ! (if cur = [] then length bs - 1 else length bs))"
proof (cases "cur = []")
  case True
  then have bs: "bs \<noteq> []" "last bs \<noteq> []" using assms(2,4) by (auto simp: last_in_set) (metis last_in_set)
  then have "last (concat bs) = last (last bs)" by (metis append_butlast_last_id concat_append concat.simps last_appendR append_Nil2)
  then show ?thesis using True bs by (simp add: nth_append last_conv_nth [OF bs(1)])
qed (simp add: nth_append)

lemma index_keys_add:
  assumes ok: "index_keys_ok (Compare cmp) key_ok ks (bs @ [cur])" and "length ks \<le> length bs" and "cur = [] \<Longrightarrow> length ks < length bs \<or> bs = []"
    and sorted: "sorted_entries (Compare cmp) key_ok (concat bs @ cur)" and ne: "[] \<notin> set bs"
    and k: "key_ok k" "concat bs @ cur \<noteq> [] \<Longrightarrow> Compare cmp (fst (last (concat bs @ cur))) k < 0"
  shows "index_keys_ok (Compare cmp) key_ok ks (bs @ [cur @ [(k, v)]])"
proof -
  have less: "Compare cmp (ks ! i) k < 0" if i: "i < length ks" for i
  proof -
    have "bs \<noteq> []" using i assms(2) by auto
    then have nonempty: "concat bs @ cur \<noteq> []" using ne by (cases bs) auto
    let ?l = "last (concat bs @ cur)" and ?j = "if cur = [] then length bs - 1 else length bs"
    have l: "?l \<in> set ((bs @ [cur]) ! ?j)" "key_ok (fst ?l)"
      using last_block_entry [OF sorted ne nonempty \<open>bs \<noteq> []\<close>] sorted last_in_set [OF nonempty] unfolding sorted_entries_def by blast+
    have "i < ?j" "?j < length (bs @ [cur])" using i assms(2,3) \<open>bs \<noteq> []\<close> by auto
    then show ?thesis using index_keys_later [OF ok i _ _ l k(1) k(2) [OF nonempty]] by blast
  qed
  show ?thesis using ok less assms(2) by (auto simp: index_keys_ok_def nth_append less_Suc_eq)
qed

lemma index_keys_separator:
  assumes ok: "index_keys_ok (Compare cmp) key_ok ks (bs @ [[]])" and len: "length bs = Suc (length ks)"
    and sorted: "sorted_entries (Compare cmp) key_ok (concat bs)" and ne: "[] \<notin> set bs"
    and k: "key_ok k" "Compare cmp (fst (last (concat bs))) k < 0"
  shows "index_keys_ok (Compare cmp) key_ok (ks @ [FindShortestSeparator cmp (fst (last (concat bs))) k]) (bs @ [[(k, v)]])"
proof -
  let ?l = "fst (last (concat bs))" let ?s = "FindShortestSeparator cmp ?l k"
  have "concat bs \<noteq> []" using len ne by (cases bs) auto
  then have l: "key_ok ?l" using sorted unfolding sorted_entries_def by (meson last_in_set)
  have s: "key_ok ?s" "Compare cmp ?l ?s \<le> 0" "Compare cmp ?s k < 0"
    using separator_ok [OF l k(1)] separator_between [OF l k] by auto
  have old: "index_keys_ok (Compare cmp) key_ok ks (bs @ [[(k, v)]])"
    using index_keys_add [OF ok, of k v] len sorted ne k by simp
  have "Compare cmp (fst e) ?s \<le> 0" if e: "e \<in> set (bs ! length ks)" for e
  proof -
    have "e \<in> set (concat bs)" using e len nth_mem [of "length ks" bs] by (auto simp del: nth_mem)
    then show ?thesis
      using compare_trans [OF _ l s(1) sorted_entries_last [OF sorted] s(2)] sorted unfolding sorted_entries_def by blast
  qed
  then show ?thesis using old s len by (auto simp: index_keys_ok_def nth_append less_Suc_eq)
qed

lemma filled_block_snoc: "BlockBuilder_Add interval k v (filled_block interval es) = filled_block interval (es @ [(k, v)])"
  by simp

text \<open>The state after an entry has been added, before a full block is flushed.\<close>

lemma add_entry_inv:
  assumes inv: "tb_inv cmp key_ok written w_ok options r bs idx cur rds" and o: "table_options_ok prt cmp options"
    and k: "key_ok k" "concat bs @ cur \<noteq> [] \<Longrightarrow> Compare cmp (fst (last (concat bs @ cur))) k < 0"
    and r1: "r1 = (if tb_pending_index_entry r
        then add_index_entry (FindShortestSeparator (opt_comparator (tb_options r)) (tb_last_key r) k) r else r)"
    and r2: "r2 = r1\<lparr>tb_filter_block := map_option (\<lambda>(policy, b). (policy, AddKey k b)) (tb_filter_block r1),
        tb_last_key := k, tb_num_entries := tb_num_entries r1 + 1,
        tb_data_block := BlockBuilder_Add (opt_block_restart_interval (tb_options r1)) k v (tb_data_block r1)\<rparr>"
  shows "\<exists>idx'. tb_inv cmp key_ok written w_ok options r2 bs idx' (cur @ [(k, v)]) rds"
proof -
  let ?iv = "opt_block_restart_interval options"
  let ?sep = "FindShortestSeparator cmp (fst (last (concat bs))) k"
  let ?idx = "if tb_pending_index_entry r then idx @ [(?sep, BlockHandle_EncodeTo (handle_at ?iv bs (length idx)) [])] else idx"
  have sorted: "sorted_entries (Compare cmp) key_ok (concat bs @ cur)" "[] \<notin> set bs"
    using inv by (auto simp: tb_inv_def Let_def)
  have s2: "sorted_entries (Compare cmp) key_ok (concat bs @ cur @ [(k, v)])"
    using sorted_entries_snoc [OF sorted(1) k] by simp
  have old: "index_keys_ok (Compare cmp) key_ok (map fst idx) (bs @ [cur])" "opt_comparator options = cmp" "tb_options r = options"
    using inv o by (auto simp: tb_inv_def Let_def table_options_ok_def)
  have keys: "index_keys_ok (Compare cmp) key_ok (map fst ?idx) (bs @ [cur @ [(k, v)]])"
  proof (cases "tb_pending_index_entry r")
    case True
    then have c: "cur = []" "length bs = Suc (length (map fst idx))" using inv by (auto simp: tb_inv_def Let_def)
    then have "concat bs \<noteq> []" using sorted(2) by (cases bs) auto
    then show ?thesis using index_keys_separator [of "map fst idx" bs k v] True c old(1) sorted k by simp
  next
    case False
    then have c: "length bs = length idx" "bs \<noteq> [] \<longrightarrow> cur \<noteq> []" using inv by (auto simp: tb_inv_def Let_def)
    then show ?thesis using index_keys_add [OF old(1) _ _ sorted k, of v] False by auto
  qed
  have seps: "index_seps cmp (map fst ?idx) (bs @ [cur @ [(k, v)]])"
  proof (cases "tb_pending_index_entry r")
    case True
    then have c: "cur = []" "length bs = Suc (length idx)" "index_seps cmp (map fst idx) (bs @ [[]])" using inv by (auto simp: tb_inv_def Let_def)
    moreover have "bs \<noteq> []" using c(2) by auto
    ultimately show ?thesis using True last_concat [of bs] sorted(2) by (auto simp: index_seps_def nth_append less_Suc_eq)
  next
    case False
    then have "length bs = length idx" "bs \<noteq> [] \<longrightarrow> cur \<noteq> []" "index_seps cmp (map fst idx) (bs @ [cur])"
      using inv by (auto simp: tb_inv_def Let_def)
    then show ?thesis using False by (auto simp: index_seps_def nth_append less_Suc_eq split: if_splits)
  qed
  have filter: "filter_inv options ?iv (tb_filter_block r2) bs (cur @ [(k, v)])"
    using inv unfolding r2 r1 by (auto simp: tb_inv_def Let_def filter_inv_def promised_Add add_index_entry_def split: option.splits intro: AddKey_ok)
  have last: "tb_pending_index_entry r \<Longrightarrow> tb_last_key r = fst (last (concat bs))"
    using inv sorted(2) by (cases bs) (auto simp: tb_inv_def Let_def)
  have "tb_inv cmp key_ok written w_ok options r2 bs ?idx (cur @ [(k, v)]) rds"
    using inv keys seps filter s2 last old(2) unfolding tb_inv_def Let_def r2 r1
    by (simp add: add_index_entry_def nth_append less_Suc_eq split: if_splits)
  then show ?thesis by blast
qed

lemma TB_Add_inv:
  assumes inv: "tb_inv cmp key_ok written w_ok options r bs idx cur rds" and o: "table_options_ok prt cmp options"
    and point: "\<not> is_range_deletion k"
    and k: "key_ok k" "concat bs @ cur \<noteq> [] \<Longrightarrow> Compare cmp (fst (last (concat bs @ cur))) k < 0"
  shows "\<exists>bs' idx' cur'. tb_inv cmp key_ok written w_ok options (TB_Add prt w_ops k v r) bs' idx' cur' rds \<and>
    concat bs' @ cur' = concat bs @ cur @ [(k, v)]"
proof -
  define r1 where "r1 = (if tb_pending_index_entry r
      then add_index_entry (FindShortestSeparator (opt_comparator (tb_options r)) (tb_last_key r) k) r else r)"
  define r2 where "r2 = r1\<lparr>tb_filter_block := map_option (\<lambda>(policy, b). (policy, AddKey k b)) (tb_filter_block r1),
      tb_last_key := k, tb_num_entries := tb_num_entries r1 + 1,
      tb_data_block := BlockBuilder_Add (opt_block_restart_interval (tb_options r1)) k v (tb_data_block r1)\<rparr>"
  obtain idx' where i: "tb_inv cmp key_ok written w_ok options r2 bs idx' (cur @ [(k, v)]) rds"
    using add_entry_inv [OF inv o k r1_def r2_def] by blast
  have "tb_status r = OK" using inv by (simp add: tb_inv_def Let_def)
  then have add: "TB_Add prt w_ops k v r =
      (if opt_block_size (tb_options r2) \<le> CurrentSizeEstimate (tb_data_block r2) then TB_Flush prt w_ops r2 else r2)"
    using point by (simp add: TB_Add_def Let_def r2_def r1_def)
  show ?thesis
  proof (cases "opt_block_size (tb_options r2) \<le> CurrentSizeEstimate (tb_data_block r2)")
    case True
    then have "TB_Add prt w_ops k v r = TB_Flush prt w_ops r2" using add by simp
    then show ?thesis
      using TB_Flush_inv [OF i o] by (intro exI [of _ "bs @ [cur @ [(k, v)]]"] exI [of _ idx'] exI [of _ "[]"]) simp
  next
    case False
    then show ?thesis using add i by auto
  qed
qed

lemma TB_Add_range_inv:
  assumes "tb_inv cmp key_ok written w_ok options r bs idx cur rds" and "is_range_deletion k"
  shows "tb_inv cmp key_ok written w_ok options (TB_Add prt w_ops k v r) bs idx cur (rds @ [(k, v)])"
proof -
  have "tb_status r = OK" using assms(1) by (simp add: tb_inv_def Let_def)
  then show ?thesis using assms by (simp add: TB_Add_def tb_inv_def Let_def)
qed

end

definition TB_Add_all :: "port \<Rightarrow> 'f WritableFile \<Rightarrow> entries \<Rightarrow> 'f TableBuilder \<Rightarrow> 'f TableBuilder" where
  "TB_Add_all prt wops es r = foldl (\<lambda>r (k, v). TB_Add prt wops k v r) r es"

definition point_entries :: "entries \<Rightarrow> entries" where
  "point_entries es = filter (\<lambda>e. \<not> is_range_deletion (fst e)) es"

definition range_entries :: "entries \<Rightarrow> entries" where
  "range_entries es = filter (\<lambda>e. is_range_deletion (fst e)) es"

context table_writer
begin

lemma TB_Add_all_inv:
  assumes o: "table_options_ok prt cmp options"
  shows "tb_inv cmp key_ok written w_ok options r bs idx cur rds \<Longrightarrow>
    sorted_entries (Compare cmp) key_ok (concat bs @ cur @ point_entries es) \<Longrightarrow>
    \<exists>bs' idx' cur'. tb_inv cmp key_ok written w_ok options (TB_Add_all prt w_ops es r) bs' idx' cur' (rds @ range_entries es) \<and>
      concat bs' @ cur' = concat bs @ cur @ point_entries es"
proof (induction es arbitrary: r bs idx cur rds)
  case (Cons e es)
  obtain k v where e: "e = (k, v)" by fastforce
  show ?case
  proof (cases "is_range_deletion k")
    case True
    then have p: "point_entries (e # es) = point_entries es" "range_entries (e # es) = (k, v) # range_entries es"
      by (simp_all add: point_entries_def range_entries_def e)
    from Cons.IH [OF TB_Add_range_inv [OF Cons.prems(1) True, of prt v]] Cons.prems(2) show ?thesis
      by (simp add: TB_Add_all_def e p [unfolded e])
  next
    case False
    then have p: "point_entries (e # es) = (k, v) # point_entries es" "range_entries (e # es) = range_entries es"
      by (simp_all add: point_entries_def range_entries_def e)
    have s: "sorted_entries (Compare cmp) key_ok ((concat bs @ cur) @ (k, v) # point_entries es)" using Cons.prems(2) p by simp
    have k: "key_ok k" "concat bs @ cur \<noteq> [] \<Longrightarrow> Compare cmp (fst (last (concat bs @ cur))) k < 0"
      using s unfolding sorted_entries_def sorted_wrt_append
      by (simp, metis list.set_intros(1) fst_conv last_in_set)
    obtain bs1 idx1 cur1 where a: "tb_inv cmp key_ok written w_ok options (TB_Add prt w_ops k v r) bs1 idx1 cur1 rds"
        "concat bs1 @ cur1 = concat bs @ cur @ [(k, v)]"
      using TB_Add_inv [OF Cons.prems(1) o False k] by blast
    have app: "concat bs1 @ cur1 @ point_entries es = concat bs @ cur @ (k, v) # point_entries es"
      using arg_cong [OF a(2), of "\<lambda>xs. xs @ point_entries es"] by simp
    from Cons.IH [OF a(1), unfolded app] Cons.prems(2) show ?thesis by (simp add: TB_Add_all_def e p [unfolded e])
  qed
qed (auto simp: TB_Add_all_def point_entries_def range_entries_def)

end

section \<open>Finishing\<close>

text \<open>The bytes of a table file: its data blocks with their index, and the parts behind them.\<close>

definition part_handle :: "bytes \<Rightarrow> bytes \<Rightarrow> BlockHandle" where
  "part_handle before contents = \<lparr>bh_offset = word_of_nat (length before), bh_size = word_of_nat (length contents)\<rparr>"

definition meta_entries :: "Options \<Rightarrow> bool \<Rightarrow> BlockHandle \<Rightarrow> BlockHandle \<Rightarrow> entries" where
  "meta_entries options has_range_dels filter_handle range_del_handle =
     (case opt_filter_policy options of
        None \<Rightarrow> [] | Some policy \<Rightarrow> [(filter_key policy, BlockHandle_EncodeTo filter_handle [])]) @
     (if has_range_dels then [(range_deletions_key, BlockHandle_EncodeTo range_del_handle [])] else [])"

record table_parts =
  tp_blocks :: "entries list"
  tp_index :: entries
  tp_range_dels :: entries
  tp_filter :: bytes

definition tp_data :: "Options \<Rightarrow> table_parts \<Rightarrow> bytes" where
  "tp_data options p = data_images (opt_block_restart_interval options) (tp_blocks p)"

definition tp_range_block :: "Options \<Rightarrow> table_parts \<Rightarrow> bytes" where
  "tp_range_block options p = build_block (opt_block_restart_interval options) (tp_range_dels p)"

definition tp_after_range :: "Options \<Rightarrow> table_parts \<Rightarrow> bytes" where
  "tp_after_range options p =
     tp_data options p @ (if tp_range_dels p = [] then [] else stored_block kNoCompression (tp_range_block options p))"

definition tp_after_filter :: "Options \<Rightarrow> table_parts \<Rightarrow> bytes" where
  "tp_after_filter options p =
     tp_after_range options p @ (if opt_filter_policy options = None then [] else stored_block kNoCompression (tp_filter p))"

definition tp_meta_block :: "Options \<Rightarrow> table_parts \<Rightarrow> bytes" where
  "tp_meta_block options p =
     build_block (opt_block_restart_interval options)
       (meta_entries options (tp_range_dels p \<noteq> []) (part_handle (tp_after_range options p) (tp_filter p))
          (part_handle (tp_data options p) (tp_range_block options p)))"

definition tp_after_meta :: "Options \<Rightarrow> table_parts \<Rightarrow> bytes" where
  "tp_after_meta options p = tp_after_filter options p @ stored_block kNoCompression (tp_meta_block options p)"

definition tp_index_block :: "table_parts \<Rightarrow> bytes" where
  "tp_index_block p = build_block 1 (tp_index p)"

definition table_image :: "Options \<Rightarrow> table_parts \<Rightarrow> bytes" where
  "table_image options p =
     tp_after_meta options p @ stored_block kNoCompression (tp_index_block p) @
     Footer_EncodeTo \<lparr>metaindex_handle = part_handle (tp_after_filter options p) (tp_meta_block options p),
                      index_handle = part_handle (tp_after_meta options p) (tp_index_block p)\<rparr> []"

text \<open>The index is sorted, separates the blocks and has their handles; the filter knows every key.\<close>

definition table_parts_ok :: "comparator \<Rightarrow> (bytes \<Rightarrow> bool) \<Rightarrow> Options \<Rightarrow> table_parts \<Rightarrow> bool" where
  "table_parts_ok cmp key_ok options p \<longleftrightarrow>
     (let interval = opt_block_restart_interval options; bs = tp_blocks p; idx = tp_index p in
      sorted_entries (Compare cmp) key_ok (concat bs) \<and> [] \<notin> set bs \<and> length idx = length bs \<and>
      sorted_entries (Compare cmp) key_ok idx \<and> separates (Compare cmp) (map fst idx) bs \<and> index_seps cmp (map fst idx) bs \<and>
      (\<forall>i < length bs. snd (idx ! i) = BlockHandle_EncodeTo (handle_at interval bs i) []) \<and>
      (\<forall>policy. opt_filter_policy options = Some policy \<longrightarrow> length (table_image options p) < 2 ^ 32 \<longrightarrow>
         (\<exists>b i. tp_filter p = fst (FilterBlock_Finish policy b) \<and> fbb_ok policy b (promised interval bs []) i)))"

context table_writer
begin

lemma index_sorted:
  assumes ok: "index_keys_ok (Compare cmp) key_ok (map fst idx) bs" and len: "length idx = length bs" and ne: "[] \<notin> set bs"
    and sorted: "sorted_entries (Compare cmp) key_ok (concat bs)"
  shows "sorted_entries (Compare cmp) key_ok idx" and "separates (Compare cmp) (map fst idx) bs"
proof -
  show "separates (Compare cmp) (map fst idx) bs" using ok len by (auto simp: separates_def index_keys_ok_def)
  have okk: "key_ok (fst (idx ! i))" if "i < length idx" for i using ok that by (simp add: index_keys_ok_def)
  have "Compare cmp (fst (idx ! i)) (fst (idx ! j)) < 0" if ij: "i < j" "j < length idx" for i j
  proof -
    have "bs ! j \<noteq> []" using ne ij len by (metis nth_mem)
    then obtain e where e: "e \<in> set (bs ! j)" by (cases "bs ! j") auto
    then have "Compare cmp (fst (idx ! i)) (fst e) < 0" "Compare cmp (fst e) (fst (idx ! j)) \<le> 0"
      using ok ij len by (auto simp: index_keys_ok_def)
    moreover have "key_ok (fst e)" using e sorted ij len in_concat_nth [of e bs] unfolding sorted_entries_def by auto
    ultimately show ?thesis using compare_less_le_trans [OF okk _ okk] ij by simp
  qed
  then show "sorted_entries (Compare cmp) key_ok idx"
    using okk unfolding sorted_entries_def sorted_wrt_iff_nth_less by (metis in_set_conv_nth)
qed

end

text \<open>A builder whose file holds given bytes, and the fields that writing a block leaves alone.\<close>

definition tb_at :: "('f \<Rightarrow> bytes) \<Rightarrow> ('f \<Rightarrow> bool) \<Rightarrow> Options \<Rightarrow> 'f TableBuilder \<Rightarrow> bytes \<Rightarrow> bool" where
  "tb_at written w_ok options r W \<longleftrightarrow>
     w_ok (tb_file r) \<and> written (tb_file r) = W \<and> tb_offset r = word_of_nat (length W) \<and> tb_status r = OK \<and>
     tb_options r = options"

definition tb_same :: "'f TableBuilder \<Rightarrow> 'f TableBuilder \<Rightarrow> bool" where
  "tb_same r r' \<longleftrightarrow>
     tb_index_block r' = tb_index_block r \<and> tb_index_block_options r' = tb_index_block_options r \<and>
     tb_pending_index_entry r' = tb_pending_index_entry r \<and> tb_pending_handle r' = tb_pending_handle r \<and>
     tb_last_key r' = tb_last_key r \<and> (tb_filter_block r' = None \<longleftrightarrow> tb_filter_block r = None)"

context writable_file
begin

lemma WriteRawBlock_at:
  assumes "tb_at written w_ok options r W"
  shows "\<exists>r'. WriteRawBlock w_ops contents t r = (part_handle W contents, r') \<and>
    tb_at written w_ok options r' (W @ stored_block t contents) \<and> tb_same r r' \<and> tb_filter_block r' = tb_filter_block r"
proof -
  have r: "w_ok (tb_file r)" "written (tb_file r) = W" "tb_offset r = word_of_nat (length W)" "tb_options r = options"
    using assms by (auto simp: tb_at_def)
  obtain f where f: "WriteRawBlock w_ops contents t r =
      (\<lparr>bh_offset = tb_offset r, bh_size = word_of_nat (length contents)\<rparr>,
       r\<lparr>tb_status := OK, tb_file := f, tb_offset := tb_offset r + word_of_nat (length contents + kBlockTrailerSize)\<rparr>)"
      "w_ok f" "written f = written (tb_file r) @ stored_block t contents"
    using WriteRawBlock_spec [OF r(1)] by blast
  then show ?thesis using r(2-4) by (simp add: part_handle_def tb_at_def tb_same_def)
qed

lemma WriteBlock_at:
  assumes "tb_at written w_ok options r W" and "\<forall>raw. compress_block prt options raw = (raw, kNoCompression)"
  shows "\<exists>r'. WriteBlock prt w_ops (filled_block interval es) r = (part_handle W (build_block interval es), make_BlockBuilder, r') \<and>
    tb_at written w_ok options r' (W @ stored_block kNoCompression (build_block interval es)) \<and> tb_same r r' \<and>
    tb_filter_block r' = tb_filter_block r"
proof -
  obtain raw b where raw: "BlockBuilder_Finish (filled_block interval es) = (raw, b)" by fastforce
  then have b: "raw = build_block interval es" by (simp add: build_block_def)
  have "compress_block prt (tb_options r) raw = (raw, kNoCompression)" using assms by (simp add: tb_at_def)
  then show ?thesis
    using raw WriteRawBlock_at [OF assms(1), of "build_block interval es" kNoCompression] unfolding b by (auto simp: WriteBlock_def)
qed

lemma finish_range_dels_at:
  assumes r: "tb_at written w_ok options r W" and c: "\<forall>raw. compress_block prt options raw = (raw, kNoCompression)"
    and b: "tb_range_del_block r = filled_block interval rds" and i: "1 \<le> interval"
  shows "\<exists>h r'. finish_range_dels prt w_ops r = (h, r') \<and> (rds \<noteq> [] \<longrightarrow> h = part_handle W (build_block interval rds)) \<and>
    tb_at written w_ok options r' (W @ (if rds = [] then [] else stored_block kNoCompression (build_block interval rds))) \<and>
    tb_same r r' \<and> tb_filter_block r' = tb_filter_block r"
proof (cases "rds = []")
  case True
  then have "BlockBuilder_empty (tb_range_del_block r)" using b filled_block_empty [OF i, of rds] by simp
  then show ?thesis using r True by (simp add: finish_range_dels_def tb_same_def)
next
  case False
  then have "\<not> BlockBuilder_empty (tb_range_del_block r)" "tb_status r = OK" using b filled_block_empty [OF i, of rds] r by (auto simp: tb_at_def)
  moreover obtain r' where "WriteBlock prt w_ops (filled_block interval rds) r = (part_handle W (build_block interval rds), make_BlockBuilder, r')"
      "tb_at written w_ok options r' (W @ stored_block kNoCompression (build_block interval rds))" "tb_same r r'" "tb_filter_block r' = tb_filter_block r"
    using WriteBlock_at [OF r c] by blast
  ultimately show ?thesis using False b
    by (intro exI [of _ "part_handle W (build_block interval rds)"] exI [of _ "r'\<lparr>tb_range_del_block := make_BlockBuilder\<rparr>"])
       (simp add: finish_range_dels_def tb_at_def tb_same_def)
qed

lemma finish_filter_at:
  assumes r: "tb_at written w_ok options r W"
    and f: "case tb_filter_block r of None \<Rightarrow> opt_filter_policy options = None
      | Some (policy, b) \<Rightarrow> opt_filter_policy options = Some policy \<and> fd = fst (FilterBlock_Finish policy b)"
  shows "\<exists>h r'. finish_filter w_ops r = (h, r') \<and> (opt_filter_policy options \<noteq> None \<longrightarrow> h = part_handle W fd) \<and>
    tb_at written w_ok options r' (W @ (if opt_filter_policy options = None then [] else stored_block kNoCompression fd)) \<and> tb_same r r'"
proof (cases "tb_filter_block r")
  case None
  then show ?thesis using r f by (simp add: finish_filter_def tb_same_def)
next
  case (Some pb)
  obtain policy b where pb: "pb = (policy, b)" by fastforce
  obtain b' where fin: "FilterBlock_Finish policy b = (fd, b')" using f Some pb by (cases "FilterBlock_Finish policy b") auto
  let ?r = "r\<lparr>tb_filter_block := Some (policy, b')\<rparr>"
  have "tb_at written w_ok options ?r W" "tb_status r = OK" using r by (simp_all add: tb_at_def)
  then obtain r' where "WriteRawBlock w_ops fd kNoCompression ?r = (part_handle W fd, r')"
      "tb_at written w_ok options r' (W @ stored_block kNoCompression fd)" "tb_same ?r r'"
    using WriteRawBlock_at by blast
  then show ?thesis using fin Some pb f \<open>tb_status r = OK\<close> by (simp add: finish_filter_def tb_same_def)
qed

lemma finish_metaindex_at:
  assumes r: "tb_at written w_ok options r W" and c: "\<forall>raw. compress_block prt options raw = (raw, kNoCompression)"
    and f: "tb_filter_block r = None \<longleftrightarrow> opt_filter_policy options = None"
  shows "\<exists>r'. finish_metaindex prt w_ops has rh fh r =
      (part_handle W (build_block (opt_block_restart_interval options) (meta_entries options has fh rh)), r') \<and>
    tb_at written w_ok options r' (W @ stored_block kNoCompression (build_block (opt_block_restart_interval options) (meta_entries options has fh rh))) \<and>
    tb_same r r'"
proof -
  let ?iv = "opt_block_restart_interval options" and ?es = "meta_entries options has fh rh"
  have "tb_status r = OK" "tb_options r = options" using r by (auto simp: tb_at_def)
  then have "finish_metaindex prt w_ops has rh fh r = (case WriteBlock prt w_ops (filled_block ?iv ?es) r of (handle, _, r) \<Rightarrow> (handle, r))"
    using f by (auto simp: finish_metaindex_def Let_def meta_entries_def split: option.splits)
  then show ?thesis using WriteBlock_at [OF r c, of ?iv ?es] by auto
qed

lemma finish_footer_at:
  assumes "tb_at written w_ok options r W"
  shows "tb_at written w_ok options (finish_footer w_ops m i r) (W @ Footer_EncodeTo \<lparr>metaindex_handle = m, index_handle = i\<rparr> [])"
proof -
  let ?e = "Footer_EncodeTo \<lparr>metaindex_handle = m, index_handle = i\<rparr> []"
  have "w_ok (tb_file r)" "tb_status r = OK" using assms by (auto simp: tb_at_def)
  moreover obtain f where "WAppend w_ops (tb_file r) ?e = (OK, f)" "w_ok f" "written f = written (tb_file r) @ ?e"
    using w_append [OF calculation(1)] by blast
  ultimately show ?thesis using assms by (simp add: finish_footer_def tb_at_def Let_def)
qed

end

context table_writer
begin

lemma finish_index_at:
  assumes r: "tb_at written w_ok options r W" and c: "\<forall>raw. compress_block prt options raw = (raw, kNoCompression)"
    and x: "tb_index_block r = filled_block 1 idx" "tb_index_block_options r = options\<lparr>opt_block_restart_interval := 1\<rparr>"
    and i: "idx' = (if tb_pending_index_entry r
      then idx @ [(FindShortSuccessor (opt_comparator options) (tb_last_key r), BlockHandle_EncodeTo (tb_pending_handle r) [])] else idx)"
  shows "\<exists>r'. finish_index prt w_ops r = (part_handle W (build_block 1 idx'), r') \<and>
    tb_at written w_ok options r' (W @ stored_block kNoCompression (build_block 1 idx'))"
proof -
  define r1 where "r1 = (if tb_pending_index_entry r
      then add_index_entry (FindShortSuccessor (opt_comparator options) (tb_last_key r)) r else r)"
  have ok: "tb_status r = OK" "tb_options r = options" using r by (auto simp: tb_at_def)
  have r1: "tb_index_block r1 = filled_block 1 idx'" "tb_at written w_ok options r1 W"
    using x i r by (auto simp: add_index_entry_def tb_at_def r1_def)
  have "finish_index prt w_ops r = (case WriteBlock prt w_ops (tb_index_block r1) r1 of
      (handle, block, r) \<Rightarrow> (handle, r\<lparr>tb_index_block := block\<rparr>))"
    using ok by (simp add: finish_index_def r1_def Let_def)
  moreover obtain r' where "WriteBlock prt w_ops (filled_block 1 idx') r1 = (part_handle W (build_block 1 idx'), make_BlockBuilder, r')"
      "tb_at written w_ok options r' (W @ stored_block kNoCompression (build_block 1 idx'))"
    using WriteBlock_at [OF r1(2) c] by blast
  ultimately show ?thesis
    using r1(1) by (intro exI [of _ "r'\<lparr>tb_index_block := make_BlockBuilder\<rparr>"]) (simp add: tb_at_def)
qed

lemma TB_Flush_all:
  assumes inv: "tb_inv cmp key_ok written w_ok options r bs idx cur rds" and o: "table_options_ok prt cmp options"
  shows "\<exists>bs'. tb_inv cmp key_ok written w_ok options (TB_Flush prt w_ops r) bs' idx [] rds \<and> concat bs' = concat bs @ cur"
proof (cases "cur = []")
  case True
  have "1 \<le> opt_block_restart_interval options" using o by (simp add: table_options_ok_def)
  then have "BlockBuilder_empty (tb_data_block r)" using inv True filled_block_empty [of "opt_block_restart_interval options" "[]"]
    by (simp add: tb_inv_def Let_def)
  then have "TB_Flush prt w_ops r = r" by (simp add: TB_Flush_def)
  then show ?thesis using inv True by auto
qed (use TB_Flush_inv [OF inv o] in fastforce)

lemma index_complete:
  assumes inv: "tb_inv cmp key_ok written w_ok options r bs idx [] rds" and o: "table_options_ok prt cmp options"
    and i: "idx' = (if tb_pending_index_entry r
      then idx @ [(FindShortSuccessor (opt_comparator options) (tb_last_key r), BlockHandle_EncodeTo (tb_pending_handle r) [])] else idx)"
  shows "index_keys_ok (Compare cmp) key_ok (map fst idx') bs" and "length idx' = length bs" and "index_seps cmp (map fst idx') bs"
    and "j < length bs \<Longrightarrow> snd (idx' ! j) = BlockHandle_EncodeTo (handle_at (opt_block_restart_interval options) bs j) []"
proof -
  have old: "index_keys_ok (Compare cmp) key_ok (map fst idx) (bs @ [[]])" "sorted_entries (Compare cmp) key_ok (concat bs)" "[] \<notin> set bs"
      "opt_comparator options = cmp"
    using inv o by (auto simp: tb_inv_def Let_def table_options_ok_def)
  show len: "length idx' = length bs" using inv i by (auto simp: tb_inv_def Let_def)
  show "index_seps cmp (map fst idx') bs"
    using inv i by (auto simp: tb_inv_def Let_def index_seps_def nth_append less_Suc_eq split: if_splits)
  show "snd (idx' ! j) = BlockHandle_EncodeTo (handle_at (opt_block_restart_interval options) bs j) []" if "j < length bs"
    using that inv i by (auto simp: tb_inv_def Let_def nth_append less_Suc_eq split: if_splits)
  show "index_keys_ok (Compare cmp) key_ok (map fst idx') bs"
  proof (cases "tb_pending_index_entry r")
    case False
    then show ?thesis using old(1) i inv by (auto simp: index_keys_ok_def nth_append tb_inv_def Let_def)
  next
    case True
    let ?l = "fst (last (concat bs))" let ?s = "FindShortSuccessor cmp ?l"
    have bs: "length bs = Suc (length idx)" using True inv by (auto simp: tb_inv_def Let_def)
    then have "concat bs \<noteq> []" using old(3) by (cases bs) auto
    then have l: "key_ok ?l" "tb_last_key r = ?l" using old(2) inv last_in_set [of "concat bs"]
      unfolding sorted_entries_def tb_inv_def Let_def by (blast, simp)
    have "Compare cmp (fst e) ?s \<le> 0" if e: "e \<in> set (bs ! length idx)" for e
    proof -
      have "e \<in> set (concat bs)" using e bs in_concat_nth [of e bs] by auto
      then show ?thesis
        using compare_trans [OF _ l(1) successor_ok [OF l(1)] sorted_entries_last [OF old(2)] successor_le [OF l(1)]] old(2)
        unfolding sorted_entries_def by blast
    qed
    then show ?thesis
      using old(1,4) i True bs l successor_ok [OF l(1)] by (auto simp: index_keys_ok_def nth_append less_Suc_eq)
  qed
qed

lemma TB_Finish_image:
  assumes inv: "tb_inv cmp key_ok written w_ok options r bs idx cur rds" and o: "table_options_ok prt cmp options"
  shows "\<exists>p r'. TB_Finish prt w_ops r = (OK, r') \<and> w_ok (tb_file r') \<and> written (tb_file r') = table_image options p \<and>
    tb_offset r' = word_of_nat (length (table_image options p)) \<and>
    table_parts_ok cmp key_ok options p \<and> concat (tp_blocks p) = concat bs @ cur \<and> tp_range_dels p = rds"
proof -
  let ?iv = "opt_block_restart_interval options"
  have c: "\<forall>raw. compress_block prt options raw = (raw, kNoCompression)" "1 \<le> ?iv" using o by (auto simp: table_options_ok_def)
  obtain bs' where f: "tb_inv cmp key_ok written w_ok options (TB_Flush prt w_ops r) bs' idx [] rds" "concat bs' = concat bs @ cur"
    using TB_Flush_all [OF inv o] by blast
  define r0 where "r0 = (TB_Flush prt w_ops r)\<lparr>tb_closed := True\<rparr>"
  have i0: "tb_inv cmp key_ok written w_ok options r0 bs' idx [] rds" 
    using f(1) by (cases "tb_pending_index_entry (TB_Flush prt w_ops r)") (auto simp: tb_inv_def Let_def r0_def)
  define fd where "fd = (case tb_filter_block r0 of None \<Rightarrow> [] | Some (policy, b) \<Rightarrow> fst (FilterBlock_Finish policy b))"
  define idx' where "idx' = (if tb_pending_index_entry r0
      then idx @ [(FindShortSuccessor (opt_comparator options) (tb_last_key r0), BlockHandle_EncodeTo (tb_pending_handle r0) [])] else idx)"
  define p where "p = \<lparr>tp_blocks = bs', tp_index = idx', tp_range_dels = rds, tp_filter = fd\<rparr>"
  have r0: "tb_at written w_ok options r0 (tp_data options p)" "tb_range_del_block r0 = filled_block ?iv rds"
      "tb_index_block r0 = filled_block 1 idx" "tb_index_block_options r0 = options\<lparr>opt_block_restart_interval := 1\<rparr>"
      "filter_inv options ?iv (tb_filter_block r0) bs' []"
    using i0 by (auto simp: tb_inv_def Let_def tb_at_def tp_data_def p_def)
  have empty: "BlockBuilder_empty (tb_range_del_block (TB_Flush prt w_ops r)) \<longleftrightarrow> rds = []"
    using r0(2) filled_block_empty [OF c(2), of rds] by (simp add: r0_def)
  have range: "tp_range_block options p = build_block ?iv rds"
      "tp_after_range options p = tp_data options p @ (if rds = [] then [] else stored_block kNoCompression (build_block ?iv rds))"
    by (cases "rds = []"; simp add: tp_after_range_def tp_range_block_def p_def)+
  obtain rh r1 where r1: "finish_range_dels prt w_ops r0 = (rh, r1)" "rds \<noteq> [] \<longrightarrow> rh = part_handle (tp_data options p) (tp_range_block options p)"
      "tb_at written w_ok options r1 (tp_after_range options p)" "tb_same r0 r1" "tb_filter_block r1 = tb_filter_block r0"
    using finish_range_dels_at [OF r0(1) c(1) r0(2) c(2)] unfolding range by blast
  have "case tb_filter_block r1 of None \<Rightarrow> opt_filter_policy options = None
      | Some (policy, b) \<Rightarrow> opt_filter_policy options = Some policy \<and> fd = fst (FilterBlock_Finish policy b)"
    using r0(5) r1(5) by (auto simp: filter_inv_def fd_def split: option.splits)
  moreover have after_filter: "tp_after_filter options p =
      tp_after_range options p @ (if opt_filter_policy options = None then [] else stored_block kNoCompression fd)"
    by (cases "opt_filter_policy options") (simp_all add: tp_after_filter_def p_def)
  ultimately obtain fh r2 where r2: "finish_filter w_ops r1 = (fh, r2)" "opt_filter_policy options \<noteq> None \<longrightarrow> fh = part_handle (tp_after_range options p) fd"
      "tb_at written w_ok options r2 (tp_after_filter options p)" "tb_same r1 r2"
    using finish_filter_at [OF r1(3)] unfolding after_filter by blast
  have f2: "tb_filter_block r2 = None \<longleftrightarrow> opt_filter_policy options = None"
    using r2(4) r1(5) r0(5) by (auto simp: tb_same_def filter_inv_def split: option.splits)
  have meta: "build_block ?iv (meta_entries options (rds \<noteq> []) fh rh) = tp_meta_block options p"
    using r1(2) r2(2) by (auto simp: tp_meta_block_def p_def meta_entries_def split: option.splits)
  obtain r3 where r3: "finish_metaindex prt w_ops (rds \<noteq> []) rh fh r2 = (part_handle (tp_after_filter options p) (tp_meta_block options p), r3)"
      "tb_at written w_ok options r3 (tp_after_meta options p)" "tb_same r2 r3"
    using finish_metaindex_at [OF r2(3) c(1) f2, of "rds \<noteq> []" rh fh] unfolding meta tp_after_meta_def by blast
  have same: "tb_same r0 r3" using r1(4) r2(4) r3(3) by (simp add: tb_same_def)
  obtain r4 where r4: "finish_index prt w_ops r3 = (part_handle (tp_after_meta options p) (tp_index_block p), r4)"
      "tb_at written w_ok options r4 (tp_after_meta options p @ stored_block kNoCompression (tp_index_block p))"
    using finish_index_at [OF r3(2) c(1), of idx idx'] r0(3,4) same by (auto simp: tb_same_def idx'_def tp_index_block_def p_def)
  let ?r5 = "finish_footer w_ops (part_handle (tp_after_filter options p) (tp_meta_block options p)) (part_handle (tp_after_meta options p) (tp_index_block p)) r4"
  have r5: "tb_at written w_ok options ?r5 (table_image options p)"
    using finish_footer_at [OF r4(2)] by (simp add: table_image_def)
  have fin: "TB_Finish prt w_ops r = (OK, ?r5)"
    using r5 r1(1) r2(1) r3(1) r4(1) empty by (simp add: TB_Finish_def Let_def tb_at_def flip: r0_def)
  note idx = index_complete [OF i0 o idx'_def]
  have sorted: "sorted_entries (Compare cmp) key_ok (concat bs')" "[] \<notin> set bs'" using i0 by (auto simp: tb_inv_def Let_def)
  have "\<exists>b i. fd = fst (FilterBlock_Finish policy b) \<and> fbb_ok policy b (promised ?iv bs' []) i"
    if pol: "opt_filter_policy options = Some policy" and small: "length (table_image options p) < 2 ^ 32" for policy
  proof -
    obtain b where b: "tb_filter_block r0 = Some (policy, b)" using pol r0(5) by (auto simp: filter_inv_def split: option.splits)
    have "length (data_images ?iv bs') \<le> length (table_image options p)"
      by (simp add: table_image_def tp_after_meta_def tp_after_filter_def tp_after_range_def tp_data_def p_def)
    then show ?thesis using r0(5) b small by (auto simp: filter_inv_def fd_def)
  qed
  then have "table_parts_ok cmp key_ok options p"
    using sorted idx(2-4) index_sorted [OF idx(1,2) sorted(2,1)] by (simp add: table_parts_ok_def p_def)
  then show ?thesis using fin r5 f(2) by (auto simp: tb_at_def p_def)
qed

end

interpretation mem_table_writer: table_writer "InternalKeyComparator BytewiseComparator" "internal_key_ok (\<lambda>_. True)"
    mem_WritableFile fs_contents fs_ok
  ..

section \<open>Properties\<close>

lemma compress_block_decompressed:
  assumes "port_ok prt"
  shows "decompressed prt (snd (compress_block prt options raw)) (fst (compress_block prt options raw)) = Some raw"
  using assms
  by (cases "opt_compression options")
     (auto simp: compress_block_def decompressed_def port_ok_def Snappy_Compress_def Zstd_Compress_def Snappy_GetUncompressedLength_def
       Snappy_Uncompress_def Zstd_GetUncompressedLength_def Zstd_Uncompress_def Let_def split: option.splits)



end
