(* ===== verification/Cache.thy ===== *)
theory Cache
  imports Bloom "HOL-Library.Word"
begin

text \<open>
  The sharded LRU cache (util/cache.cc, include/leveldb/cache.h). Handles are addresses of a heap that all
  shards share; a linked list is the list of the addresses on it, oldest first, and a bucket of the hash
  table is the chain of the addresses in it. The calls of deleters are recorded. The locale
  \<^verbatim>\<open>value_cache\<close> is what a client of the interface relies on.
\<close>

section \<open>Handles\<close>

record 'v LRUHandle =
  lh_value :: 'v
  lh_charge :: u64
  lh_key :: bytes
  lh_in_cache :: bool
  lh_refs :: nat
  lh_hash :: u32

record 'v handle_heap =
  hh_handles :: "nat \<rightharpoonup> 'v LRUHandle"
  hh_next :: nat
  hh_deleted :: "(bytes \<times> 'v) list"

abbreviation deref :: "'v handle_heap \<Rightarrow> nat \<Rightarrow> 'v LRUHandle" where
  "deref m p \<equiv> the (hh_handles m p)"

section \<open>The hash table\<close>

record HandleTable =
  ht_elems :: nat
  ht_list :: "nat list list"

definition bucket_of :: "u32 \<Rightarrow> nat list list \<Rightarrow> nat" where
  "bucket_of hash l = unat (hash AND (word_of_nat (length l) - 1))"

definition handle_matches :: "'v handle_heap \<Rightarrow> bytes \<Rightarrow> u32 \<Rightarrow> nat \<Rightarrow> bool" where
  "handle_matches m key hash p \<longleftrightarrow> lh_hash (deref m p) = hash \<and> Slice_eq key (lh_key (deref m p))"

text \<open>The slot that points to a matching entry: its bucket and its place in the chain.\<close>

definition FindPointer :: "'v handle_heap \<Rightarrow> bytes \<Rightarrow> u32 \<Rightarrow> HandleTable \<Rightarrow> nat \<times> nat" where
  "FindPointer m key hash t =
     (let b = bucket_of hash (ht_list t)
      in (b, length (takeWhile (\<lambda>p. \<not> handle_matches m key hash p) (ht_list t ! b))))"

definition slot :: "HandleTable \<Rightarrow> nat \<times> nat \<Rightarrow> nat option" where
  "slot t ptr = (case ptr of (b, i) \<Rightarrow> if i < length (ht_list t ! b) then Some (ht_list t ! b ! i) else None)"

definition HT_Lookup :: "'v handle_heap \<Rightarrow> bytes \<Rightarrow> u32 \<Rightarrow> HandleTable \<Rightarrow> nat option" where
  "HT_Lookup m key hash t = slot t (FindPointer m key hash t)"

function new_length_loop :: "nat \<Rightarrow> nat \<Rightarrow> nat" where
  "new_length_loop new_length elems =
     (if 0 < new_length \<and> new_length < elems then new_length_loop (new_length * 2) elems else new_length)"
  by pat_completeness auto
termination
  by (relation "measure (\<lambda>(n, e). e - n)") auto

declare new_length_loop.simps [simp del]

definition rehash_push :: "'v handle_heap \<Rightarrow> nat list list \<Rightarrow> nat \<Rightarrow> nat list list" where
  "rehash_push m new_list h =
     (let b = bucket_of (lh_hash (deref m h)) new_list in new_list[b := h # new_list ! b])"

definition HT_Resize :: "'v handle_heap \<Rightarrow> HandleTable \<Rightarrow> HandleTable" where
  "HT_Resize m t =
     (let new_length = new_length_loop 4 (ht_elems t);
          new_list = replicate new_length []
      in t\<lparr>ht_list := foldl (foldl (rehash_push m)) new_list (ht_list t)\<rparr>)"

definition make_HandleTable :: HandleTable where
  "make_HandleTable = HT_Resize \<lparr>hh_handles = \<lambda>_. None :: unit LRUHandle option, hh_next = 0, hh_deleted = []\<rparr> \<lparr>ht_elems = 0, ht_list = []\<rparr>"

definition HT_Insert :: "'v handle_heap \<Rightarrow> nat \<Rightarrow> HandleTable \<Rightarrow> nat option \<times> HandleTable" where
  "HT_Insert m h t =
     (let (b, i) = FindPointer m (lh_key (deref m h)) (lh_hash (deref m h)) t;
          old = slot t (b, i);
          chain = ht_list t ! b
      in case old of
           Some _ \<Rightarrow> (old, t\<lparr>ht_list := (ht_list t)[b := chain[i := h]]\<rparr>)
         | None \<Rightarrow>
             let t = t\<lparr>ht_list := (ht_list t)[b := chain @ [h]], ht_elems := ht_elems t + 1\<rparr>
             in (old, if length (ht_list t) < ht_elems t then HT_Resize m t else t))"

definition HT_Remove :: "'v handle_heap \<Rightarrow> bytes \<Rightarrow> u32 \<Rightarrow> HandleTable \<Rightarrow> nat option \<times> HandleTable" where
  "HT_Remove m key hash t =
     (let (b, i) = FindPointer m key hash t;
          chain = ht_list t ! b
      in case slot t (b, i) of
           None \<Rightarrow> (None, t)
         | Some h \<Rightarrow>
             (Some h, t\<lparr>ht_list := (ht_list t)[b := take i chain @ drop (Suc i) chain], ht_elems := ht_elems t - 1\<rparr>))"

section \<open>One shard\<close>

record LRUCache =
  lc_capacity :: u64
  lc_usage :: u64
  lc_lru :: "nat list"
  lc_in_use :: "nat list"
  lc_table :: HandleTable

definition make_LRUCache :: LRUCache where
  "make_LRUCache = \<lparr>lc_capacity = 0, lc_usage = 0, lc_lru = [], lc_in_use = [], lc_table = make_HandleTable\<rparr>"

definition LRU_SetCapacity :: "u64 \<Rightarrow> LRUCache \<Rightarrow> LRUCache" where
  "LRU_SetCapacity capacity c = c\<lparr>lc_capacity := capacity\<rparr>"

definition LRU_Remove :: "nat \<Rightarrow> LRUCache \<Rightarrow> LRUCache" where
  "LRU_Remove e c = c\<lparr>lc_lru := remove1 e (lc_lru c), lc_in_use := remove1 e (lc_in_use c)\<rparr>"

definition LRU_Append_in_use :: "nat \<Rightarrow> LRUCache \<Rightarrow> LRUCache" where
  "LRU_Append_in_use e c = c\<lparr>lc_in_use := lc_in_use c @ [e]\<rparr>"

definition LRU_Append_lru :: "nat \<Rightarrow> LRUCache \<Rightarrow> LRUCache" where
  "LRU_Append_lru e c = c\<lparr>lc_lru := lc_lru c @ [e]\<rparr>"

type_synonym 'v cache_state = "LRUCache \<times> 'v handle_heap"

definition LRU_Ref :: "nat \<Rightarrow> 'v cache_state \<Rightarrow> 'v cache_state" where
  "LRU_Ref e s =
     (case s of (c, m) \<Rightarrow>
        let h = deref m e;
            c = (if lh_refs h = 1 \<and> lh_in_cache h then LRU_Append_in_use e (LRU_Remove e c) else c)
        in (c, m\<lparr>hh_handles := (hh_handles m)(e \<mapsto> h\<lparr>lh_refs := lh_refs h + 1\<rparr>)\<rparr>))"

definition LRU_Unref :: "nat \<Rightarrow> 'v cache_state \<Rightarrow> 'v cache_state" where
  "LRU_Unref e s =
     (case s of (c, m) \<Rightarrow>
        let h = (deref m e)\<lparr>lh_refs := lh_refs (deref m e) - 1\<rparr>;
            m = m\<lparr>hh_handles := (hh_handles m)(e \<mapsto> h)\<rparr>
        in if lh_refs h = 0
           then (c, m\<lparr>hh_handles := (hh_handles m)(e := None), hh_deleted := hh_deleted m @ [(lh_key h, lh_value h)]\<rparr>)
           else if lh_in_cache h \<and> lh_refs h = 1 then (LRU_Append_lru e (LRU_Remove e c), m)
           else (c, m))"

definition LRU_Lookup :: "bytes \<Rightarrow> u32 \<Rightarrow> 'v cache_state \<Rightarrow> nat option \<times> 'v cache_state" where
  "LRU_Lookup key hash s =
     (case s of (c, m) \<Rightarrow>
        case HT_Lookup m key hash (lc_table c) of
          None \<Rightarrow> (None, s)
        | Some e \<Rightarrow> (Some e, LRU_Ref e s))"

definition LRU_Release :: "nat \<Rightarrow> 'v cache_state \<Rightarrow> 'v cache_state" where
  "LRU_Release handle s = LRU_Unref handle s"

definition LRU_FinishErase :: "nat option \<Rightarrow> 'v cache_state \<Rightarrow> bool \<times> 'v cache_state" where
  "LRU_FinishErase p s =
     (case p of
        None \<Rightarrow> (False, s)
      | Some e \<Rightarrow>
          (case s of (c, m) \<Rightarrow>
             let h = (deref m e)\<lparr>lh_in_cache := False\<rparr>;
                 c = LRU_Remove e c;
                 c = c\<lparr>lc_usage := lc_usage c - lh_charge h\<rparr>
             in (True, LRU_Unref e (c, m\<lparr>hh_handles := (hh_handles m)(e \<mapsto> h)\<rparr>))))"

definition LRU_Erase :: "bytes \<Rightarrow> u32 \<Rightarrow> 'v cache_state \<Rightarrow> 'v cache_state" where
  "LRU_Erase key hash s =
     (case s of (c, m) \<Rightarrow>
        case HT_Remove m key hash (lc_table c) of
          (p, t) \<Rightarrow> snd (LRU_FinishErase p (c\<lparr>lc_table := t\<rparr>, m)))"

text \<open>Removing the oldest entry that no client holds: the body of the loops of \<^verbatim>\<open>Insert\<close> and \<^verbatim>\<open>Prune\<close>.\<close>

definition evict_oldest :: "'v cache_state \<Rightarrow> 'v cache_state" where
  "evict_oldest s =
     (case s of (c, m) \<Rightarrow> let old = deref m (hd (lc_lru c)) in LRU_Erase (lh_key old) (lh_hash old) s)"

partial_function (option) evict_loop :: "'v cache_state \<Rightarrow> 'v cache_state option" where
  "evict_loop s =
     (if lc_capacity (fst s) < lc_usage (fst s) \<and> lc_lru (fst s) \<noteq> [] then evict_loop (evict_oldest s) else Some s)"

partial_function (option) LRU_Prune :: "'v cache_state \<Rightarrow> 'v cache_state option" where
  "LRU_Prune s = (if lc_lru (fst s) \<noteq> [] then LRU_Prune (evict_oldest s) else Some s)"

definition insert_entry :: "bytes \<Rightarrow> u32 \<Rightarrow> 'v \<Rightarrow> u64 \<Rightarrow> 'v cache_state \<Rightarrow> nat \<times> 'v cache_state" where
  "insert_entry key hash value charge s =
     (case s of (c, m) \<Rightarrow>
        let e = hh_next m;
            h = \<lparr>lh_value = value, lh_charge = charge, lh_key = key, lh_in_cache = False, lh_refs = 1, lh_hash = hash\<rparr>;
            m = m\<lparr>hh_next := e + 1\<rparr>
        in (e,
            if 0 < lc_capacity c then
              let m = m\<lparr>hh_handles := (hh_handles m)(e \<mapsto> h\<lparr>lh_refs := lh_refs h + 1, lh_in_cache := True\<rparr>)\<rparr>;
                  c = LRU_Append_in_use e c;
                  c = c\<lparr>lc_usage := lc_usage c + charge\<rparr>
              in case HT_Insert m e (lc_table c) of
                   (old, t) \<Rightarrow> snd (LRU_FinishErase old (c\<lparr>lc_table := t\<rparr>, m))
            else (c, m\<lparr>hh_handles := (hh_handles m)(e \<mapsto> h)\<rparr>)))"

definition LRU_Insert :: "bytes \<Rightarrow> u32 \<Rightarrow> 'v \<Rightarrow> u64 \<Rightarrow> 'v cache_state \<Rightarrow> (nat \<times> 'v cache_state) option" where
  "LRU_Insert key hash value charge s =
     (case insert_entry key hash value charge s of (e, s) \<Rightarrow> map_option (\<lambda>s. (e, s)) (evict_loop s))"

definition LRU_TotalCharge :: "LRUCache \<Rightarrow> u64" where
  "LRU_TotalCharge c = lc_usage c"

section \<open>The sharded cache\<close>

definition kNumShardBits :: nat where "kNumShardBits = 4"

definition kNumShards :: nat where "kNumShards = 2 ^ kNumShardBits"

record 'v ShardedLRUCache =
  sc_shard :: "LRUCache list"
  sc_last_id :: u64
  sc_heap :: "'v handle_heap"

definition HashSlice :: "bytes \<Rightarrow> u32" where
  "HashSlice s = Hash s 0"

definition Shard :: "u32 \<Rightarrow> nat" where
  "Shard hash = unat (drop_bit (32 - kNumShardBits) hash)"

definition NewLRUCache :: "u64 \<Rightarrow> 'v ShardedLRUCache" where
  "NewLRUCache capacity =
     (let per_shard = (capacity + (word_of_nat kNumShards - 1)) div word_of_nat kNumShards
      in \<lparr>sc_shard = replicate kNumShards (LRU_SetCapacity per_shard make_LRUCache), sc_last_id = 0,
          sc_heap = \<lparr>hh_handles = \<lambda>_. None, hh_next = 0, hh_deleted = []\<rparr>\<rparr>)"

definition shard_state :: "nat \<Rightarrow> 'v ShardedLRUCache \<Rightarrow> 'v cache_state" where
  "shard_state i c = (sc_shard c ! i, sc_heap c)"

definition set_shard_state :: "nat \<Rightarrow> 'v ShardedLRUCache \<Rightarrow> 'v cache_state \<Rightarrow> 'v ShardedLRUCache" where
  "set_shard_state i c s = c\<lparr>sc_shard := (sc_shard c)[i := fst s], sc_heap := snd s\<rparr>"

definition Cache_Insert :: "bytes \<Rightarrow> 'v \<Rightarrow> u64 \<Rightarrow> 'v ShardedLRUCache \<Rightarrow> (nat \<times> 'v ShardedLRUCache) option" where
  "Cache_Insert key value charge c =
     (let hash = HashSlice key in
      map_option (\<lambda>(h, s). (h, set_shard_state (Shard hash) c s)) (LRU_Insert key hash value charge (shard_state (Shard hash) c)))"

definition Cache_Lookup :: "bytes \<Rightarrow> 'v ShardedLRUCache \<Rightarrow> nat option \<times> 'v ShardedLRUCache" where
  "Cache_Lookup key c =
     (let hash = HashSlice key in
      case LRU_Lookup key hash (shard_state (Shard hash) c) of (h, s) \<Rightarrow> (h, set_shard_state (Shard hash) c s))"

definition Cache_Release :: "nat \<Rightarrow> 'v ShardedLRUCache \<Rightarrow> 'v ShardedLRUCache" where
  "Cache_Release handle c =
     (let i = Shard (lh_hash (deref (sc_heap c) handle))
      in set_shard_state i c (LRU_Release handle (shard_state i c)))"

definition Cache_Erase :: "bytes \<Rightarrow> 'v ShardedLRUCache \<Rightarrow> 'v ShardedLRUCache" where
  "Cache_Erase key c =
     (let hash = HashSlice key in set_shard_state (Shard hash) c (LRU_Erase key hash (shard_state (Shard hash) c)))"

definition Cache_Value :: "nat \<Rightarrow> 'v ShardedLRUCache \<Rightarrow> 'v" where
  "Cache_Value handle c = lh_value (deref (sc_heap c) handle)"

definition Cache_NewId :: "'v ShardedLRUCache \<Rightarrow> u64 \<times> 'v ShardedLRUCache" where
  "Cache_NewId c = (let i = sc_last_id c + 1 in (i, c\<lparr>sc_last_id := i\<rparr>))"

fun Prune_loop :: "nat list \<Rightarrow> 'v ShardedLRUCache \<Rightarrow> 'v ShardedLRUCache option" where
  "Prune_loop [] c = Some c"
| "Prune_loop (i # is) c =
     Option.bind (LRU_Prune (shard_state i c)) (\<lambda>s. Prune_loop is (set_shard_state i c s))"

definition Cache_Prune :: "'v ShardedLRUCache \<Rightarrow> 'v ShardedLRUCache option" where
  "Cache_Prune c = Prune_loop [0..<kNumShards] c"

definition Cache_TotalCharge :: "'v ShardedLRUCache \<Rightarrow> u64" where
  "Cache_TotalCharge c = foldl (\<lambda>total s. total + LRU_TotalCharge s) 0 (sc_shard c)"

section \<open>The hash table finds what it holds\<close>

lemma option_eqI: "(\<And>v. a = Some v \<longleftrightarrow> b = Some v) \<Longrightarrow> a = b"
  by (cases a; cases b) auto

definition on_chains :: "nat list list \<Rightarrow> nat set" where
  "on_chains l = {p. \<exists>b < length l. p \<in> set (l ! b)}"

abbreviation on_table :: "HandleTable \<Rightarrow> nat set" where
  "on_table t \<equiv> on_chains (ht_list t)"

text \<open>Every handle is on the chain of its hash, once.\<close>

definition power_of_two :: "nat \<Rightarrow> bool" where
  "power_of_two n \<longleftrightarrow> (\<exists>k. n = 2 ^ k)"

definition chains_ok :: "'v handle_heap \<Rightarrow> nat list list \<Rightarrow> bool" where
  "chains_ok m l \<longleftrightarrow>
     power_of_two (length l) \<and>
     (\<forall>b < length l. distinct (l ! b) \<and>
        (\<forall>p \<in> set (l ! b). p \<in> dom (hh_handles m) \<and> bucket_of (lh_hash (deref m p)) l = b))"

abbreviation handle_id :: "'v handle_heap \<Rightarrow> nat \<Rightarrow> u32 \<times> bytes" where
  "handle_id m p \<equiv> (lh_hash (deref m p), lh_key (deref m p))"

definition table_ok :: "'v handle_heap \<Rightarrow> HandleTable \<Rightarrow> bool" where
  "table_ok m t \<longleftrightarrow>
     chains_ok m (ht_list t) \<and> ht_elems t = sum_list (map length (ht_list t)) \<and> ht_elems t \<le> length (ht_list t) \<and>
     inj_on (handle_id m) (on_table t)"

lemma bucket_less:
  assumes "length l = 2 ^ k"
  shows "bucket_of hash l < length l"
proof (cases "k < 32")
  case True
  have "word_of_nat (length l) - 1 = (mask k :: u32)" using assms by (simp add: mask_eq_exp_minus_1)
  then have "bucket_of hash l = unat (take_bit k hash)" by (simp add: bucket_of_def take_bit_eq_mask)
  then show ?thesis using True assms by (simp add: unsigned_take_bit_eq)
next
  case False
  have "unat (hash AND (word_of_nat (length l) - 1)) < 2 ^ 32" using unsigned_less [of "hash AND (word_of_nat (length l) - 1)"] by simp
  also have "(2 :: nat) ^ 32 \<le> 2 ^ k" using False by (intro power_increasing) auto
  finally show ?thesis using assms by (simp add: bucket_of_def)
qed

lemma bucket_of_update [simp]: "bucket_of hash (l[b := c]) = bucket_of hash l"
  by (simp add: bucket_of_def)

lemma find_takeWhile:
  "(if length (takeWhile (\<lambda>x. \<not> P x) xs) < length xs then Some (xs ! length (takeWhile (\<lambda>x. \<not> P x) xs)) else None) = find P xs"
  by (induction xs) auto

lemma HT_Lookup_find: "HT_Lookup m key hash t = find (handle_matches m key hash) (ht_list t ! bucket_of hash (ht_list t))"
  using find_takeWhile [of "handle_matches m key hash" "ht_list t ! bucket_of hash (ht_list t)"]
  by (simp add: HT_Lookup_def FindPointer_def slot_def Let_def)

lemma chains_bucket_less: "chains_ok m l \<Longrightarrow> bucket_of hash l < length l"
  using bucket_less [of l] by (auto simp: chains_ok_def power_of_two_def)

lemma chains_okD:
  assumes "chains_ok m l" and "i < length l"
  shows "distinct (l ! i)" and "p \<in> set (l ! i) \<Longrightarrow> p \<in> dom (hh_handles m)"
    and "p \<in> set (l ! i) \<Longrightarrow> bucket_of (lh_hash (deref m p)) l = i" and "set (l ! i) \<subseteq> on_chains l"
  using assms by (auto simp: chains_ok_def on_chains_def)

lemma on_chains_dom: "chains_ok m l \<Longrightarrow> p \<in> on_chains l \<Longrightarrow> p \<in> dom (hh_handles m)"
  unfolding on_chains_def using chains_okD(2) by blast

lemma on_chains_bucket:
  assumes "chains_ok m l"
  shows "p \<in> on_chains l \<longleftrightarrow> p \<in> set (l ! bucket_of (lh_hash (deref m p)) l)"
  using chains_okD(3,4) [OF assms] chains_bucket_less [OF assms] unfolding on_chains_def by blast

lemma chains_ok_update:
  assumes ok: "chains_ok m l" and b: "b < length l" and "distinct c"
    and "\<And>p. p \<in> set c \<Longrightarrow> p \<in> dom (hh_handles m) \<and> bucket_of (lh_hash (deref m p)) l = b"
  shows "chains_ok m (l[b := c])" and "on_chains (l[b := c]) = (on_chains l - set (l ! b)) \<union> set c"
proof -
  have "distinct (l[b := c] ! i) \<and> (\<forall>p \<in> set (l[b := c] ! i). p \<in> dom (hh_handles m) \<and> bucket_of (lh_hash (deref m p)) l = i)"
    if "i < length l" for i
    using that chains_okD(1-3) [OF ok that] assms(3,4) by (cases "i = b") (simp_all del: domIff)
  then show "chains_ok m (l[b := c])" using ok by (simp add: chains_ok_def)
  have apart: "\<forall>i < length l. i \<noteq> b \<longrightarrow> (\<forall>p \<in> set (l ! i). p \<notin> set (l ! b))"
    using chains_okD(3) [OF ok b] chains_okD(3) [OF ok] by metis
  have "p \<in> set (l[b := c] ! i) \<longleftrightarrow> (i = b \<and> p \<in> set c) \<or> (i \<noteq> b \<and> p \<in> set (l ! i))" if "i < length l" for p i
    using that by (cases "i = b") simp_all
  note eq = this
  have "p \<in> on_chains (l[b := c]) \<longleftrightarrow> p \<in> set c \<or> (\<exists>i < length l. i \<noteq> b \<and> p \<in> set (l ! i))" for p
  proof -
    have "p \<in> on_chains (l[b := c]) \<longleftrightarrow> (\<exists>i < length l. p \<in> set (l[b := c] ! i))" by (simp add: on_chains_def)
    also have "\<dots> \<longleftrightarrow> (\<exists>i < length l. (i = b \<and> p \<in> set c) \<or> (i \<noteq> b \<and> p \<in> set (l ! i)))" using eq by blast
    finally show ?thesis using b by blast
  qed
  moreover have "p \<in> on_chains l \<and> p \<notin> set (l ! b) \<longleftrightarrow> (\<exists>i < length l. i \<noteq> b \<and> p \<in> set (l ! i))" for p
    using apart unfolding on_chains_def by blast
  ultimately show "on_chains (l[b := c]) = (on_chains l - set (l ! b)) \<union> set c" by blast
qed

lemma sum_length_update: "b < length l \<Longrightarrow> sum_list (map length (l[b := c])) + length (l ! b) = sum_list (map length l) + length c"
  using member_le_sum_list [of "length (l ! b)" "map length l"] by (simp add: map_update sum_list_update)

lemma HT_Lookup_Some:
  assumes "table_ok m t"
  shows "HT_Lookup m key hash t = Some p \<longleftrightarrow> p \<in> on_table t \<and> handle_id m p = (hash, key)"
proof -
  let ?b = "bucket_of hash (ht_list t)"
  have ok: "chains_ok m (ht_list t)" and inj: "inj_on (handle_id m) (on_table t)" using assms by (auto simp: table_ok_def)
  have sub: "set (ht_list t ! ?b) \<subseteq> on_table t"
    using chains_bucket_less [OF ok, of hash] unfolding on_chains_def by blast
  have match: "handle_matches m key hash q \<longleftrightarrow> handle_id m q = (hash, key)" for q
    by (auto simp: handle_matches_def Slice_eq_iff)
  have "HT_Lookup m key hash t = Some p \<Longrightarrow> p \<in> set (ht_list t ! ?b) \<and> handle_id m p = (hash, key)"
    unfolding HT_Lookup_find by (auto simp: find_Some_iff match)
  moreover have "HT_Lookup m key hash t = Some p" if p: "p \<in> on_table t" "handle_id m p = (hash, key)"
  proof -
    have "p \<in> set (ht_list t ! ?b)" using p on_chains_bucket [OF ok] by auto
    then obtain q where q: "HT_Lookup m key hash t = Some q"
      using p(2) match [of p] unfolding HT_Lookup_find by (cases "find (handle_matches m key hash) (ht_list t ! ?b)") (auto simp: find_None_iff)
    then have "q \<in> set (ht_list t ! ?b)" "handle_id m q = (hash, key)" unfolding HT_Lookup_find by (auto simp: find_Some_iff match)
    then have "q = p" using inj_onD [OF inj] p sub by auto
    then show ?thesis using q by simp
  qed
  ultimately show ?thesis using sub by blast
qed

lemma HT_Lookup_None: "table_ok m t \<Longrightarrow> HT_Lookup m key hash t = None \<longleftrightarrow> (\<forall>p \<in> on_table t. handle_id m p \<noteq> (hash, key))"
  using HT_Lookup_Some [of m t key hash] by (cases "HT_Lookup m key hash t") auto

text \<open>Changing what is not on the chains, or only counters, keeps the table.\<close>

lemma table_ok_cong:
  assumes "table_ok m t" and "\<And>p. p \<in> on_table t \<Longrightarrow> p \<in> dom (hh_handles m') \<and> handle_id m' p = handle_id m p"
  shows "table_ok m' t"
proof -
  have "chains_ok m (ht_list t)" using assms(1) by (simp add: table_ok_def)
  note ch = chains_okD [OF this] this
  have "p \<in> dom (hh_handles m') \<and> bucket_of (lh_hash (deref m' p)) (ht_list t) = b"
    if "b < length (ht_list t)" "p \<in> set (ht_list t ! b)" for b p
    using assms(2) [of p] ch(3,4) [OF that(1)] that(2) by auto
  then have "chains_ok m' (ht_list t)" using ch(1,5) by (simp add: chains_ok_def)
  moreover have "inj_on (handle_id m') (on_table t)"
    using assms by (auto simp: table_ok_def inj_on_def)
  ultimately show ?thesis using assms(1) by (simp add: table_ok_def)
qed

lemma table_ok_dom: "table_ok m t \<Longrightarrow> p \<in> on_table t \<Longrightarrow> \<exists>h. hh_handles m p = Some h"
  using on_chains_dom by (auto simp: table_ok_def)

text \<open>The state of a resized table.\<close>

lemma rehash_push_ok:
  assumes "chains_ok m l" and "p \<in> dom (hh_handles m)" and "p \<notin> on_chains l"
  shows "chains_ok m (rehash_push m l p)" and "on_chains (rehash_push m l p) = insert p (on_chains l)"
    and "sum_list (map length (rehash_push m l p)) = Suc (sum_list (map length l))" and "length (rehash_push m l p) = length l"
proof -
  let ?b = "bucket_of (lh_hash (deref m p)) l"
  have b: "?b < length l" by (rule chains_bucket_less [OF assms(1)])
  have "p \<notin> set (l ! ?b)" using chains_okD(4) [OF assms(1) b] assms(3) by blast
  then have c: "distinct (p # l ! ?b)" using chains_okD(1) [OF assms(1) b] by simp
  have c': "q \<in> dom (hh_handles m) \<and> bucket_of (lh_hash (deref m q)) l = ?b" if "q \<in> set (p # l ! ?b)" for q
    using chains_okD(2,3) [OF assms(1) b, of q] assms(2) that by (cases "q = p") (simp_all del: domIff)
  note u = chains_ok_update [OF assms(1) b c c']
  have "set (l ! ?b) \<subseteq> on_chains l" using b by (auto simp: on_chains_def)
  then show "chains_ok m (rehash_push m l p)" "on_chains (rehash_push m l p) = insert p (on_chains l)"
    using u by (auto simp: rehash_push_def Let_def)
  show "sum_list (map length (rehash_push m l p)) = Suc (sum_list (map length l))" "length (rehash_push m l p) = length l"
    using sum_length_update [OF b, of "p # l ! ?b"] by (simp_all add: rehash_push_def Let_def)
qed

lemma rehash_chain_ok:
  assumes "chains_ok m l" and "set ps \<subseteq> dom (hh_handles m)" and "distinct ps" and "set ps \<inter> on_chains l = {}"
  shows "chains_ok m (foldl (rehash_push m) l ps) \<and> on_chains (foldl (rehash_push m) l ps) = set ps \<union> on_chains l \<and>
    sum_list (map length (foldl (rehash_push m) l ps)) = length ps + sum_list (map length l) \<and> length (foldl (rehash_push m) l ps) = length l"
  using assms
proof (induction ps arbitrary: l)
  case (Cons p ps)
  have p: "p \<in> dom (hh_handles m)" "p \<notin> on_chains l" using Cons.prems by auto
  note r = rehash_push_ok [OF Cons.prems(1) p]
  have d: "set ps \<subseteq> dom (hh_handles m)" "distinct ps" "set ps \<inter> on_chains (rehash_push m l p) = {}"
    using Cons.prems r(2) by auto
  from Cons.IH [OF r(1) d] show ?case using r by simp
qed simp

lemma foldl_concat: "foldl (foldl f) a xss = foldl f a (concat xss)"
  by (induction xss arbitrary: a) simp_all

lemma new_length_loop_power: "0 < n \<Longrightarrow> \<exists>k. new_length_loop n e = n * 2 ^ k"
proof (induction n e rule: new_length_loop.induct)
  case (1 n e)
  show ?case
  proof (cases "n < e")
    case True
    then obtain k where "new_length_loop (n * 2) e = n * 2 * 2 ^ k" using 1 by auto
    then show ?thesis using True 1(2) by (subst new_length_loop.simps) (auto intro!: exI [of _ "Suc k"])
  next
    case False
    then show ?thesis by (subst new_length_loop.simps) (auto intro!: exI [of _ 0])
  qed
qed

lemma new_length_loop_ge: "0 < n \<Longrightarrow> e \<le> new_length_loop n e"
proof (induction n e rule: new_length_loop.induct)
  case (1 n e)
  then show ?case by (cases "n < e") (subst new_length_loop.simps; simp)+
qed

lemma distinct_chains:
  assumes "chains_ok m l"
  shows "distinct (concat l)" and "set (concat l) = on_chains l"
proof -
  show s: "set (concat l) = on_chains l" by (auto simp: on_chains_def set_conv_nth [of l])
  have "card (set (concat l)) = length (concat l)"
  proof -
    have dj: "set (l ! i) \<inter> set (l ! j) = {}" if "i < length l" "j < length l" "i \<noteq> j" for i j
      using chains_okD(3) [OF assms that(1)] chains_okD(3) [OF assms that(2)] that(3) by blast
    have "set (concat l) = (\<Union>i < length l. set (l ! i))" using s by (auto simp: on_chains_def)
    also have "card \<dots> = (\<Sum>i < length l. card (set (l ! i)))" using dj by (intro card_UN_disjoint) auto
    also have "\<dots> = (\<Sum>i < length l. length (l ! i))" using chains_okD(1) [OF assms] by (intro sum.cong) (simp_all add: distinct_card)
    also have "\<dots> = length (concat l)" by (simp add: length_concat sum_list_sum_nth atLeast0LessThan)
    finally show ?thesis .
  qed
  then show "distinct (concat l)" by (rule card_distinct)
qed

lemma HT_Resize_ok:
  assumes ok: "chains_ok m (ht_list t)" and "ht_elems t = sum_list (map length (ht_list t))" and "inj_on (handle_id m) (on_table t)"
  shows "table_ok m (HT_Resize m t)" and "on_table (HT_Resize m t) = on_table t"
proof -
  let ?n = "new_length_loop 4 (ht_elems t)" and ?ps = "concat (ht_list t)"
  obtain k where k: "?n = 4 * 2 ^ k" using new_length_loop_power [of 4] by auto
  then have "length (replicate ?n []) = 2 ^ (k + 2)" by simp
  then have "power_of_two (length (replicate ?n []))" unfolding power_of_two_def by blast
  then have e: "chains_ok m (replicate ?n [])" "on_chains (replicate ?n []) = {}"
    by (auto simp: chains_ok_def on_chains_def)
  have d: "set ?ps \<subseteq> dom (hh_handles m)" "set ?ps \<inter> on_chains (replicate ?n []) = {}"
    unfolding distinct_chains(2) [OF ok] e(2) using on_chains_dom [OF ok] by blast+
  note r = rehash_chain_ok [OF e(1) d(1) distinct_chains(1) [OF ok] d(2)]
  have l: "ht_list (HT_Resize m t) = foldl (rehash_push m) (replicate ?n []) ?ps" "ht_elems (HT_Resize m t) = ht_elems t"
    by (simp_all add: HT_Resize_def Let_def foldl_concat)
  show on: "on_table (HT_Resize m t) = on_table t"
    using r unfolding l distinct_chains(2) [OF ok] e(2) by simp
  have "ht_elems t \<le> ?n" by (rule new_length_loop_ge) simp
  moreover have "length ?ps = ht_elems t" using assms(2) by (simp add: length_concat)
  ultimately show "table_ok m (HT_Resize m t)"
    unfolding table_ok_def on unfolding l using r assms(3) by (simp add: sum_list_replicate del: length_concat)
qed

lemma FindPointer_spec:
  assumes "table_ok m t" and "FindPointer m key hash t = (b, i)"
  shows "b < length (ht_list t)" and "b = bucket_of hash (ht_list t)" and "slot t (b, i) = HT_Lookup m key hash t"
    and "HT_Lookup m key hash t = None \<Longrightarrow> i = length (ht_list t ! b)"
    and "HT_Lookup m key hash t = Some p \<Longrightarrow> i < length (ht_list t ! b) \<and> ht_list t ! b ! i = p"
proof -
  have b: "b = bucket_of hash (ht_list t)" and i: "i = length (takeWhile (\<lambda>p. \<not> handle_matches m key hash p) (ht_list t ! b))"
    using assms(2) by (auto simp: FindPointer_def Let_def)
  have le: "i \<le> length (ht_list t ! b)" unfolding i by (rule length_takeWhile_le)
  have look: "HT_Lookup m key hash t = slot t (b, i)" using assms(2) by (simp add: HT_Lookup_def)
  show "b = bucket_of hash (ht_list t)" by (rule b)
  show "b < length (ht_list t)" using assms(1) unfolding b table_ok_def by (auto intro: chains_bucket_less)
  show "slot t (b, i) = HT_Lookup m key hash t" by (rule look [symmetric])
  show "HT_Lookup m key hash t = None \<Longrightarrow> i = length (ht_list t ! b)"
    "HT_Lookup m key hash t = Some p \<Longrightarrow> i < length (ht_list t ! b) \<and> ht_list t ! b ! i = p"
    using le unfolding look by (simp_all add: slot_def split: if_splits)
qed

text \<open>Inserting replaces the entry with the same key.\<close>

lemma HT_Insert_ok:
  assumes ok: "table_ok m t" and h: "h \<in> dom (hh_handles m)" "h \<notin> on_table t"
  obtains old t' where "HT_Insert m h t = (old, t')" and "old = HT_Lookup m (lh_key (deref m h)) (lh_hash (deref m h)) t"
    and "table_ok m t'" and "on_table t' = insert h (on_table t - set_option old)"
proof -
  let ?l = "ht_list t" and ?old = "HT_Lookup m (lh_key (deref m h)) (lh_hash (deref m h)) t"
  have ch: "chains_ok m ?l" and el: "ht_elems t = sum_list (map length ?l)" "ht_elems t \<le> length ?l"
    and inj: "inj_on (handle_id m) (on_table t)" using ok by (auto simp: table_ok_def)
  obtain b i where f: "FindPointer m (lh_key (deref m h)) (lh_hash (deref m h)) t = (b, i)" by fastforce
  note b = FindPointer_spec(1,2) [OF ok f] and old = FindPointer_spec(3-5) [OF ok f]
  have chain: "distinct (?l ! b)" "\<And>p. p \<in> set (?l ! b) \<Longrightarrow> p \<in> dom (hh_handles m) \<and> bucket_of (lh_hash (deref m p)) ?l = b"
      "set (?l ! b) \<subseteq> on_table t"
    using chains_okD [OF ch b(1)] by blast+
  have inj': "inj_on (handle_id m) (insert h (on_table t - set_option ?old))"
    using inj HT_Lookup_Some [OF ok] HT_Lookup_None [OF ok] by (cases ?old) (auto simp: inj_on_def)
  show thesis
  proof (cases ?old)
    case (Some p)
    let ?c = "(?l ! b)[i := h]"
    have p: "i < length (?l ! b)" "?l ! b ! i = p" using old Some by auto
    have sc: "set ?c = insert h (set (?l ! b) - {p})"
      using set_update_distinct [OF chain(1) p(1)] p(2) by simp
    have hc: "h \<notin> set (?l ! b)" using chain(3) h(2) by blast
    have c: "distinct ?c" using chain(1) hc by (simp add: distinct_list_update)
    have c': "q \<in> dom (hh_handles m) \<and> bucket_of (lh_hash (deref m q)) ?l = b" if "q \<in> set ?c" for q
      using that sc chain(2) h(1) b(2) by auto
    note u = chains_ok_update [OF ch b(1) c c']
    have on: "on_chains (?l[b := ?c]) = insert h (on_table t - {p})"
      using u(2) sc chain(3) p nth_mem by fastforce
    have "sum_list (map length (?l[b := ?c])) = sum_list (map length ?l)" using sum_length_update [OF b(1), of ?c] by simp
    then have "table_ok m (t\<lparr>ht_list := ?l[b := ?c]\<rparr>)"
      using u(1) el inj' on Some by (simp add: table_ok_def)
    moreover have "HT_Insert m h t = (?old, t\<lparr>ht_list := ?l[b := ?c]\<rparr>)" using f old(1) Some by (simp add: HT_Insert_def Let_def)
    ultimately show thesis using that Some on by simp
  next
    case None
    let ?c = "?l ! b @ [h]" and ?t = "t\<lparr>ht_list := ?l[b := ?l ! b @ [h]], ht_elems := ht_elems t + 1\<rparr>"
    have c: "distinct ?c" using chain(1,3) h(2) by auto
    have c': "q \<in> dom (hh_handles m) \<and> bucket_of (lh_hash (deref m q)) ?l = b" if "q \<in> set ?c" for q
      using that chain(2) h(1) b(2) by auto
    note u = chains_ok_update [OF ch b(1) c c']
    have on: "on_table ?t = insert h (on_table t)" using u(2) chain(3) by auto
    have sl: "ht_elems ?t = sum_list (map length (ht_list ?t))" using sum_length_update [OF b(1), of ?c] el(1) by simp
    have i: "HT_Insert m h t = (?old, if length (ht_list ?t) < ht_elems ?t then HT_Resize m ?t else ?t)"
      using f old(1) None by (simp add: HT_Insert_def Let_def)
    have r: "table_ok m (HT_Resize m ?t)" "on_table (HT_Resize m ?t) = on_table ?t"
      using HT_Resize_ok [of m ?t] u(1) sl inj' on None by simp_all
    have "table_ok m ?t" if "\<not> length (ht_list ?t) < ht_elems ?t"
      using that u(1) sl inj' on None by (simp add: table_ok_def)
    then show thesis using that [OF i] r on None by (cases "length (ht_list ?t) < ht_elems ?t") simp_all
  qed
qed

lemma HT_Remove_ok:
  assumes ok: "table_ok m t"
  obtains t' where "HT_Remove m key hash t = (HT_Lookup m key hash t, t')" and "table_ok m t'"
    and "on_table t' = on_table t - set_option (HT_Lookup m key hash t)"
proof (cases "HT_Lookup m key hash t")
  case None
  obtain b i where f: "FindPointer m key hash t = (b, i)" by fastforce
  note FindPointer_spec(3) [OF ok f]
  then show thesis using that [of t] ok f None by (simp add: HT_Remove_def)
next
  case (Some p)
  let ?l = "ht_list t"
  have ch: "chains_ok m ?l" and el: "ht_elems t = sum_list (map length ?l)" "ht_elems t \<le> length ?l"
    and inj: "inj_on (handle_id m) (on_table t)" using ok by (auto simp: table_ok_def)
  obtain b i where f: "FindPointer m key hash t = (b, i)" by fastforce
  note b = FindPointer_spec(1) [OF ok f]
  have old: "slot t (b, i) = Some p" "i < length (?l ! b)" "?l ! b ! i = p"
    using FindPointer_spec(3,5) [OF ok f] Some by auto
  let ?c = "take i (?l ! b) @ drop (Suc i) (?l ! b)" and ?t = "t\<lparr>ht_list := ?l[b := take i (?l ! b) @ drop (Suc i) (?l ! b)], ht_elems := ht_elems t - 1\<rparr>"
  have chain: "distinct (?l ! b)" "\<And>p. p \<in> set (?l ! b) \<Longrightarrow> p \<in> dom (hh_handles m) \<and> bucket_of (lh_hash (deref m p)) ?l = b"
      "set (?l ! b) \<subseteq> on_table t"
    using chains_okD [OF ch b] by blast+
  have split: "?l ! b = take i (?l ! b) @ p # drop (Suc i) (?l ! b)" using id_take_nth_drop [OF old(2)] old(3) by simp
  then have d: "distinct (take i (?l ! b) @ p # drop (Suc i) (?l ! b))" using chain(1) by simp
  have sc: "set ?c = set (?l ! b) - {p}" using d by (subst (3) split) auto
  have c: "distinct ?c" using d by simp
  have c': "q \<in> dom (hh_handles m) \<and> bucket_of (lh_hash (deref m q)) ?l = b" if "q \<in> set ?c" for q
    using that unfolding sc using chain(2) by blast
  note u = chains_ok_update [OF ch b c c']
  have on: "on_table ?t = on_table t - {p}" using u(2) sc chain(3) old(2,3) nth_mem by fastforce
  have "length (?l ! b) = Suc (length ?c)" using old(2) by simp
  then have "sum_list (map length (?l[b := ?c])) = sum_list (map length ?l) - 1" using sum_length_update [OF b, of ?c] by linarith
  then have "table_ok m ?t"
    using u(1) el inj_on_subset [OF inj, of "on_table t - {p}"] on by (simp add: table_ok_def)
  moreover have "HT_Remove m key hash t = (Some p, ?t)" using f old(1) by (simp add: HT_Remove_def Let_def)
  ultimately show thesis using that Some on by simp
qed

section \<open>The invariant of a shard\<close>

text \<open>
  A shard owns the handles whose hash it is responsible for. Those in the cache are in the hash table and
  on one of the two lists: on the LRU list with only the cache's own reference, on the in-use list with
  references of clients.
\<close>

definition handles_ok :: "(u32 \<Rightarrow> bool) \<Rightarrow> LRUCache \<Rightarrow> 'v handle_heap \<Rightarrow> bool" where
  "handles_ok own c m \<longleftrightarrow>
     (\<forall>p h. hh_handles m p = Some h \<longrightarrow>
        p < hh_next m \<and>
        (own (lh_hash h) \<longrightarrow>
           1 \<le> lh_refs h \<and> (lh_in_cache h \<longleftrightarrow> p \<in> set (lc_lru c) \<union> set (lc_in_use c)) \<and>
           (p \<in> set (lc_lru c) \<longrightarrow> lh_refs h = 1) \<and> (p \<in> set (lc_in_use c) \<longrightarrow> 2 \<le> lh_refs h)))"

definition lists_ok :: "(u32 \<Rightarrow> bool) \<Rightarrow> nat set \<Rightarrow> LRUCache \<Rightarrow> 'v handle_heap \<Rightarrow> bool" where
  "lists_ok own S c m \<longleftrightarrow>
     distinct (lc_lru c) \<and> distinct (lc_in_use c) \<and> set (lc_lru c) \<inter> set (lc_in_use c) = {} \<and>
     set (lc_lru c) \<union> set (lc_in_use c) = S \<and>
     (\<forall>p \<in> S. own (lh_hash (deref m p)))"

definition charge_of :: "nat set \<Rightarrow> 'v handle_heap \<Rightarrow> u64" where
  "charge_of S m = (\<Sum>p \<in> S. lh_charge (deref m p))"

definition lru_inv :: "(u32 \<Rightarrow> bool) \<Rightarrow> 'v cache_state \<Rightarrow> bool" where
  "lru_inv own s \<longleftrightarrow>
     (case s of (c, m) \<Rightarrow>
        table_ok m (lc_table c) \<and> lists_ok own (on_table (lc_table c)) c m \<and> handles_ok own c m \<and>
        lc_usage c = charge_of (on_table (lc_table c)) m)"

text \<open>The clients' references to a handle.\<close>

definition clients :: "'v LRUHandle \<Rightarrow> nat" where
  "clients h = lh_refs h - (if lh_in_cache h then 1 else 0)"

lemma lru_invD:
  assumes "lru_inv own (c, m)"
  shows "table_ok m (lc_table c)" "lists_ok own (on_table (lc_table c)) c m" "handles_ok own c m"
    "lc_usage c = charge_of (on_table (lc_table c)) m"
  using assms by (simp_all add: lru_inv_def)

lemma charge_of_cong:
  "(\<And>p. p \<in> S \<Longrightarrow> lh_charge (deref m' p) = lh_charge (deref m p)) \<Longrightarrow> charge_of S m' = charge_of S m"
  by (simp add: charge_of_def)

lemma finite_on_table [simp]: "finite (on_table t)"
proof -
  have "on_table t = (\<Union>b < length (ht_list t). set (ht_list t ! b))" by (auto simp: on_chains_def)
  then show ?thesis by simp
qed

lemma handles_okD:
  assumes "handles_ok own c m" and "hh_handles m e = Some h" and "own (lh_hash h)"
  shows "1 \<le> lh_refs h" and "lh_in_cache h \<longleftrightarrow> e \<in> set (lc_lru c) \<union> set (lc_in_use c)"
    and "e \<in> set (lc_lru c) \<longrightarrow> lh_refs h = 1" and "e \<in> set (lc_in_use c) \<longrightarrow> 2 \<le> lh_refs h" and "e < hh_next m"
  using assms unfolding handles_ok_def by blast+

text \<open>A change of the references of one handle.\<close>

lemma LRU_Ref_inv:
  assumes inv: "lru_inv own (c, m)" and e: "hh_handles m e = Some h" "own (lh_hash h)"
  shows "\<exists>c'. LRU_Ref e (c, m) = (c', m\<lparr>hh_handles := (hh_handles m)(e \<mapsto> h\<lparr>lh_refs := lh_refs h + 1\<rparr>)\<rparr>) \<and>
    lc_table c' = lc_table c \<and> lc_capacity c' = lc_capacity c \<and>
    lru_inv own (c', m\<lparr>hh_handles := (hh_handles m)(e \<mapsto> h\<lparr>lh_refs := lh_refs h + 1\<rparr>)\<rparr>)"
proof -
  let ?m = "m\<lparr>hh_handles := (hh_handles m)(e \<mapsto> h\<lparr>lh_refs := lh_refs h + 1\<rparr>)\<rparr>"
  let ?c = "if lh_refs h = 1 \<and> lh_in_cache h then LRU_Append_in_use e (LRU_Remove e c) else c"
  note i = lru_invD [OF inv]
  note hd = handles_okD [OF i(3) e]
  have t: "lc_table ?c = lc_table c" "lc_usage ?c = lc_usage c" "lc_capacity ?c = lc_capacity c"
    by (simp_all add: LRU_Append_in_use_def LRU_Remove_def)
  have "table_ok ?m (lc_table c)" by (rule table_ok_cong [OF i(1)]) (use e table_ok_dom [OF i(1)] in auto)
  moreover have "lc_usage c = charge_of (on_table (lc_table c)) ?m" unfolding i(4) by (rule charge_of_cong) (use e in auto)
  moreover have "lists_ok own (on_table (lc_table c)) ?c ?m"
    using i(2) hd e by (auto simp: lists_ok_def LRU_Append_in_use_def LRU_Remove_def)
  moreover have "handles_ok own ?c ?m"
    using i(3,2) hd unfolding handles_ok_def lists_ok_def by (auto simp: LRU_Append_in_use_def LRU_Remove_def)
  ultimately have "lru_inv own (?c, ?m)" unfolding lru_inv_def prod.case t by blast
  moreover have "LRU_Ref e (c, m) = (?c, ?m)" using e by (simp add: LRU_Ref_def Let_def)
  ultimately show ?thesis using t by blast
qed

lemma LRU_Unref_inv:
  assumes inv: "lru_inv own (c, m)" and e: "hh_handles m e = Some h" "own (lh_hash h)" and held: "1 \<le> clients h"
  shows "\<exists>c' m'. LRU_Unref e (c, m) = (c', m') \<and> lru_inv own (c', m') \<and> lc_table c' = lc_table c \<and> lc_capacity c' = lc_capacity c \<and>
    hh_next m' = hh_next m \<and>
    hh_handles m' = (hh_handles m)(e := (if lh_refs h = 1 then None else Some (h\<lparr>lh_refs := lh_refs h - 1\<rparr>)))"
proof -
  note i = lru_invD [OF inv]
  note hd = handles_okD [OF i(3) e]
  have in_use: "lh_in_cache h \<Longrightarrow> e \<in> set (lc_in_use c) \<and> 2 \<le> lh_refs h" using held hd by (auto simp: clients_def)
  have on: "e \<in> on_table (lc_table c) \<longleftrightarrow> lh_in_cache h" using i(2) hd(2) by (auto simp: lists_ok_def)
  show ?thesis
  proof (cases "lh_refs h = 1")
    case True
    then have nc: "\<not> lh_in_cache h" using in_use by auto
    let ?m = "m\<lparr>hh_handles := (hh_handles m)(e := None), hh_deleted := hh_deleted m @ [(lh_key h, lh_value h)]\<rparr>"
    have "table_ok ?m (lc_table c)" by (rule table_ok_cong [OF i(1)]) (use on nc table_ok_dom [OF i(1)] in auto)
    moreover have "lc_usage c = charge_of (on_table (lc_table c)) ?m" unfolding i(4) by (rule charge_of_cong) (use on nc in auto)
    moreover have "lists_ok own (on_table (lc_table c)) c ?m" using i(2) on nc by (auto simp: lists_ok_def)
    moreover have "handles_ok own c ?m" using i(3) by (auto simp: handles_ok_def)
    ultimately have "lru_inv own (c, ?m)" by (simp add: lru_inv_def)
    moreover have "LRU_Unref e (c, m) = (c, ?m)" using e True by (simp add: LRU_Unref_def Let_def)
    ultimately show ?thesis using True by simp
  next
    case False
    let ?m = "m\<lparr>hh_handles := (hh_handles m)(e \<mapsto> h\<lparr>lh_refs := lh_refs h - 1\<rparr>)\<rparr>"
    let ?c = "if lh_in_cache h \<and> lh_refs h = 2 then LRU_Append_lru e (LRU_Remove e c) else c"
    have t: "lc_table ?c = lc_table c" "lc_usage ?c = lc_usage c" "lc_capacity ?c = lc_capacity c"
      by (simp_all add: LRU_Append_lru_def LRU_Remove_def)
    have "table_ok ?m (lc_table c)" by (rule table_ok_cong [OF i(1)]) (use e table_ok_dom [OF i(1)] in auto)
    moreover have "lc_usage c = charge_of (on_table (lc_table c)) ?m" unfolding i(4) by (rule charge_of_cong) (use e in auto)
    moreover have "lists_ok own (on_table (lc_table c)) ?c ?m"
      using i(2) hd e in_use by (auto simp: lists_ok_def LRU_Append_lru_def LRU_Remove_def)
    moreover have "handles_ok own ?c ?m"
      using i(3,2) hd False in_use unfolding handles_ok_def lists_ok_def by (auto simp: LRU_Append_lru_def LRU_Remove_def)
    ultimately have "lru_inv own (?c, ?m)" unfolding lru_inv_def prod.case t by blast
    moreover have "LRU_Unref e (c, m) = (?c, ?m)"
      using e hd(1) False by (auto simp: LRU_Unref_def Let_def)
    ultimately show ?thesis using t False by auto
  qed
qed

text \<open>What leaves the hash table, with the handle's new state.\<close>

lemma charge_of_remove:
  assumes "p \<in> S" and "finite S" and "\<And>q. q \<in> S - {p} \<Longrightarrow> lh_charge (deref m' q) = lh_charge (deref m q)"
  shows "charge_of (S - {p}) m' = charge_of S m - lh_charge (deref m p)"
proof -
  have "charge_of (S - {p}) m' = (\<Sum>q \<in> S - {p}. lh_charge (deref m q))" using assms(3) by (simp add: charge_of_def)
  also have "\<dots> = charge_of S m - lh_charge (deref m p)"
    unfolding charge_of_def using sum.remove [OF assms(2,1), of "\<lambda>q. lh_charge (deref m q)"] by simp
  finally show ?thesis .
qed

definition erased :: "'v LRUHandle \<Rightarrow> 'v LRUHandle option" where
  "erased h = (if lh_refs h = 1 then None else Some (h\<lparr>lh_in_cache := False, lh_refs := lh_refs h - 1\<rparr>))"

lemma LRU_FinishErase_inv:
  assumes i: "lists_ok own S c0 m" "handles_ok own c0 m" and tab: "table_ok m (lc_table c0)" "on_table (lc_table c0) = S - {e}"
    and e: "e \<in> S" "finite S" "hh_handles m e = Some h" and u: "lc_usage c0 = charge_of S m"
  shows "\<exists>c' m'. LRU_FinishErase (Some e) (c0, m) = (True, c', m') \<and> lru_inv own (c', m') \<and> lc_table c' = lc_table c0 \<and>
    lc_capacity c' = lc_capacity c0 \<and> hh_next m' = hh_next m \<and> hh_handles m' = (hh_handles m)(e := erased h) \<and>
    lc_lru c' = remove1 e (lc_lru c0)"
proof -
  let ?c = "(LRU_Remove e (c0))\<lparr>lc_usage := lc_usage c0 - lh_charge h\<rparr>"
  let ?m = "m\<lparr>hh_handles := (hh_handles m)(e := erased h),
      hh_deleted := (if lh_refs h = 1 then hh_deleted m @ [(lh_key h, lh_value h)] else hh_deleted m)\<rparr>"
  have "own (lh_hash (deref m e))" using i(1) e(1) by (simp add: lists_ok_def)
  then have own: "own (lh_hash h)" using e(3) by simp
  note hd = handles_okD [OF i(2) e(3) own]
  have on: "lh_in_cache h" using hd(2) e(1) i(1) by (auto simp: lists_ok_def)
  have step: "LRU_FinishErase (Some e) (c0, m) = (True, ?c, ?m)"
    using e(3) hd(1) by (auto simp: LRU_FinishErase_def LRU_Unref_def LRU_Remove_def erased_def Let_def)
  have off: "e \<notin> on_table (lc_table c0)" using tab(2) by simp
  have same: "hh_handles ?m q = hh_handles m q" if "q \<noteq> e" for q using that by simp
  have "table_ok ?m (lc_table c0)"
    by (rule table_ok_cong [OF tab(1)]) (use off table_ok_dom [OF tab(1)] in auto)
  moreover have "lists_ok own (on_table (lc_table c0)) ?c ?m"
    using i(1) tab(2) off by (auto simp: lists_ok_def LRU_Remove_def)
  moreover have "handles_ok own ?c ?m"
    using i(2,1) hd unfolding handles_ok_def lists_ok_def by (auto simp: LRU_Remove_def erased_def split: if_splits)
  moreover have "charge_of (S - {e}) ?m = charge_of S m - lh_charge (deref m e)"
    by (rule charge_of_remove [OF e(1,2)]) auto
  ultimately have "lru_inv own (?c, ?m)" using u e(3) tab(2) by (simp add: lru_inv_def LRU_Remove_def)
  then show ?thesis using step by (simp add: LRU_Remove_def)
qed

lemma LRU_Erase_inv:
  assumes inv: "lru_inv own (c, m)"
  shows "\<exists>c' m'. LRU_Erase key hash (c, m) = (c', m') \<and> lru_inv own (c', m') \<and> lc_capacity c' = lc_capacity c \<and> hh_next m' = hh_next m \<and>
    on_table (lc_table c') = on_table (lc_table c) - set_option (HT_Lookup m key hash (lc_table c)) \<and>
    (case HT_Lookup m key hash (lc_table c) of
       None \<Rightarrow> c' = c \<and> m' = m
     | Some e \<Rightarrow> hh_handles m' = (hh_handles m)(e := erased (deref m e)) \<and> lc_lru c' = remove1 e (lc_lru c))"
proof -
  note i = lru_invD [OF inv]
  obtain t' where t': "HT_Remove m key hash (lc_table c) = (HT_Lookup m key hash (lc_table c), t')" "table_ok m t'"
      "on_table t' = on_table (lc_table c) - set_option (HT_Lookup m key hash (lc_table c))"
    by (rule HT_Remove_ok [OF i(1)])
  show ?thesis
  proof (cases "HT_Lookup m key hash (lc_table c)")
    case None
    then have "t' = lc_table c"
      using t'(1) FindPointer_spec(3) [OF i(1)] by (auto simp: HT_Remove_def split: prod.splits option.splits)
    then show ?thesis using None inv t'(1) by (simp add: LRU_Erase_def LRU_FinishErase_def)
  next
    case (Some e)
    then have e: "e \<in> on_table (lc_table c)" using HT_Lookup_Some [OF i(1)] by blast
    then obtain h where h: "hh_handles m e = Some h" using table_ok_dom [OF i(1)] by blast
    show ?thesis
      using LRU_FinishErase_inv [of own "on_table (lc_table c)" "c\<lparr>lc_table := t'\<rparr>" m e h] i(2-4) e h t' Some
      by (auto simp: LRU_Erase_def lists_ok_def handles_ok_def)
  qed
qed

text \<open>The body of the eviction loop removes the oldest unreferenced entry.\<close>

lemma evict_oldest_inv:
  assumes inv: "lru_inv own (c, m)" and ne: "lc_lru c \<noteq> []"
  shows "\<exists>c' m'. evict_oldest (c, m) = (c', m') \<and> lru_inv own (c', m') \<and> lc_capacity c' = lc_capacity c \<and> hh_next m' = hh_next m \<and>
    on_table (lc_table c') = on_table (lc_table c) - {hd (lc_lru c)} \<and> hh_handles m' = (hh_handles m)(hd (lc_lru c) := None) \<and>
    lc_lru c' = tl (lc_lru c)"
proof -
  let ?e = "hd (lc_lru c)"
  note i = lru_invD [OF inv]
  have l: "?e \<in> set (lc_lru c)" using ne by simp
  then have e: "?e \<in> on_table (lc_table c)" using i(2) by (auto simp: lists_ok_def)
  then obtain h where h: "hh_handles m ?e = Some h" using table_ok_dom [OF i(1)] by blast
  have "own (lh_hash h)" using i(2) e h by (auto simp: lists_ok_def)
  then have "lh_refs h = 1" using handles_okD(3) [OF i(3) h] l by blast
  then have er: "erased h = None" by (simp add: erased_def)
  have look: "HT_Lookup m (lh_key h) (lh_hash h) (lc_table c) = Some ?e" using HT_Lookup_Some [OF i(1)] e h by simp
  have "remove1 ?e (lc_lru c) = tl (lc_lru c)" using ne by (cases "lc_lru c") auto
  then show ?thesis
    using LRU_Erase_inv [OF inv, of "lh_key h" "lh_hash h"] look h er by (auto simp: evict_oldest_def Let_def)
qed

lemma evict_loop_inv:
  assumes "lru_inv own (c, m)"
  shows "\<exists>c' m'. evict_loop (c, m) = Some (c', m') \<and> lru_inv own (c', m') \<and> lc_capacity c' = lc_capacity c \<and> hh_next m' = hh_next m \<and>
    on_table (lc_table c') \<subseteq> on_table (lc_table c) \<and> on_table (lc_table c) - on_table (lc_table c') \<subseteq> set (lc_lru c) \<and>
    hh_handles m' = (\<lambda>p. if p \<in> on_table (lc_table c) - on_table (lc_table c') then None else hh_handles m p) \<and>
    (lc_usage c' \<le> lc_capacity c' \<or> lc_lru c' = [])"
  using assms
proof (induction "length (lc_lru c)" arbitrary: c m)
  case 0
  then show ?case by (subst evict_loop.simps) simp
next
  case (Suc n)
  show ?case
  proof (cases "lc_capacity c < lc_usage c")
    case True
    have ne: "lc_lru c \<noteq> []" using Suc.hyps(2) by auto
    obtain c1 m1 where 1: "evict_oldest (c, m) = (c1, m1)" "lru_inv own (c1, m1)" "lc_capacity c1 = lc_capacity c" "hh_next m1 = hh_next m"
        "on_table (lc_table c1) = on_table (lc_table c) - {hd (lc_lru c)}" "hh_handles m1 = (hh_handles m)(hd (lc_lru c) := None)"
        "lc_lru c1 = tl (lc_lru c)"
      using evict_oldest_inv [OF Suc.prems ne] by blast
    have "n = length (lc_lru c1)" using Suc.hyps(2) 1(7) by simp
    from Suc.hyps(1) [OF this 1(2)] obtain c2 m2 where 2: "evict_loop (c1, m1) = Some (c2, m2)" "lru_inv own (c2, m2)"
        "lc_capacity c2 = lc_capacity c1" "hh_next m2 = hh_next m1" "on_table (lc_table c2) \<subseteq> on_table (lc_table c1)"
        "on_table (lc_table c1) - on_table (lc_table c2) \<subseteq> set (lc_lru c1)"
        "hh_handles m2 = (\<lambda>p. if p \<in> on_table (lc_table c1) - on_table (lc_table c2) then None else hh_handles m1 p)"
        "lc_usage c2 \<le> lc_capacity c2 \<or> lc_lru c2 = []" by blast
    have l: "hd (lc_lru c) \<in> set (lc_lru c)" "set (tl (lc_lru c)) \<subseteq> set (lc_lru c)" using ne by (auto dest: list.set_sel)
    then have "hd (lc_lru c) \<in> on_table (lc_table c)" using lru_invD(2) [OF Suc.prems] by (auto simp: lists_ok_def)
    then have "hh_handles m2 = (\<lambda>p. if p \<in> on_table (lc_table c) - on_table (lc_table c2) then None else hh_handles m p)"
      using 2(5,7) 1(5,6) by (auto simp: fun_eq_iff)
    moreover have "evict_loop (c, m) = Some (c2, m2)" using True ne 1(1) 2(1) by (subst evict_loop.simps) simp
    ultimately show ?thesis using 1 2 l by auto
  next
    case False
    then have "evict_loop (c, m) = Some (c, m)" by (subst evict_loop.simps) simp
    then show ?thesis using Suc.prems False by (auto simp: not_less)
  qed
qed

text \<open>Pruning removes everything that no client holds.\<close>

lemma LRU_Prune_inv:
  assumes "lru_inv own (c, m)"
  shows "\<exists>c' m'. LRU_Prune (c, m) = Some (c', m') \<and> lru_inv own (c', m') \<and> lc_capacity c' = lc_capacity c \<and> hh_next m' = hh_next m \<and>
    lc_lru c' = [] \<and> on_table (lc_table c') = on_table (lc_table c) - set (lc_lru c) \<and>
    hh_handles m' = (\<lambda>p. if p \<in> set (lc_lru c) then None else hh_handles m p)"
  using assms
proof (induction "length (lc_lru c)" arbitrary: c m)
  case 0
  then show ?case by (subst LRU_Prune.simps) simp
next
  case (Suc n)
  have ne: "lc_lru c \<noteq> []" using Suc.hyps(2) by auto
  obtain c1 m1 where 1: "evict_oldest (c, m) = (c1, m1)" "lru_inv own (c1, m1)" "lc_capacity c1 = lc_capacity c" "hh_next m1 = hh_next m"
      "on_table (lc_table c1) = on_table (lc_table c) - {hd (lc_lru c)}" "hh_handles m1 = (hh_handles m)(hd (lc_lru c) := None)"
      "lc_lru c1 = tl (lc_lru c)"
    using evict_oldest_inv [OF Suc.prems ne] by blast
  have "n = length (lc_lru c1)" using Suc.hyps(2) 1(7) by simp
  from Suc.hyps(1) [OF this 1(2)] obtain c2 m2 where 2: "LRU_Prune (c1, m1) = Some (c2, m2)" "lru_inv own (c2, m2)"
      "lc_capacity c2 = lc_capacity c1" "hh_next m2 = hh_next m1" "lc_lru c2 = []"
      "on_table (lc_table c2) = on_table (lc_table c1) - set (lc_lru c1)"
      "hh_handles m2 = (\<lambda>p. if p \<in> set (lc_lru c1) then None else hh_handles m1 p)" by blast
  have l: "set (lc_lru c) = insert (hd (lc_lru c)) (set (tl (lc_lru c)))" using ne by (cases "lc_lru c") auto
  have "LRU_Prune (c, m) = Some (c2, m2)" using ne 1(1) 2(1) by (subst LRU_Prune.simps) simp
  moreover have "hh_handles m2 = (\<lambda>p. if p \<in> set (lc_lru c) then None else hh_handles m p)"
    using 2(7) 1(6,7) l by (auto simp: fun_eq_iff)
  ultimately show ?case using 1 2 l by auto
qed

text \<open>The entry of an insertion, with a reference for the client and one for the cache.\<close>

abbreviation new_handle :: "bytes \<Rightarrow> u32 \<Rightarrow> 'v \<Rightarrow> u64 \<Rightarrow> bool \<Rightarrow> 'v LRUHandle" where
  "new_handle key hash value charge b \<equiv>
     \<lparr>lh_value = value, lh_charge = charge, lh_key = key, lh_in_cache = b, lh_refs = (if b then 2 else 1), lh_hash = hash\<rparr>"

definition replaced :: "'v handle_heap \<Rightarrow> nat option \<Rightarrow> nat \<rightharpoonup> 'v LRUHandle" where
  "replaced m p = (case p of None \<Rightarrow> hh_handles m | Some e \<Rightarrow> (hh_handles m)(e := erased (deref m e)))"

lemma insert_entry_uncached:
  assumes inv: "lru_inv own (c, m)" and own: "own hash" and cap: "lc_capacity c = 0"
  shows "\<exists>m'. insert_entry key hash value charge (c, m) = (hh_next m, c, m') \<and> lru_inv own (c, m') \<and> hh_next m' = hh_next m + 1 \<and>
    hh_handles m' = (hh_handles m)(hh_next m \<mapsto> new_handle key hash value charge False)"
proof -
  let ?e = "hh_next m"
  let ?m = "m\<lparr>hh_next := ?e + 1, hh_handles := (hh_handles m)(?e \<mapsto> new_handle key hash value charge False)\<rparr>"
  note i = lru_invD [OF inv]
  have fresh: "hh_handles m ?e = None" using i(3) by (cases "hh_handles m ?e") (auto simp: handles_ok_def)
  then have off: "?e \<notin> on_table (lc_table c)" using table_ok_dom [OF i(1)] by force
  have "table_ok ?m (lc_table c)" by (rule table_ok_cong [OF i(1)]) (use off table_ok_dom [OF i(1)] in auto)
  moreover have "charge_of (on_table (lc_table c)) ?m = charge_of (on_table (lc_table c)) m" by (rule charge_of_cong) (use off in auto)
  moreover have "lists_ok own (on_table (lc_table c)) c ?m" using i(2) off by (auto simp: lists_ok_def)
  moreover have "handles_ok own c ?m"
    using i(3,2) off unfolding handles_ok_def lists_ok_def by (auto simp: less_Suc_eq)
  ultimately have "lru_inv own (c, ?m)" using i(4) by (simp add: lru_inv_def)
  moreover have "insert_entry key hash value charge (c, m) = (?e, c, ?m)" using cap by (simp add: insert_entry_def Let_def)
  ultimately show ?thesis by simp
qed

lemma insert_entry_cached:
  assumes inv: "lru_inv own (c, m)" and own: "own hash" and cap: "0 < lc_capacity c"
  shows "\<exists>c' m'. insert_entry key hash value charge (c, m) = (hh_next m, c', m') \<and> lru_inv own (c', m') \<and>
    lc_capacity c' = lc_capacity c \<and> hh_next m' = hh_next m + 1 \<and>
    on_table (lc_table c') = insert (hh_next m) (on_table (lc_table c) - set_option (HT_Lookup m key hash (lc_table c))) \<and>
    hh_handles m' = (replaced m (HT_Lookup m key hash (lc_table c)))(hh_next m \<mapsto> new_handle key hash value charge True)"
proof -
  let ?e = "hh_next m" and ?S = "insert (hh_next m) (on_table (lc_table c))"
  let ?m = "m\<lparr>hh_next := ?e + 1, hh_handles := (hh_handles m)(?e \<mapsto> new_handle key hash value charge True)\<rparr>"
  let ?old = "HT_Lookup m key hash (lc_table c)"
  note i = lru_invD [OF inv]
  have fresh: "hh_handles m ?e = None" using i(3) by (cases "hh_handles m ?e") (auto simp: handles_ok_def)
  then have off: "?e \<notin> on_table (lc_table c)" using table_ok_dom [OF i(1)] by force
  have tab: "table_ok ?m (lc_table c)" by (rule table_ok_cong [OF i(1)]) (use off table_ok_dom [OF i(1)] in auto)
  have "HT_Lookup ?m key hash (lc_table c) = Some p \<longleftrightarrow> ?old = Some p" for p
    unfolding HT_Lookup_Some [OF i(1)] HT_Lookup_Some [OF tab] using off by auto
  then have look: "HT_Lookup ?m key hash (lc_table c) = ?old" by (rule option_eqI)
  obtain t' where t': "HT_Insert ?m ?e (lc_table c) = (?old, t')" "table_ok ?m t'" "on_table t' = insert ?e (on_table (lc_table c) - set_option ?old)"
    by (rule HT_Insert_ok [OF tab, of ?e]) (use off look in auto)
  let ?c = "c\<lparr>lc_in_use := lc_in_use c @ [?e], lc_usage := lc_usage c + charge, lc_table := t'\<rparr>"
  have step: "insert_entry key hash value charge (c, m) = (?e, snd (LRU_FinishErase ?old (?c, ?m)))"
    using cap t'(1) by (simp add: insert_entry_def LRU_Append_in_use_def Let_def numeral_2_eq_2)
  have lists: "lists_ok own ?S ?c ?m" using i(2) off own by (auto simp: lists_ok_def)
  have handles: "handles_ok own ?c ?m"
    using i(3,2) off unfolding handles_ok_def lists_ok_def by (auto simp: less_Suc_eq)
  have "charge_of (on_table (lc_table c)) ?m = charge_of (on_table (lc_table c)) m" by (rule charge_of_cong) (use off in auto)
  then have usage: "lc_usage ?c = charge_of ?S ?m" using i(4) off by (simp add: charge_of_def)
  show ?thesis
  proof (cases ?old)
    case None
    then have "lru_inv own (?c, ?m)" using t'(2,3) lists handles usage by (simp add: lru_inv_def)
    then show ?thesis using step None t'(3) by (simp add: LRU_FinishErase_def replaced_def)
  next
    case (Some p)
    then have p: "p \<in> on_table (lc_table c)" "p \<noteq> ?e" using HT_Lookup_Some [OF i(1)] off by auto
    then obtain h where h: "hh_handles m p = Some h" using table_ok_dom [OF i(1)] by blast
    have "on_table (lc_table ?c) = ?S - {p}" using t'(3) Some p(2) by auto
    then show ?thesis
      using LRU_FinishErase_inv [OF lists handles _ _ _ _ _ usage, of p h] t'(2,3) p h step Some
      by (auto simp: replaced_def fun_upd_twist [OF p(2)])
  qed
qed

text \<open>An insertion as a whole: a new handle, the old entry of the key erased, and old entries evicted.\<close>

lemma LRU_Insert_inv:
  assumes inv: "lru_inv own (c, m)" and own: "own hash"
  shows "\<exists>c' m' gone. LRU_Insert key hash value charge (c, m) = Some (hh_next m, c', m') \<and> lru_inv own (c', m') \<and>
    lc_capacity c' = lc_capacity c \<and> hh_next m' = hh_next m + 1 \<and> (lc_usage c' \<le> lc_capacity c' \<or> lc_lru c' = []) \<and>
    hh_next m \<notin> gone \<and>
    (\<forall>p \<in> gone. \<exists>g. hh_handles m p = Some g \<and> own (lh_hash g) \<and> lh_in_cache g \<and> lh_refs g = 1) \<and>
    hh_handles m' = (\<lambda>p. if p = hh_next m then Some (new_handle key hash value charge (0 < lc_capacity c)) else if p \<in> gone then None
      else (if 0 < lc_capacity c then replaced m (HT_Lookup m key hash (lc_table c)) else hh_handles m) p)"
proof -
  let ?e = "hh_next m" and ?h = "new_handle key hash value charge (0 < lc_capacity c)"
  let ?f = "if 0 < lc_capacity c then replaced m (HT_Lookup m key hash (lc_table c)) else hh_handles m"
  obtain c1 m1 where 1: "insert_entry key hash value charge (c, m) = (?e, c1, m1)" "lru_inv own (c1, m1)" "lc_capacity c1 = lc_capacity c"
      "hh_next m1 = ?e + 1" "hh_handles m1 = ?f(?e \<mapsto> ?h)"
  proof (cases "lc_capacity c = 0")
    case True
    then show thesis using insert_entry_uncached [OF assms True, of key "value" charge] that by auto
  next
    case False
    then have pos: "0 < lc_capacity c" by (simp add: word_neq_0_conv)
    then show thesis using insert_entry_cached [OF assms pos, of key "value" charge] that by auto
  qed
  obtain c2 m2 where 2: "evict_loop (c1, m1) = Some (c2, m2)" "lru_inv own (c2, m2)" "lc_capacity c2 = lc_capacity c1" "hh_next m2 = hh_next m1"
      "on_table (lc_table c1) - on_table (lc_table c2) \<subseteq> set (lc_lru c1)"
      "hh_handles m2 = (\<lambda>p. if p \<in> on_table (lc_table c1) - on_table (lc_table c2) then None else hh_handles m1 p)"
      "lc_usage c2 \<le> lc_capacity c2 \<or> lc_lru c2 = []"
    using evict_loop_inv [OF 1(2)] by blast
  let ?gone = "on_table (lc_table c1) - on_table (lc_table c2)"
  note i = lru_invD [OF 1(2)] and j = lru_invD [OF inv]
  have gone: "\<exists>g. hh_handles m1 p = Some g \<and> own (lh_hash g) \<and> lh_in_cache g \<and> lh_refs g = 1" if "p \<in> ?gone" for p
  proof -
    have p: "p \<in> set (lc_lru c1)" "p \<in> on_table (lc_table c1)" using that 2(5) by auto
    then obtain g where g: "hh_handles m1 p = Some g" using table_ok_dom [OF i(1)] by blast
    have "own (lh_hash (deref m1 p))" using i(2) p(2) by (simp add: lists_ok_def)
    then show ?thesis using handles_okD [OF i(3) g] g p(1) by auto
  qed
  have e: "?e \<notin> ?gone"
  proof
    assume "?e \<in> ?gone"
    then obtain g where "hh_handles m1 ?e = Some g" "lh_in_cache g" "lh_refs g = 1" using gone by blast
    then show False using 1(5) by (auto split: if_splits)
  qed
  have "\<exists>g. hh_handles m p = Some g \<and> own (lh_hash g) \<and> lh_in_cache g \<and> lh_refs g = 1" if p: "p \<in> ?gone" for p
  proof -
    obtain g where g: "hh_handles m1 p = Some g" "own (lh_hash g)" "lh_in_cache g" "lh_refs g = 1" using gone [OF p] by blast
    then have "?f p = Some g" using 1(5) e p by (auto split: if_splits)
    then show ?thesis using g by (auto simp: replaced_def erased_def split: if_splits option.splits)
  qed
  moreover have "hh_handles m2 = (\<lambda>p. if p = ?e then Some ?h else if p \<in> ?gone then None else ?f p)"
    using 2(6) 1(5) e by (auto simp: fun_eq_iff)
  moreover have "LRU_Insert key hash value charge (c, m) = Some (?e, c2, m2)" using 1(1) 2(1) by (simp add: LRU_Insert_def)
  ultimately show ?thesis using 1(3,4) 2(2-4,7) e by (intro exI [of _ c2] exI [of _ m2] exI [of _ ?gone]) simp
qed

section \<open>The sharded cache keeps its promises\<close>

definition sc_inv :: "'v ShardedLRUCache \<Rightarrow> bool" where
  "sc_inv c \<longleftrightarrow>
     length (sc_shard c) = kNumShards \<and>
     (\<forall>i < kNumShards. lru_inv (\<lambda>hash. Shard hash = i) (shard_state i c) \<and>
        (lc_capacity (sc_shard c ! i) = 0 \<longrightarrow> on_table (lc_table (sc_shard c ! i)) = {})) \<and>
     (\<forall>p h. hh_handles (sc_heap c) p = Some h \<longrightarrow> lh_hash h = HashSlice (lh_key h))"

lemma Shard_less: "Shard hash < kNumShards"
proof -
  have "unat (drop_bit 28 hash) = unat hash div 2 ^ 28" by (rule unat_drop_bit_div)
  moreover have "unat hash < 2 ^ 32" using unsigned_less [of hash] by simp
  ultimately show ?thesis by (simp add: Shard_def kNumShards_def kNumShardBits_def)
qed

text \<open>What a client sees: the values in the cache, and its references.\<close>

definition cached :: "'v ShardedLRUCache \<Rightarrow> bytes \<rightharpoonup> 'v" where
  "cached c key =
     (let hash = HashSlice key in
      map_option (\<lambda>p. lh_value (deref (sc_heap c) p)) (HT_Lookup (sc_heap c) key hash (lc_table (sc_shard c ! Shard hash))))"

definition held :: "'v ShardedLRUCache \<Rightarrow> nat \<Rightarrow> nat" where
  "held c p = (case hh_handles (sc_heap c) p of None \<Rightarrow> 0 | Some h \<Rightarrow> clients h)"

lemma in_cache_on_table:
  assumes "sc_inv c" and "hh_handles (sc_heap c) p = Some h"
  shows "lh_in_cache h \<longleftrightarrow> p \<in> on_table (lc_table (sc_shard c ! Shard (lh_hash h)))"
proof -
  have "lru_inv (\<lambda>hash. Shard hash = Shard (lh_hash h)) (sc_shard c ! Shard (lh_hash h), sc_heap c)"
    using assms(1) Shard_less by (auto simp: sc_inv_def shard_state_def)
  from lru_invD [OF this] show ?thesis using handles_okD(2) [OF _ assms(2)] by (auto simp: lists_ok_def)
qed

definition cache_view :: "'v LRUHandle option \<Rightarrow> (bytes \<times> 'v) option" where
  "cache_view x = (case x of None \<Rightarrow> None | Some h \<Rightarrow> if lh_in_cache h then Some (lh_key h, lh_value h) else None)"

lemma cache_view_Some: "cache_view x = Some (k, v) \<longleftrightarrow> (\<exists>h. x = Some h \<and> lh_in_cache h \<and> lh_key h = k \<and> lh_value h = v)"
  by (auto simp: cache_view_def split: option.splits)

lemma cached_iff:
  assumes inv: "sc_inv c"
  shows "cached c key = Some v \<longleftrightarrow> (\<exists>p. cache_view (hh_handles (sc_heap c) p) = Some (key, v))"
proof -
  let ?t = "lc_table (sc_shard c ! Shard (HashSlice key))"
  have ok: "table_ok (sc_heap c) ?t"
    using inv Shard_less [of "HashSlice key"] lru_invD(1) by (auto simp: sc_inv_def shard_state_def)
  have "cached c key = Some v \<longleftrightarrow>
      (\<exists>p. p \<in> on_table ?t \<and> handle_id (sc_heap c) p = (HashSlice key, key) \<and> lh_value (deref (sc_heap c) p) = v)"
    by (auto simp: cached_def Let_def HT_Lookup_Some [OF ok])
  also have "\<dots> \<longleftrightarrow> (\<exists>p h. hh_handles (sc_heap c) p = Some h \<and> lh_in_cache h \<and> lh_key h = key \<and> lh_value h = v)"
    using in_cache_on_table [OF inv] table_ok_dom [OF ok] inv unfolding sc_inv_def by (metis option.sel prod.inject)
  finally show ?thesis by (simp add: cache_view_Some)
qed

lemma cached_eqI:
  assumes "sc_inv c" and "sc_inv c'"
    and "\<And>p. cache_view (hh_handles (sc_heap c') p) = cache_view (hh_handles (sc_heap c) p)"
  shows "cached c' = cached c"
proof
  fix k
  have "cached c' k = Some v \<longleftrightarrow> cached c k = Some v" for v
    unfolding cached_iff [OF assms(1)] cached_iff [OF assms(2)] assms(3) ..
  then show "cached c' k = cached c k" by (rule option_eqI)
qed

text \<open>A step of one shard leaves the others alone.\<close>

lemma lru_inv_frame:
  assumes inv: "lru_inv own (c, m)" and same: "\<And>p h. own (lh_hash h) \<Longrightarrow> hh_handles m' p = Some h \<longleftrightarrow> hh_handles m p = Some h"
    and bound: "\<And>p h. hh_handles m' p = Some h \<Longrightarrow> p < hh_next m'"
  shows "lru_inv own (c, m')"
proof -
  note i = lru_invD [OF inv]
  have on: "hh_handles m' p = hh_handles m p" if p: "p \<in> on_table (lc_table c)" for p
  proof -
    obtain h where h: "hh_handles m p = Some h" using table_ok_dom [OF i(1) p] by blast
    have "own (lh_hash (deref m p))" using i(2) p by (simp add: lists_ok_def)
    then show ?thesis using same [of h p] h by simp
  qed
  have "table_ok m' (lc_table c)" by (rule table_ok_cong [OF i(1)]) (use on table_ok_dom [OF i(1)] in auto)
  moreover have "lists_ok own (on_table (lc_table c)) c m'" using i(2) on by (simp add: lists_ok_def)
  moreover have "charge_of (on_table (lc_table c)) m' = charge_of (on_table (lc_table c)) m" by (rule charge_of_cong) (simp add: on)
  moreover have "handles_ok own c m'" using i(3) same bound unfolding handles_ok_def by blast
  ultimately show ?thesis using i(4) by (simp add: lru_inv_def)
qed

lemma set_shard_inv:
  assumes inv: "sc_inv c" and i: "i < kNumShards" and shard: "lru_inv (\<lambda>hash. Shard hash = i) (s, m')"
    and same: "\<And>p h. Shard (lh_hash h) \<noteq> i \<Longrightarrow> hh_handles m' p = Some h \<longleftrightarrow> hh_handles (sc_heap c) p = Some h"
    and keys: "\<And>p h. hh_handles m' p = Some h \<Longrightarrow> lh_hash h = HashSlice (lh_key h)"
    and off: "lc_capacity s = 0 \<Longrightarrow> on_table (lc_table s) = {}"
  shows "sc_inv (set_shard_state i c (s, m'))"
proof -
  have len: "length (sc_shard c) = kNumShards" using inv by (simp add: sc_inv_def)
  have bound: "p < hh_next m'" if "hh_handles m' p = Some h" for p h
    using lru_invD(3) [OF shard] that by (simp add: handles_ok_def)
  have "lru_inv (\<lambda>hash. Shard hash = j) (shard_state j (set_shard_state i c (s, m')))" if j: "j < kNumShards" for j
  proof (cases "j = i")
    case True
    then show ?thesis using shard i len by (simp add: shard_state_def set_shard_state_def)
  next
    case False
    have "lru_inv (\<lambda>hash. Shard hash = j) (sc_shard c ! j, m')"
    proof (rule lru_inv_frame [of _ _ "sc_heap c"])
      show "lru_inv (\<lambda>hash. Shard hash = j) (sc_shard c ! j, sc_heap c)" using inv j by (simp add: sc_inv_def shard_state_def)
      show "hh_handles m' p = Some h \<longleftrightarrow> hh_handles (sc_heap c) p = Some h" if "Shard (lh_hash h) = j" for p h
        by (rule same) (use that False in simp)
    qed (rule bound)
    then show ?thesis using False by (simp add: shard_state_def set_shard_state_def)
  qed
  moreover have "lc_capacity (sc_shard (set_shard_state i c (s, m')) ! j) = 0 \<longrightarrow> on_table (lc_table (sc_shard (set_shard_state i c (s, m')) ! j)) = {}"
    if "j < kNumShards" for j
    using that off inv len by (cases "j = i") (simp_all add: set_shard_state_def sc_inv_def)
  ultimately show ?thesis using len keys by (simp add: sc_inv_def) (simp add: set_shard_state_def)
qed

lemma sc_invD:
  assumes "sc_inv c"
  shows "lru_inv (\<lambda>h. Shard h = Shard hash) (sc_shard c ! Shard hash, sc_heap c)"
    and "hh_handles (sc_heap c) p = Some h \<Longrightarrow> lh_hash h = HashSlice (lh_key h)"
    and "hh_handles (sc_heap c) (hh_next (sc_heap c)) = None" and "hh_handles (sc_heap c) p = Some h \<Longrightarrow> 1 \<le> lh_refs h"
    and "lc_capacity (sc_shard c ! Shard hash) = 0 \<Longrightarrow> on_table (lc_table (sc_shard c ! Shard hash)) = {}"
proof -
  show "lc_capacity (sc_shard c ! Shard hash) = 0 \<Longrightarrow> on_table (lc_table (sc_shard c ! Shard hash)) = {}"
    using assms Shard_less [of hash] by (simp add: sc_inv_def)
  show inv: "lru_inv (\<lambda>h. Shard h = Shard hash) (sc_shard c ! Shard hash, sc_heap c)" for hash
    using assms Shard_less [of hash] by (simp add: sc_inv_def shard_state_def)
  show "hh_handles (sc_heap c) p = Some h \<Longrightarrow> lh_hash h = HashSlice (lh_key h)" using assms by (simp add: sc_inv_def)
  show "hh_handles (sc_heap c) (hh_next (sc_heap c)) = None"
    using lru_invD(3) [OF inv [of 0]] by (cases "hh_handles (sc_heap c) (hh_next (sc_heap c))") (auto simp: handles_ok_def)
  show "hh_handles (sc_heap c) p = Some h \<Longrightarrow> 1 \<le> lh_refs h"
    using handles_okD(1) [OF lru_invD(3) [OF inv [of "lh_hash h"]]] by blast
qed

lemma clients_erased: "lh_in_cache h \<Longrightarrow> 1 \<le> lh_refs h \<Longrightarrow> (case erased h of None \<Rightarrow> 0 | Some g \<Rightarrow> clients g) = clients h"
  by (auto simp: erased_def clients_def)

lemma Cache_Lookup_ok:
  assumes inv: "sc_inv c" and look: "Cache_Lookup key c = (r, c')"
  shows "sc_inv c'" and "cached c' = cached c" and "r = None \<Longrightarrow> cached c key = None \<and> c' = c"
    and "r = Some h \<Longrightarrow> cached c key = Some (Cache_Value h c') \<and> held c' = (held c)(h := held c h + 1)"
    and "0 < held c g \<Longrightarrow> Cache_Value g c' = Cache_Value g c"
proof -
  let ?hash = "HashSlice key" and ?i = "Shard (HashSlice key)" and ?m = "sc_heap c"
  note s = sc_invD(1) [OF inv, of ?hash]
  have same: "set_shard_state ?i c (shard_state ?i c) = c" by (simp add: set_shard_state_def shard_state_def)
  have "sc_inv c' \<and> cached c' = cached c \<and> (r = None \<longrightarrow> cached c key = None \<and> c' = c) \<and>
    (\<forall>h. r = Some h \<longrightarrow> cached c key = Some (Cache_Value h c') \<and> held c' = (held c)(h := held c h + 1)) \<and>
    (\<forall>g. 0 < held c g \<longrightarrow> Cache_Value g c' = Cache_Value g c)"
  proof (cases "HT_Lookup ?m key ?hash (lc_table (sc_shard c ! ?i))")
    case None
    then have "r = None" "c' = c" using look same by (auto simp: Cache_Lookup_def LRU_Lookup_def shard_state_def Let_def)
    then show ?thesis using inv None by (simp add: cached_def Let_def)
  next
    case (Some e)
    then have e: "e \<in> on_table (lc_table (sc_shard c ! ?i))" "handle_id ?m e = (?hash, key)"
      using HT_Lookup_Some [OF lru_invD(1) [OF s]] by blast+
    then obtain h where h: "hh_handles ?m e = Some h" using table_ok_dom [OF lru_invD(1) [OF s]] by blast
    let ?m' = "?m\<lparr>hh_handles := (hh_handles ?m)(e \<mapsto> h\<lparr>lh_refs := lh_refs h + 1\<rparr>)\<rparr>"
    obtain l where l: "LRU_Ref e (sc_shard c ! ?i, ?m) = (l, ?m')" "lru_inv (\<lambda>h. Shard h = ?i) (l, ?m')"
        "lc_table l = lc_table (sc_shard c ! ?i)" "lc_capacity l = lc_capacity (sc_shard c ! ?i)"
      using LRU_Ref_inv [OF s h] e(2) h by auto
    have c': "c' = set_shard_state ?i c (l, ?m')" "r = Some e"
      using look Some l(1) by (simp_all add: Cache_Lookup_def LRU_Lookup_def shard_state_def Let_def)
    have inv': "sc_inv c'"
      unfolding c' by (rule set_shard_inv [OF inv Shard_less l(2)]) (use e(2) h sc_invD(2,5) [OF inv] l(3,4) in \<open>auto split: if_splits\<close>)
    moreover have "cached c' = cached c"
      by (rule cached_eqI [OF inv inv']) (use h in \<open>simp add: c' set_shard_state_def cache_view_def\<close>)
    moreover have "held c' = (held c)(e := held c e + 1)"
      using h sc_invD(4) [OF inv h] by (auto simp: fun_eq_iff held_def c' set_shard_state_def clients_def split: option.splits)
    moreover have "cached c key = Some (Cache_Value e c')"
      using Some h by (simp add: cached_def Cache_Value_def c' set_shard_state_def Let_def)
    moreover have "Cache_Value g c' = Cache_Value g c" for g using h by (simp add: Cache_Value_def c' set_shard_state_def)
    ultimately show ?thesis using c'(2) by simp
  qed
  then show "sc_inv c'" "cached c' = cached c" "r = None \<Longrightarrow> cached c key = None \<and> c' = c"
    "r = Some h \<Longrightarrow> cached c key = Some (Cache_Value h c') \<and> held c' = (held c)(h := held c h + 1)"
    "0 < held c g \<Longrightarrow> Cache_Value g c' = Cache_Value g c" by blast+
qed

lemma Cache_Release_ok:
  assumes inv: "sc_inv c" and held: "0 < held c e"
  shows "sc_inv (Cache_Release e c)" and "cached (Cache_Release e c) = cached c" and "held (Cache_Release e c) = (held c)(e := held c e - 1)"
    and "0 < held (Cache_Release e c) g \<Longrightarrow> Cache_Value g (Cache_Release e c) = Cache_Value g c"
proof -
  let ?m = "sc_heap c" and ?c' = "Cache_Release e c"
  obtain h where h: "hh_handles ?m e = Some h" "1 \<le> clients h" using held by (auto simp: held_def split: option.splits)
  let ?i = "Shard (lh_hash h)" and ?x = "if lh_refs h = 1 then None else Some (h\<lparr>lh_refs := lh_refs h - 1\<rparr>)"
  note s = sc_invD(1) [OF inv, of "lh_hash h"]
  obtain l m' where l: "LRU_Unref e (sc_shard c ! ?i, ?m) = (l, m')" "lru_inv (\<lambda>h. Shard h = ?i) (l, m')"
      "hh_handles m' = (hh_handles ?m)(e := ?x)" "lc_table l = lc_table (sc_shard c ! ?i)" "lc_capacity l = lc_capacity (sc_shard c ! ?i)"
    using LRU_Unref_inv [OF s h(1) _ h(2)] by auto
  have c': "?c' = set_shard_state ?i c (l, m')"
    using l(1) h(1) by (simp add: Cache_Release_def LRU_Release_def shard_state_def Let_def)
  have out: "lh_refs h = 1 \<Longrightarrow> \<not> lh_in_cache h" using h(2) by (auto simp: clients_def)
  have heap: "hh_handles (sc_heap ?c') = (hh_handles ?m)(e := ?x)" using l(3) by (simp add: c' set_shard_state_def)
  show inv': "sc_inv ?c'"
    unfolding c' by (rule set_shard_inv [OF inv Shard_less l(2)]) (use l(3-5) h sc_invD(2,5) [OF inv] in \<open>auto split: if_splits\<close>)
  show "cached ?c' = cached c"
    by (rule cached_eqI [OF inv inv'], unfold heap) (use h out in \<open>simp add: cache_view_def\<close>)
  show "held ?c' = (held c)(e := held c e - 1)"
    using h out by (auto simp: fun_eq_iff held_def heap clients_def split: option.splits)
  show "0 < held ?c' g \<Longrightarrow> Cache_Value g ?c' = Cache_Value g c"
    using h by (auto simp: held_def heap Cache_Value_def split: if_splits)
qed

text \<open>What a change of the heap does to the clients' view.\<close>

lemma replaced_view:
  assumes inv: "sc_inv c" and look: "HT_Lookup (sc_heap c) key (HashSlice key) (lc_table (sc_shard c ! Shard (HashSlice key))) = old"
  shows "cache_view (replaced (sc_heap c) old p) = Some kv \<Longrightarrow> cache_view (hh_handles (sc_heap c) p) = Some kv"
    and "(case replaced (sc_heap c) old p of None \<Rightarrow> 0 | Some h \<Rightarrow> clients h) = held c p"
    and "replaced (sc_heap c) old p = Some h \<Longrightarrow> \<exists>g. hh_handles (sc_heap c) p = Some g \<and> lh_hash h = lh_hash g \<and> lh_key h = lh_key g \<and> lh_value h = lh_value g"
    and "Shard (lh_hash h) \<noteq> Shard (HashSlice key) \<Longrightarrow> replaced (sc_heap c) old p = Some h \<longleftrightarrow> hh_handles (sc_heap c) p = Some h"
proof -
  have *: "\<exists>g. hh_handles (sc_heap c) e = Some g \<and> lh_in_cache g \<and> 1 \<le> lh_refs g \<and> lh_hash g = HashSlice key" if "old = Some e" for e
  proof -
    note t = lru_invD(1) [OF sc_invD(1) [OF inv, of "HashSlice key"]]
    have e: "e \<in> on_table (lc_table (sc_shard c ! Shard (HashSlice key)))" "handle_id (sc_heap c) e = (HashSlice key, key)"
      using HT_Lookup_Some [OF t] look that by blast+
    obtain g where g: "hh_handles (sc_heap c) e = Some g" using table_ok_dom [OF t e(1)] by blast
    then show ?thesis using in_cache_on_table [OF inv g] e sc_invD(4) [OF inv g] by simp
  qed
  show "cache_view (replaced (sc_heap c) old p) = Some kv \<Longrightarrow> cache_view (hh_handles (sc_heap c) p) = Some kv"
    using * by (cases old) (auto simp: replaced_def erased_def cache_view_def split: if_splits)
  show "(case replaced (sc_heap c) old p of None \<Rightarrow> 0 | Some h \<Rightarrow> clients h) = held c p"
    using * clients_erased by (cases old) (fastforce simp: replaced_def held_def)+
  show "replaced (sc_heap c) old p = Some h \<Longrightarrow> \<exists>g. hh_handles (sc_heap c) p = Some g \<and> lh_hash h = lh_hash g \<and> lh_key h = lh_key g \<and> lh_value h = lh_value g"
    using * by (cases old) (auto simp: replaced_def erased_def split: if_splits)
  show "Shard (lh_hash h) \<noteq> Shard (HashSlice key) \<Longrightarrow> replaced (sc_heap c) old p = Some h \<longleftrightarrow> hh_handles (sc_heap c) p = Some h"
    using * by (cases old) (auto simp: replaced_def erased_def split: if_splits)
qed

lemma Cache_Insert_ok:
  assumes inv: "sc_inv c"
  shows "\<exists>e c'. Cache_Insert key v charge c = Some (e, c') \<and> sc_inv c' \<and> Cache_Value e c' = v \<and>
    held c e = 0 \<and> held c' = (held c)(e := 1) \<and> cached c' \<subseteq>\<^sub>m (cached c)(key \<mapsto> v) \<and>
    (\<forall>g. 0 < held c g \<longrightarrow> Cache_Value g c' = Cache_Value g c) \<and>
    (let l = sc_shard c' ! Shard (HashSlice key) in lc_usage l \<le> lc_capacity l \<or> lc_lru l = []) \<and>
    (0 < lc_capacity (sc_shard c ! Shard (HashSlice key)) \<longrightarrow> cached c' key = Some v)"
proof -
  let ?hash = "HashSlice key" and ?i = "Shard (HashSlice key)" and ?m = "sc_heap c" and ?e = "hh_next (sc_heap c)"
  let ?s = "sc_shard c ! ?i"
  let ?h = "new_handle key ?hash v charge (0 < lc_capacity ?s)"
  let ?f = "if 0 < lc_capacity ?s then replaced ?m (HT_Lookup ?m key ?hash (lc_table ?s)) else hh_handles ?m"
  note s = sc_invD(1) [OF inv, of ?hash] and r = replaced_view [OF inv refl, where key = key]
  obtain l m' gone where l: "LRU_Insert key ?hash v charge (?s, ?m) = Some (?e, l, m')" "lru_inv (\<lambda>h. Shard h = ?i) (l, m')"
      "lc_capacity l = lc_capacity ?s" "lc_usage l \<le> lc_capacity l \<or> lc_lru l = []" "?e \<notin> gone"
      "\<forall>p \<in> gone. \<exists>g. hh_handles ?m p = Some g \<and> Shard (lh_hash g) = ?i \<and> lh_in_cache g \<and> lh_refs g = 1"
      "hh_handles m' = (\<lambda>p. if p = ?e then Some ?h else if p \<in> gone then None else ?f p)"
    using LRU_Insert_inv [OF s refl, of key v charge] by blast
  let ?c' = "set_shard_state ?i c (l, m')"
  have ins: "Cache_Insert key v charge c = Some (?e, ?c')" using l(1) by (simp add: Cache_Insert_def shard_state_def Let_def)
  have heap: "hh_handles (sc_heap ?c') = (\<lambda>p. if p = ?e then Some ?h else if p \<in> gone then None else ?f p)"
    using l(7) by (simp add: set_shard_state_def)
  have fresh: "hh_handles ?m ?e = None" by (rule sc_invD(3) [OF inv])
  have f: "?f p = Some h \<Longrightarrow> \<exists>g. hh_handles ?m p = Some g \<and> lh_hash h = lh_hash g \<and> lh_key h = lh_key g \<and> lh_value h = lh_value g" for p h
    using r(3) by (auto split: if_splits)
  have cap: "on_table (lc_table l) = {}" if zero: "lc_capacity l = 0"
  proof (rule ccontr)
    assume "on_table (lc_table l) \<noteq> {}"
    then obtain p where p: "p \<in> on_table (lc_table l)" by blast
    then obtain h where h: "hh_handles m' p = Some h" using table_ok_dom [OF lru_invD(1) [OF l(2)]] by blast
    have "Shard (lh_hash (deref m' p)) = ?i" using lru_invD(2) [OF l(2)] p by (simp add: lists_ok_def)
    moreover have "p \<in> set (lc_lru l) \<union> set (lc_in_use l)" using p lru_invD(2) [OF l(2)] by (simp add: lists_ok_def)
    ultimately have hc: "lh_in_cache h" using handles_okD(2) [OF lru_invD(3) [OF l(2)] h] h by simp
    then have "hh_handles ?m p = Some h" "Shard (lh_hash h) = ?i"
      using h l(3,7) zero \<open>Shard (lh_hash (deref m' p)) = ?i\<close> by (auto split: if_splits)
    then show False using in_cache_on_table [OF inv] hc sc_invD(5) [OF inv, of ?hash] zero l(3) by auto
  qed
  have inv': "sc_inv ?c'"
  proof (rule set_shard_inv [OF inv Shard_less l(2)])
    show "hh_handles m' p = Some h \<longleftrightarrow> hh_handles ?m p = Some h" if "Shard (lh_hash h) \<noteq> ?i" for p h
      using that l(6,7) r(4) [OF that] fresh by (auto split: if_splits)
    show "lh_hash h = HashSlice (lh_key h)" if "hh_handles m' p = Some h" for p h
      using that l(7) f [of p h] sc_invD(2) [OF inv] by (auto split: if_splits)
  qed (rule cap)
  have held: "held ?c' = (held c)(?e := 1)"
  proof
    fix p
    have "p \<in> gone \<Longrightarrow> held c p = 0" using l(6) by (auto simp: held_def clients_def)
    moreover have "(case ?f p of None \<Rightarrow> 0 | Some h \<Rightarrow> clients h) = held c p" using r(2) [of p] by (simp add: held_def)
    moreover have "clients ?h = 1" by (simp add: clients_def)
    ultimately show "held ?c' p = ((held c)(?e := 1)) p" unfolding held_def [of ?c'] heap by simp
  qed
  have le: "((cached c)(key \<mapsto> v)) k = Some w" if w: "cached ?c' k = Some w" for k w
  proof -
    obtain p where p: "cache_view (hh_handles (sc_heap ?c') p) = Some (k, w)" using w cached_iff [OF inv'] by blast
    show ?thesis
    proof (cases "k = key \<and> 0 < lc_capacity ?s")
      case True
      then have "cache_view (hh_handles (sc_heap ?c') ?e) = Some (k, v)" by (simp add: heap cache_view_def)
      then show ?thesis using w True cached_iff [OF inv', of k v] by auto
    next
      case False
      then have ne: "p \<noteq> ?e" using p by (auto simp: heap cache_view_def split: if_splits)
      then have "cache_view (hh_handles ?m p) = Some (k, w)"
        using p r(1) [of p] by (auto simp: heap cache_view_def [of None] split: if_splits)
      then have c: "cached c k = Some w" using cached_iff [OF inv] by blast
      then have "k \<noteq> key" using False sc_invD(5) [OF inv, of ?hash] HT_Lookup_None [OF lru_invD(1) [OF s]]
        by (auto simp: cached_def Let_def word_neq_0_conv [symmetric])
      then show ?thesis using c by simp
    qed
  qed
  then have "cached ?c' \<subseteq>\<^sub>m (cached c)(key \<mapsto> v)" unfolding map_le_def by (auto dest: le simp del: fun_upd_apply)
  moreover have "Cache_Value g ?c' = Cache_Value g c" if g: "0 < held c g" for g
  proof -
    obtain h where h: "hh_handles ?m g = Some h" "0 < clients h" using g by (auto simp: held_def split: option.splits)
    then have "g \<notin> gone" "g \<noteq> ?e" using l(6) fresh by (auto simp: clients_def)
    moreover obtain h' where "?f g = Some h'" using h r(2) [of g] by (cases "?f g") (auto simp: held_def split: if_splits)
    ultimately show ?thesis using f [of g h'] h by (auto simp: Cache_Value_def heap)
  qed
  moreover have "sc_shard ?c' ! ?i = l" using inv Shard_less [of ?hash] by (simp add: sc_inv_def set_shard_state_def)
  moreover have "Cache_Value ?e ?c' = v" by (simp add: Cache_Value_def heap)
  moreover have "cached ?c' key = Some v" if "0 < lc_capacity ?s"
    unfolding cached_iff [OF inv'] by (rule exI [of _ ?e]) (use that in \<open>simp add: heap cache_view_def\<close>)
  moreover have "held c ?e = 0" using fresh by (simp add: held_def)
  ultimately show ?thesis using ins inv' held l(4) by auto
qed

text \<open>Handles that lose their place in the cache: \<^verbatim>\<open>Erase\<close> and \<^verbatim>\<open>Prune\<close>.\<close>

lemma Cache_Erase_ok:
  assumes inv: "sc_inv c"
  shows "sc_inv (Cache_Erase key c)" and "cached (Cache_Erase key c) = (cached c)(key := None)" and "held (Cache_Erase key c) = held c"
    and "0 < held c g \<Longrightarrow> Cache_Value g (Cache_Erase key c) = Cache_Value g c"
proof -
  let ?hash = "HashSlice key" and ?i = "Shard (HashSlice key)" and ?m = "sc_heap c" and ?c' = "Cache_Erase key c"
  let ?s = "sc_shard c ! ?i" and ?old = "HT_Lookup (sc_heap c) key (HashSlice key) (lc_table (sc_shard c ! Shard (HashSlice key)))"
  note s = sc_invD(1) [OF inv, of ?hash] and r = replaced_view [OF inv refl, where key = key]
  obtain l m' where l: "LRU_Erase key ?hash (?s, ?m) = (l, m')" "lru_inv (\<lambda>h. Shard h = ?i) (l, m')" "lc_capacity l = lc_capacity ?s"
      "on_table (lc_table l) = on_table (lc_table ?s) - set_option ?old"
      "case ?old of None \<Rightarrow> l = ?s \<and> m' = ?m | Some e \<Rightarrow> hh_handles m' = (hh_handles ?m)(e := erased (deref ?m e)) \<and> lc_lru l = remove1 e (lc_lru ?s)"
    using LRU_Erase_inv [OF s, of key ?hash] by blast
  have m': "hh_handles m' = replaced ?m ?old" using l(5) by (auto simp: replaced_def split: option.splits)
  have c': "?c' = set_shard_state ?i c (l, m')" using l(1) by (simp add: Cache_Erase_def shard_state_def Let_def)
  have heap: "hh_handles (sc_heap ?c') = replaced ?m ?old" using m' by (simp add: c' set_shard_state_def)
  show inv': "sc_inv ?c'"
    unfolding c'
  proof (rule set_shard_inv [OF inv Shard_less l(2)])
    show "hh_handles m' p = Some h \<longleftrightarrow> hh_handles ?m p = Some h" if "Shard (lh_hash h) \<noteq> ?i" for p h
      unfolding m' by (rule r(4) [OF that])
    show "lh_hash h = HashSlice (lh_key h)" if "hh_handles m' p = Some h" for p h
      using r(3) [of p h] that sc_invD(2) [OF inv] by (auto simp: m')
    show "on_table (lc_table l) = {}" if "lc_capacity l = 0" using that l(3,4) sc_invD(5) [OF inv, of ?hash] by simp
  qed
  have none: "cached ?c' key = None"
  proof -
    have "sc_shard ?c' ! ?i = l" using inv Shard_less [of ?hash] by (simp add: c' sc_inv_def set_shard_state_def)
    moreover have "HT_Lookup m' key ?hash (lc_table l) = None"
      unfolding HT_Lookup_None [OF lru_invD(1) [OF l(2)]]
    proof
      fix p assume p: "p \<in> on_table (lc_table l)"
      then have p': "p \<in> on_table (lc_table ?s)" "?old \<noteq> Some p" using l(4) by auto
      then have "handle_id ?m p \<noteq> (?hash, key)" using HT_Lookup_Some [OF lru_invD(1) [OF s]] by blast
      moreover have "hh_handles m' p = hh_handles ?m p" using p' by (auto simp: m' replaced_def split: option.splits)
      ultimately show "handle_id m' p \<noteq> (?hash, key)" by simp
    qed
    ultimately show ?thesis by (simp add: cached_def Let_def c' set_shard_state_def)
  qed
  have other: "replaced ?m ?old p = hh_handles ?m p" if p: "hh_handles ?m p = Some h" "lh_key h \<noteq> key" for p h
  proof (rule ccontr)
    assume "replaced ?m ?old p \<noteq> hh_handles ?m p"
    then have "?old = Some p" by (auto simp: replaced_def split: option.splits if_splits)
    then show False using HT_Lookup_Some [OF lru_invD(1) [OF s]] p by auto
  qed
  show "cached ?c' = (cached c)(key := None)"
  proof
    fix k
    have "cached ?c' k = Some v \<longleftrightarrow> cached c k = Some v" if k: "k \<noteq> key" for v
    proof -
      have "cache_view (replaced ?m ?old p) = Some (k, v) \<longleftrightarrow> cache_view (hh_handles ?m p) = Some (k, v)" for p
        using r(1) [of p "(k, v)"] other [of p] k by (auto simp: cache_view_Some)
      then show ?thesis unfolding cached_iff [OF inv] cached_iff [OF inv'] heap by simp
    qed
    then show "cached ?c' k = ((cached c)(key := None)) k" using none by (cases "k = key") (auto intro: option_eqI)
  qed
  show "held ?c' = held c" using r(2) by (simp add: fun_eq_iff held_def [of ?c'] heap)
  show "Cache_Value g ?c' = Cache_Value g c" if g: "0 < held c g"
  proof -
    obtain h' where "replaced ?m ?old g = Some h'" using g r(2) [of g] by (cases "replaced ?m ?old g") auto
    then show ?thesis using r(3) [of g h'] by (auto simp: Cache_Value_def heap)
  qed
qed

lemma prune_shard_ok:
  assumes inv: "sc_inv c" and i: "i < kNumShards"
  shows "\<exists>s. LRU_Prune (shard_state i c) = Some s \<and> sc_inv (set_shard_state i c s) \<and> cached (set_shard_state i c s) \<subseteq>\<^sub>m cached c \<and>
    held (set_shard_state i c s) = held c \<and> (\<forall>g. 0 < held c g \<longrightarrow> Cache_Value g (set_shard_state i c s) = Cache_Value g c) \<and>
    lc_lru (fst s) = []"
proof -
  let ?m = "sc_heap c" and ?s = "sc_shard c ! i"
  have s: "lru_inv (\<lambda>h. Shard h = i) (?s, ?m)" using inv i by (simp add: sc_inv_def shard_state_def)
  note t = lru_invD [OF s]
  obtain l m' where l: "LRU_Prune (?s, ?m) = Some (l, m')" "lru_inv (\<lambda>h. Shard h = i) (l, m')" "lc_capacity l = lc_capacity ?s" "lc_lru l = []"
      "on_table (lc_table l) = on_table (lc_table ?s) - set (lc_lru ?s)"
      "hh_handles m' = (\<lambda>p. if p \<in> set (lc_lru ?s) then None else hh_handles ?m p)"
    using LRU_Prune_inv [OF s] by blast
  let ?c' = "set_shard_state i c (l, m')"
  have heap: "hh_handles (sc_heap ?c') = (\<lambda>p. if p \<in> set (lc_lru ?s) then None else hh_handles ?m p)"
    using l(6) by (simp add: set_shard_state_def)
  have lru: "\<exists>h. hh_handles ?m p = Some h \<and> Shard (lh_hash h) = i \<and> clients h = 0" if p: "p \<in> set (lc_lru ?s)" for p
  proof -
    have "p \<in> on_table (lc_table ?s)" using p t(2) by (auto simp: lists_ok_def)
    then obtain h where h: "hh_handles ?m p = Some h" "Shard (lh_hash h) = i"
      using table_ok_dom [OF t(1), of p] t(2) by (auto simp: lists_ok_def)
    then show ?thesis using handles_okD(2,3) [OF t(3) h(1)] p by (auto simp: clients_def)
  qed
  have inv': "sc_inv ?c'"
  proof (rule set_shard_inv [OF inv i l(2)])
    show "hh_handles m' p = Some h \<longleftrightarrow> hh_handles ?m p = Some h" if "Shard (lh_hash h) \<noteq> i" for p h
      using lru [of p] that by (auto simp: l(6))
    show "lh_hash h = HashSlice (lh_key h)" if "hh_handles m' p = Some h" for p h
      using that sc_invD(2) [OF inv] by (auto simp: l(6) split: if_splits)
    show "on_table (lc_table l) = {}" if "lc_capacity l = 0" using that l(3,5) inv i by (simp add: sc_inv_def)
  qed
  have "cached c k = Some v" if "cached ?c' k = Some v" for k v
    using that unfolding cached_iff [OF inv] cached_iff [OF inv'] heap by (auto simp: cache_view_def [of None] split: if_splits)
  then have "cached ?c' \<subseteq>\<^sub>m cached c" unfolding map_le_def by auto
  moreover have "held ?c' = held c" using lru by (force simp: fun_eq_iff held_def heap)
  moreover have "Cache_Value g ?c' = Cache_Value g c" if "0 < held c g" for g
    using that lru [of g] by (auto simp: Cache_Value_def heap held_def)
  ultimately show ?thesis using l(1,4) inv' by (auto simp: shard_state_def)
qed

lemma Prune_loop_ok:
  assumes "sc_inv c" and "\<forall>i \<in> set is. i < kNumShards"
  shows "\<exists>c'. Prune_loop is c = Some c' \<and> sc_inv c' \<and> cached c' \<subseteq>\<^sub>m cached c \<and> held c' = held c \<and>
    (\<forall>g. 0 < held c g \<longrightarrow> Cache_Value g c' = Cache_Value g c)"
  using assms
proof (induction "is" arbitrary: c)
  case (Cons i "is")
  obtain s where s: "LRU_Prune (shard_state i c) = Some s" "sc_inv (set_shard_state i c s)" "cached (set_shard_state i c s) \<subseteq>\<^sub>m cached c"
      "held (set_shard_state i c s) = held c" "\<forall>g. 0 < held c g \<longrightarrow> Cache_Value g (set_shard_state i c s) = Cache_Value g c"
    using prune_shard_ok [OF Cons.prems(1), of i] Cons.prems(2) by auto
  from Cons.IH [OF s(2)] Cons.prems(2) obtain c' where "Prune_loop is (set_shard_state i c s) = Some c'" "sc_inv c'"
      "cached c' \<subseteq>\<^sub>m cached (set_shard_state i c s)" "held c' = held (set_shard_state i c s)"
      "\<forall>g. 0 < held (set_shard_state i c s) g \<longrightarrow> Cache_Value g c' = Cache_Value g (set_shard_state i c s)"
    by auto
  then show ?case using s map_le_trans by force
qed (simp add: map_le_refl)

lemma make_HandleTable_ok: "table_ok m make_HandleTable \<and> on_table make_HandleTable = {}"
proof -
  have "power_of_two 4" unfolding power_of_two_def by (rule exI [of _ 2]) simp
  moreover have l: "ht_list make_HandleTable = replicate 4 []" "ht_elems make_HandleTable = 0"
    by (simp_all add: make_HandleTable_def HT_Resize_def Let_def new_length_loop.simps [of 4 0])
  moreover have "on_table make_HandleTable = {}" unfolding l by (auto simp: on_chains_def)
  ultimately show ?thesis unfolding table_ok_def by (simp add: chains_ok_def sum_list_replicate)
qed

lemma NewLRUCache_inv: "sc_inv (NewLRUCache capacity)" and NewLRUCache_cached: "cached (NewLRUCache capacity) = Map.empty"
proof -
  show inv: "sc_inv (NewLRUCache capacity)"
    using make_HandleTable_ok
    by (auto simp: sc_inv_def NewLRUCache_def Let_def shard_state_def lru_inv_def LRU_SetCapacity_def make_LRUCache_def lists_ok_def
        handles_ok_def charge_of_def)
  show "cached (NewLRUCache capacity) = Map.empty"
  proof
    fix k
    show "cached (NewLRUCache capacity) k = None"
      by (rule option_eqI, unfold cached_iff [OF inv]) (simp add: NewLRUCache_def Let_def cache_view_def)
  qed
qed

section \<open>The interface\<close>

record ('h, 'v, 'c) Cache =
  C_Insert :: "bytes \<Rightarrow> 'v \<Rightarrow> u64 \<Rightarrow> 'c \<Rightarrow> ('h \<times> 'c) option"
  C_Lookup :: "bytes \<Rightarrow> 'c \<Rightarrow> 'h option \<times> 'c"
  C_Release :: "'h \<Rightarrow> 'c \<Rightarrow> 'c"
  C_Value :: "'h \<Rightarrow> 'c \<Rightarrow> 'v"
  C_NewId :: "'c \<Rightarrow> u64 \<times> 'c"

text \<open>
  What a client relies on. A lookup finds the cached value of a key. An insertion returns a handle of its
  own and replaces the value of its key, and may drop other values. A value stays where it is as long as
  the client holds a handle of it.
\<close>

locale value_cache =
  fixes cops :: "('h, 'v, 'c) Cache" and c_ok :: "'c \<Rightarrow> bool" and c_cached :: "'c \<Rightarrow> bytes \<rightharpoonup> 'v" and c_held :: "'c \<Rightarrow> 'h \<Rightarrow> nat"
  assumes lookup_hit: "c_ok c \<Longrightarrow> C_Lookup cops k c = (Some h, c') \<Longrightarrow>
      c_ok c' \<and> c_cached c' = c_cached c \<and> c_cached c k = Some (C_Value cops h c') \<and> c_held c' = (c_held c)(h := c_held c h + 1)"
    and lookup_miss: "c_ok c \<Longrightarrow> C_Lookup cops k c = (None, c') \<Longrightarrow> c' = c \<and> c_cached c k = None"
    and insert_ok: "c_ok c \<Longrightarrow> \<exists>h c'. C_Insert cops k v charge c = Some (h, c') \<and> c_ok c' \<and> C_Value cops h c' = v \<and>
      c_held c' = (c_held c)(h := 1) \<and> c_cached c' \<subseteq>\<^sub>m (c_cached c)(k \<mapsto> v)"
    and release_ok: "c_ok c \<Longrightarrow> 0 < c_held c h \<Longrightarrow> c_ok (C_Release cops h c) \<and> c_cached (C_Release cops h c) = c_cached c \<and>
      c_held (C_Release cops h c) = (c_held c)(h := c_held c h - 1)"
    and newid_ok: "c_ok c \<Longrightarrow> C_NewId cops c = (i, c') \<Longrightarrow> c_ok c' \<and> c_cached c' = c_cached c \<and> c_held c' = c_held c"
begin

text \<open>A cache filled by a loader holds only what the loader gives.\<close>

definition coherent :: "(bytes \<rightharpoonup> 'v) \<Rightarrow> 'c \<Rightarrow> bool" where
  "coherent load c \<longleftrightarrow> c_ok c \<and> (\<forall>k v w. c_cached c k = Some v \<longrightarrow> load k = Some w \<longrightarrow> v = w)"

lemma coherent_hit:
  assumes "coherent load c" and "C_Lookup cops k c = (Some h, c')" and "load k = Some v"
  shows "C_Value cops h c' = v" and "coherent load c'"
  using lookup_hit [OF _ assms(2)] assms unfolding coherent_def by auto

lemma coherent_insert:
  assumes "coherent load c" and "load k = Some v"
  shows "\<exists>h c'. C_Insert cops k v charge c = Some (h, c') \<and> coherent load c' \<and> C_Value cops h c' = v"
proof -
  have ok: "c_ok c" using assms(1) by (simp add: coherent_def)
  obtain h c' where i: "C_Insert cops k v charge c = Some (h, c')" "c_ok c'" "C_Value cops h c' = v" "c_cached c' \<subseteq>\<^sub>m (c_cached c)(k \<mapsto> v)"
    using insert_ok [OF ok] by blast
  have "x = w" if c: "c_cached c' q = Some x" and l: "load q = Some w" for q x w
  proof -
    have "((c_cached c)(k \<mapsto> v)) q = Some x" using i(4) c by (metis domI map_le_def)
    then show ?thesis using assms l unfolding coherent_def by (cases "q = k") auto
  qed
  then show ?thesis using i by (auto simp: coherent_def)
qed

end

definition LRU_Cache :: "(nat, 'v, 'v ShardedLRUCache) Cache" where
  "LRU_Cache =
     \<lparr>C_Insert = Cache_Insert, C_Lookup = Cache_Lookup, C_Release = Cache_Release, C_Value = Cache_Value, C_NewId = Cache_NewId\<rparr>"

lemma Cache_NewId_ok:
  assumes "sc_inv c" and "Cache_NewId c = (i, c')"
  shows "sc_inv c'" and "cached c' = cached c" and "held c' = held c" and "Cache_Value g c' = Cache_Value g c"
  using assms by (auto simp: Cache_NewId_def Let_def sc_inv_def shard_state_def cached_def held_def Cache_Value_def fun_eq_iff)

interpretation lru: value_cache LRU_Cache sc_inv cached held
proof
  fix c :: "'v ShardedLRUCache" and k h c' v charge i
  assume inv: "sc_inv c"
  note simps = LRU_Cache_def Cache.simps
  show "sc_inv c' \<and> cached c' = cached c \<and> cached c k = Some (C_Value LRU_Cache h c') \<and> held c' = (held c)(h := held c h + 1)"
    if "C_Lookup LRU_Cache k c = (Some h, c')"
    using Cache_Lookup_ok [OF inv that [unfolded simps]] unfolding simps by blast
  show "c' = c \<and> cached c k = None" if "C_Lookup LRU_Cache k c = (None, c')"
    using Cache_Lookup_ok(3) [OF inv that [unfolded simps]] by blast
  show "\<exists>h c'. C_Insert LRU_Cache k v charge c = Some (h, c') \<and> sc_inv c' \<and> C_Value LRU_Cache h c' = v \<and>
      held c' = (held c)(h := 1) \<and> cached c' \<subseteq>\<^sub>m (cached c)(k \<mapsto> v)"
    using Cache_Insert_ok [OF inv, of k v charge] unfolding simps by blast
  show "sc_inv (C_Release LRU_Cache h c) \<and> cached (C_Release LRU_Cache h c) = cached c \<and>
      held (C_Release LRU_Cache h c) = (held c)(h := held c h - 1)" if "0 < held c h"
    using Cache_Release_ok [OF inv that] unfolding simps by blast
  show "sc_inv c' \<and> cached c' = cached c \<and> held c' = held c" if "C_NewId LRU_Cache c = (i, c')"
    using Cache_NewId_ok [OF inv that [unfolded simps]] by blast
qed

section \<open>Runs\<close>

text \<open>The calls of clients, in any order; a client releases only what it holds.\<close>

inductive cache_step :: "'v ShardedLRUCache \<Rightarrow> 'v ShardedLRUCache \<Rightarrow> bool" where
  lookup: "Cache_Lookup key c = (r, c') \<Longrightarrow> cache_step c c'"
| insertion: "Cache_Insert key v charge c = Some (h, c') \<Longrightarrow> cache_step c c'"
| release: "0 < held c h \<Longrightarrow> cache_step c (Cache_Release h c)"
| erasure: "cache_step c (Cache_Erase key c)"
| prune: "Cache_Prune c = Some c' \<Longrightarrow> cache_step c c'"
| new_id: "Cache_NewId c = (i, c') \<Longrightarrow> cache_step c c'"

inductive cache_reachable :: "u64 \<Rightarrow> 'v ShardedLRUCache \<Rightarrow> bool" for capacity where
  start: "cache_reachable capacity (NewLRUCache capacity)"
| step: "cache_reachable capacity c \<Longrightarrow> cache_step c c' \<Longrightarrow> cache_reachable capacity c'"

lemma cache_step_ok:
  assumes "cache_step c c'" and "sc_inv c"
  shows "sc_inv c'" and "0 < held c g \<Longrightarrow> 0 < held c' g \<Longrightarrow> Cache_Value g c' = Cache_Value g c"
proof -
  have "sc_inv c' \<and> (\<forall>g. 0 < held c g \<longrightarrow> 0 < held c' g \<longrightarrow> Cache_Value g c' = Cache_Value g c)"
    using assms
  proof cases
    case (lookup key r)
    then show ?thesis using Cache_Lookup_ok [OF assms(2)] by blast
  next
    case (insertion key v charge h)
    then show ?thesis using Cache_Insert_ok [OF assms(2), of key v charge] by auto
  next
    case (release h)
    then show ?thesis using Cache_Release_ok [OF assms(2)] by blast
  next
    case (erasure key)
    then show ?thesis using Cache_Erase_ok [OF assms(2)] by blast
  next
    case prune
    then show ?thesis using Prune_loop_ok [OF assms(2), of "[0..<kNumShards]"] by (auto simp: Cache_Prune_def)
  next
    case (new_id i)
    then show ?thesis using Cache_NewId_ok [OF assms(2)] by blast
  qed
  then show "sc_inv c'" "0 < held c g \<Longrightarrow> 0 < held c' g \<Longrightarrow> Cache_Value g c' = Cache_Value g c" by blast+
qed

lemma cache_reachable_inv: "cache_reachable capacity c \<Longrightarrow> sc_inv c"
  by (induction rule: cache_reachable.induct) (auto intro: NewLRUCache_inv cache_step_ok)

section \<open>Properties\<close>


lemma NewLRUCache_insert:
  "\<exists>h c. Cache_Insert [1] (7 :: nat) 5 (NewLRUCache 100) = Some (h, c) \<and> cache_reachable 100 c \<and> held c h = 1 \<and> Cache_Value h c = 7"
proof -
  obtain h c where h: "Cache_Insert [1] (7 :: nat) 5 (NewLRUCache 100) = Some (h, c)" "held c h = 1" "Cache_Value h c = 7"
    using Cache_Insert_ok [OF NewLRUCache_inv, of "[1]" "7 :: nat" 5 100] by auto
  then show ?thesis using cache_reachable.step [OF cache_reachable.start cache_step.insertion [OF h(1)]] by auto
qed








end
