(* ===== verification/Table.thy ===== *)
theory Table
  imports Table_Builder Cache
begin

text \<open>
  Reading table files (table/table.cc, include/leveldb/table.h): opening a file, its metadata, iterators
  and point lookups, over any random access file and any block cache. An operation gives \<open>None\<close> when the
  code reads outside of a buffer or a call does not return. The block cache is a state of its own next to
  the table: the pointer \<^verbatim>\<open>block_cache\<close> of the options is an optional cache state, passed in and out.
  A file that the builder has finished opens, and reading it gives what was added.
\<close>

section \<open>Opening\<close>

record 'f Table =
  t_options :: Options
  t_file :: 'f
  t_cache_id :: u64
  t_filter :: "FilterBlockReader option"
  t_metaindex_handle :: BlockHandle
  t_index_block :: block
  t_range_deletions :: "RangeDeletionList option"

abbreviation MetaOps :: "block_iterator Iterator" where
  "MetaOps \<equiv> AnyOps (BlockIterOps BytewiseComparator)"

definition ReadFilter :: "port \<Rightarrow> 'f RandomAccessFile \<Rightarrow> bytes \<Rightarrow> 'f Table \<Rightarrow> 'f Table option" where
  "ReadFilter prt rops filter_handle_value t =
     (case BlockHandle_DecodeFrom filter_handle_value of
        Inl s \<Rightarrow> Some t
      | Inr (filter_handle, _) \<Rightarrow>
          (case ReadBlock prt rops (t_file t) (opt_paranoid_checks (t_options t)) filter_handle of
             None \<Rightarrow> None
           | Some (Inl s) \<Rightarrow> Some t
           | Some (Inr block) \<Rightarrow> Some (t\<lparr>t_filter := Some (make_FilterBlockReader (bc_data block))\<rparr>)))"

partial_function (option) read_deletions :: "block_iterator \<Rightarrow> RangeDeletionList \<Rightarrow> RangeDeletionList option" where
  "read_deletions iter deletions =
     (if It_Valid MetaOps iter then
        let ikey = It_key MetaOps iter;
            end_key = It_value MetaOps iter;
            n = length ikey;
            deletions = (if n < 8 then deletions
                         else RDL_Add deletions (take (n - 8) ikey) end_key (drop_bit 8 (DecodeFixed64 (drop (n - 8) ikey))))
        in Option.bind (It_Next MetaOps iter) (\<lambda>iter. read_deletions iter deletions)
      else Some deletions)"

definition ReadRangeDeletions :: "port \<Rightarrow> 'f RandomAccessFile \<Rightarrow> bytes \<Rightarrow> 'f Table \<Rightarrow> 'f Table option" where
  "ReadRangeDeletions prt rops handle_value t =
     (case BlockHandle_DecodeFrom handle_value of
        Inl s \<Rightarrow> Some t
      | Inr (handle, _) \<Rightarrow>
          (case ReadBlock prt rops (t_file t) (opt_paranoid_checks (t_options t)) handle of
             None \<Rightarrow> None
           | Some (Inl s) \<Rightarrow> Some t
           | Some (Inr block) \<Rightarrow>
               Option.bind (It_SeekToFirst MetaOps (Block_NewIterator (make_Block (bc_data block))))
                 (\<lambda>iter. map_option (\<lambda>deletions. t\<lparr>t_range_deletions := Some deletions\<rparr>) (read_deletions iter []))))"

text \<open>An entry of the metaindex is handed on if it is there.\<close>

definition with_meta :: "bytes \<Rightarrow> (bytes \<Rightarrow> 'f Table \<Rightarrow> 'f Table option) \<Rightarrow> block_iterator \<Rightarrow> 'f Table \<Rightarrow> (block_iterator \<times> 'f Table) option" where
  "with_meta key read iter t =
     Option.bind (It_Seek MetaOps key iter)
       (\<lambda>iter. if It_Valid MetaOps iter \<and> Slice_eq (It_key MetaOps iter) key
               then map_option (\<lambda>t. (iter, t)) (read (It_value MetaOps iter) t)
               else Some (iter, t))"

definition ReadMeta :: "port \<Rightarrow> 'f RandomAccessFile \<Rightarrow> Footer \<Rightarrow> 'f Table \<Rightarrow> 'f Table option" where
  "ReadMeta prt rops footer t =
     (case ReadBlock prt rops (t_file t) (opt_paranoid_checks (t_options t)) (metaindex_handle footer) of
        None \<Rightarrow> None
      | Some (Inl s) \<Rightarrow> Some t
      | Some (Inr contents) \<Rightarrow>
          let iter = Block_NewIterator (make_Block (bc_data contents)) in
          Option.bind
            (case opt_filter_policy (t_options t) of
               None \<Rightarrow> Some (iter, t)
             | Some policy \<Rightarrow> with_meta (filter_key policy) (ReadFilter prt rops) iter t)
            (\<lambda>(iter, t). map_option snd (with_meta range_deletions_key (ReadRangeDeletions prt rops) iter t)))"

definition Table_Open ::
  "port \<Rightarrow> 'f RandomAccessFile \<Rightarrow> ('h, block, 'c) Cache \<Rightarrow> Options \<Rightarrow> 'f \<Rightarrow> nat \<Rightarrow> 'c option \<Rightarrow>
     ((status + 'f Table) \<times> 'c option) option" where
  "Table_Open prt rops cops options file file_size cache =
     (if file_size < kEncodedLength then Some (Inl (Corruption ''file is too short to be an sstable''), cache)
      else
        (case RRead rops file (file_size - kEncodedLength) kEncodedLength of
           (s, footer_input, _) \<Rightarrow>
             if \<not> status_ok s then Some (Inl s, cache)
             else
               (case Footer_DecodeFrom footer_input of
                  Inl s \<Rightarrow> Some (Inl s, cache)
                | Inr (footer, _) \<Rightarrow>
                    (case ReadBlock prt rops file (opt_paranoid_checks options) (index_handle footer) of
                       None \<Rightarrow> None
                     | Some (Inl s) \<Rightarrow> Some (Inl s, cache)
                     | Some (Inr contents) \<Rightarrow>
                         let (cache_id, cache) =
                               (case cache of
                                  None \<Rightarrow> (0, None)
                                | Some c \<Rightarrow> (case C_NewId cops c of (i, c) \<Rightarrow> (i, Some c)));
                             t = \<lparr>t_options = options, t_file = file, t_cache_id = cache_id, t_filter = None,
                                  t_metaindex_handle = metaindex_handle footer,
                                  t_index_block = make_Block (bc_data contents), t_range_deletions = None\<rparr>
                         in map_option (\<lambda>t. (Inr t, cache)) (ReadMeta prt rops footer t)))))"

section \<open>Reading\<close>

abbreviation TableIterOps :: "'f Table \<Rightarrow> block_iterator Iterator" where
  "TableIterOps t \<equiv> AnyOps (BlockIterOps (opt_comparator (t_options t)))"

definition cache_key :: "'f Table \<Rightarrow> BlockHandle \<Rightarrow> bytes" where
  "cache_key t handle = EncodeFixed64 (t_cache_id t) @ EncodeFixed64 (bh_offset handle)"

text \<open>The block of a handle, with the cache handle that keeps it alive.\<close>

definition fetch_block ::
  "port \<Rightarrow> 'f RandomAccessFile \<Rightarrow> ('h, block, 'c) Cache \<Rightarrow> 'f Table \<Rightarrow> ReadOptions \<Rightarrow> BlockHandle \<Rightarrow> 'c option \<Rightarrow>
     ((status + block) \<times> 'h option \<times> 'c option) option" where
  "fetch_block prt rops cops t options handle cache =
     (case cache of
        None \<Rightarrow>
          (case ReadBlock prt rops (t_file t) (ro_verify_checksums options) handle of
             None \<Rightarrow> None
           | Some (Inl s) \<Rightarrow> Some (Inl s, None, None)
           | Some (Inr contents) \<Rightarrow> Some (Inr (make_Block (bc_data contents)), None, None))
      | Some c \<Rightarrow>
          (case C_Lookup cops (cache_key t handle) c of
             (Some cache_handle, c) \<Rightarrow> Some (Inr (C_Value cops cache_handle c), Some cache_handle, Some c)
           | (None, c) \<Rightarrow>
               (case ReadBlock prt rops (t_file t) (ro_verify_checksums options) handle of
                  None \<Rightarrow> None
                | Some (Inl s) \<Rightarrow> Some (Inl s, None, Some c)
                | Some (Inr contents) \<Rightarrow>
                    let block = make_Block (bc_data contents) in
                    if bc_cachable contents \<and> ro_fill_cache options
                    then map_option (\<lambda>(cache_handle, c). (Inr block, Some cache_handle, Some c))
                           (C_Insert cops (cache_key t handle) block (word_of_nat (bl_size block)) c)
                    else Some (Inr block, None, Some c))))"

text \<open>An iterator over the block, with what its cleanup releases.\<close>

definition BlockReader ::
  "port \<Rightarrow> 'f RandomAccessFile \<Rightarrow> ('h, block, 'c) Cache \<Rightarrow> 'f Table \<Rightarrow> ReadOptions \<Rightarrow> bytes \<Rightarrow> 'c option \<Rightarrow>
     (block_iterator \<times> 'h option \<times> 'c option) option" where
  "BlockReader prt rops cops t options index_value cache =
     (case BlockHandle_DecodeFrom index_value of
        Inl s \<Rightarrow> Some (EmptyIter (NewErrorIterator s), None, cache)
      | Inr (handle, _) \<Rightarrow>
          (case fetch_block prt rops cops t options handle cache of
             None \<Rightarrow> None
           | Some (Inl s, h, cache) \<Rightarrow> Some (EmptyIter (NewErrorIterator s), None, cache)
           | Some (Inr block, h, cache) \<Rightarrow> Some (Block_NewIterator block, h, cache)))"

definition block_function ::
  "port \<Rightarrow> 'f RandomAccessFile \<Rightarrow> ('h, block, 'c) Cache \<Rightarrow> 'f Table \<Rightarrow> ReadOptions \<Rightarrow> 'c option \<Rightarrow> bytes \<Rightarrow> block_iterator" where
  "block_function prt rops cops t options cache index_value =
     (case BlockReader prt rops cops t options index_value cache of None \<Rightarrow> NoIter | Some (it, _) \<Rightarrow> it)"

definition Table_NewIterator ::
  "port \<Rightarrow> 'f RandomAccessFile \<Rightarrow> ('h, block, 'c) Cache \<Rightarrow> 'f Table \<Rightarrow> ReadOptions \<Rightarrow> 'c option \<Rightarrow>
     (block_iterator, block_iterator) TwoLevelIterator" where
  "Table_NewIterator prt rops cops t options cache =
     NewTwoLevelIterator (TableIterOps t) (TableIterOps t) (Block_NewIterator (t_index_block t))
       (block_function prt rops cops t options cache)"

text \<open>Deleting a block iterator runs its cleanup.\<close>

definition delete_block_iter :: "('h, block, 'c) Cache \<Rightarrow> 'h option \<Rightarrow> 'c option \<Rightarrow> 'c option" where
  "delete_block_iter cops h cache = (case h of None \<Rightarrow> cache | Some h \<Rightarrow> map_option (C_Release cops h) cache)"

text \<open>The lookup in the block: the status so far, the call of \<^verbatim>\<open>handle_result\<close>, and whether a point key was found.\<close>

definition get_in_block ::
  "'f Table \<Rightarrow> bytes \<Rightarrow> u64 \<Rightarrow> block_iterator \<Rightarrow> status \<times> (bytes \<times> bytes) option \<times> bool" where
  "get_in_block t ukey read_seq block_iter =
     (let ops = TableIterOps t; key = It_key ops block_iter in
      if It_Valid ops block_iter \<and> Slice_eq (ExtractUserKey key) ukey then
        let found_seq = drop_bit 8 (ExtractTag key);
            deleted = (case t_range_deletions t of
                         None \<Rightarrow> False | Some dels \<Rightarrow> RDL_IsDeleted dels (ExtractUserKey key) found_seq read_seq)
        in if \<not> deleted then (It_status ops block_iter, Some (key, It_value ops block_iter), True)
           else (NotFound [], None, True)
      else (It_status ops block_iter, None, False))"

definition filter_excludes :: "'f Table \<Rightarrow> bytes \<Rightarrow> bytes \<Rightarrow> bool option" where
  "filter_excludes t handle_value k =
     (case (t_filter t, opt_filter_policy (t_options t), BlockHandle_DecodeFrom handle_value) of
        (Some f, Some policy, Inr (handle, _)) \<Rightarrow> map_option Not (Filter_KeyMayMatch policy f (bh_offset handle) k)
      | _ \<Rightarrow> Some False)"

definition get_point ::
  "port \<Rightarrow> 'f RandomAccessFile \<Rightarrow> ('h, block, 'c) Cache \<Rightarrow> 'f Table \<Rightarrow> ReadOptions \<Rightarrow> bytes \<Rightarrow> u64 \<Rightarrow> block_iterator \<Rightarrow> 'c option \<Rightarrow>
     ((status \<times> (bytes \<times> bytes) option \<times> bool) \<times> 'c option) option" where
  "get_point prt rops cops t options k read_seq iiter cache =
     (let ops = TableIterOps t in
      if \<not> It_Valid ops iiter then Some ((OK, None, False), cache)
      else
        (case filter_excludes t (It_value ops iiter) k of
           None \<Rightarrow> None
         | Some True \<Rightarrow> Some ((OK, None, False), cache)
         | Some False \<Rightarrow>
             (case BlockReader prt rops cops t options (It_value ops iiter) cache of
                None \<Rightarrow> None
              | Some (block_iter, h, cache) \<Rightarrow>
                  map_option (\<lambda>block_iter. (get_in_block t (ExtractUserKey k) read_seq block_iter, delete_block_iter cops h cache))
                    (It_Seek ops k block_iter))))"

definition Table_InternalGet ::
  "port \<Rightarrow> 'f RandomAccessFile \<Rightarrow> ('h, block, 'c) Cache \<Rightarrow> 'f Table \<Rightarrow> ReadOptions \<Rightarrow> bytes \<Rightarrow> 'c option \<Rightarrow>
     (status \<times> (bytes \<times> bytes) option \<times> 'c option) option" where
  "Table_InternalGet prt rops cops t options k cache =
     (let ukey = ExtractUserKey k; read_seq = drop_bit 8 (ExtractTag k); ops = TableIterOps t in
      Option.bind (It_Seek ops k (Block_NewIterator (t_index_block t)))
        (\<lambda>iiter. map_option
           (\<lambda>((s, saved, point_key_found), cache).
              let s = (if status_ok s then It_status ops iiter else s);
                  s = (if \<not> point_key_found \<and> status_ok s \<and>
                          (case t_range_deletions t of None \<Rightarrow> False | Some dels \<Rightarrow> RDL_IsDeleted dels ukey 0 read_seq)
                       then NotFound [] else s)
              in (s, saved, cache))
           (get_point prt rops cops t options k read_seq iiter cache)))"

definition ApproximateOffsetOf :: "'f Table \<Rightarrow> bytes \<Rightarrow> u64 option" where
  "ApproximateOffsetOf t key =
     (let ops = TableIterOps t in
      map_option
        (\<lambda>index_iter.
           if It_Valid ops index_iter
           then (case BlockHandle_DecodeFrom (It_value ops index_iter) of
                   Inr (handle, _) \<Rightarrow> bh_offset handle | Inl s \<Rightarrow> bh_offset (t_metaindex_handle t))
           else bh_offset (t_metaindex_handle t))
        (It_Seek ops key (Block_NewIterator (t_index_block t))))"

definition GetRangeDeletions :: "'f Table \<Rightarrow> RangeDeletionList option" where
  "GetRangeDeletions t = t_range_deletions t"

section \<open>Reading a block from its front\<close>

text \<open>
  The range deletions are read with the bytewise comparator although they were added in the order of
  the internal comparator. A walk from the front does not compare keys, so that it needs no order.
\<close>

definition block_pos :: "BlockIter \<Rightarrow> entries \<Rightarrow> nat \<Rightarrow> bool" where
  "block_pos it es n \<longleftrightarrow>
     (\<exists>items rs. es = map snd items \<and> (if n < length es then bi_item it items rs n else n = length es \<and> bi_end it items rs))"

lemma block_posI:
  "bi_item it items rs n \<Longrightarrow> block_pos it (map snd items) n"
  "bi_end it items rs \<Longrightarrow> block_pos it (map snd items) (length items)"
  unfolding block_pos_def by (intro exI [of _ items] exI [of _ rs], simp add: bi_item_def)+

lemma block_pos_ready: "bi_ready it items rs i \<Longrightarrow> block_pos (snd (ParseNextKey it)) (map snd items) i"
proof (cases "i < length items")
  case True
  moreover assume "bi_ready it items rs i"
  ultimately show ?thesis using ParseNextKey_item [of it items rs i] block_posI(1) by auto
next
  case False
  moreover assume r: "bi_ready it items rs i"
  ultimately have "i = length items" by (simp add: bi_ready_def)
  then show ?thesis using ParseNextKey_end [of it items rs] r block_posI(2) by auto
qed

lemma block_pos_first:
  assumes "1 \<le> interval" and "length (build_block interval es) < 2 ^ 32"
  shows "\<exists>it. It_SeekToFirst MetaOps (Block_NewIterator (make_Block (build_block interval es))) = Some (Iter it) \<and> block_pos it es 0"
proof -
  obtain items rs where rep: "block_rep (build_block interval es) items rs" "map snd items = es"
    using build_block_rep [OF assms] by blast
  obtain it where it: "Block_NewIterator (make_Block (build_block interval es)) = Iter it" "bi_end it items rs"
    using NewIterator_end [OF rep(1)] by blast
  have "bi_over it items rs" "0 < length rs" "rs ! 0 = 0"
    using it(2) rep(1) by (auto simp: bi_end_def block_rep_def restarts_ok_def)
  then have "block_pos (BI_SeekToFirst it) es 0"
    using block_pos_ready [OF SeekToRestartPoint_ready, of it items rs 0] rep(2) by (simp add: BI_SeekToFirst_def)
  then show ?thesis using it(1) by (simp add: AnyOps_def any_move_def BlockIterOps_def)
qed

lemma block_pos_view:
  assumes "block_pos it es n"
  shows "It_Valid MetaOps (Iter it) \<longleftrightarrow> n < length es" and "n \<le> length es"
    and "n < length es \<Longrightarrow> It_key MetaOps (Iter it) = fst (es ! n) \<and> It_value MetaOps (Iter it) = snd (es ! n)"
    and "n < length es \<Longrightarrow> \<exists>it'. It_Next MetaOps (Iter it) = Some (Iter it') \<and> block_pos it' es (Suc n)"
proof -
  obtain items rs where es: "es = map snd items" and at: "if n < length es then bi_item it items rs n else n = length es \<and> bi_end it items rs"
    using assms by (auto simp: block_pos_def)
  have less: "item_off items n < item_off items (length items)" if "n < length items" using item_off_less [of n "length items" items] that by simp
  show "n \<le> length es" using at by (simp split: if_splits)
  show "It_Valid MetaOps (Iter it) \<longleftrightarrow> n < length es"
    using at less es
    by (auto simp: AnyOps_def BlockIterOps_def BI_Valid_def bi_item_def bi_end_def bi_over_def item_off_end split: if_splits)
  show "n < length es \<Longrightarrow> It_key MetaOps (Iter it) = fst (es ! n) \<and> It_value MetaOps (Iter it) = snd (es ! n)"
    using at es by (simp add: AnyOps_def BlockIterOps_def bi_item_def)
  show "n < length es \<Longrightarrow> \<exists>it'. It_Next MetaOps (Iter it) = Some (Iter it') \<and> block_pos it' es (Suc n)"
    using at es block_pos_ready [OF bi_item_ready, of it items rs n]
    by (auto simp: AnyOps_def any_move_def BlockIterOps_def BI_Next_def)
qed

definition add_deletion :: "RangeDeletionList \<Rightarrow> bytes \<times> bytes \<Rightarrow> RangeDeletionList" where
  "add_deletion deletions e =
     (let n = length (fst e) in
      if n < 8 then deletions
      else RDL_Add deletions (take (n - 8) (fst e)) (snd e) (drop_bit 8 (DecodeFixed64 (drop (n - 8) (fst e)))))"

lemma read_deletions_pos: "block_pos it es n \<Longrightarrow> read_deletions (Iter it) dels = Some (foldl add_deletion dels (drop n es))"
proof (induction "length es - n" arbitrary: it n dels)
  case 0
  then show ?case using block_pos_view(1,2) [OF 0(2)] by (subst read_deletions.simps) simp
next
  case (Suc d)
  then have n: "n < length es" by simp
  note v = block_pos_view [OF Suc.prems]
  obtain it' where it': "It_Next MetaOps (Iter it) = Some (Iter it')" "block_pos it' es (Suc n)" using v(4) [OF n] by blast
  have "read_deletions (Iter it') (add_deletion dels (es ! n)) = Some (foldl add_deletion (add_deletion dels (es ! n)) (drop (Suc n) es))"
    using Suc.hyps(2) by (intro Suc.hyps(1) [OF _ it'(2)]) simp
  then show ?case
    using n it'(1) v(1) v(3) [OF n] Cons_nth_drop_Suc [OF n, symmetric]
    by (subst read_deletions.simps) (simp add: add_deletion_def Let_def)
qed

section \<open>Looking up metadata\<close>

lemma seek_map_of:
  assumes "sorted_entries (Compare BytewiseComparator) (\<lambda>_. True) es"
  shows "(if seek_pos (Compare BytewiseComparator) k es < length es \<and> fst (es ! seek_pos (Compare BytewiseComparator) k es) = k
          then Some (snd (es ! seek_pos (Compare BytewiseComparator) k es)) else None) = map_of es k"
  using assms
proof (induction es)
  case (Cons e es)
  have s: "sorted_entries (Compare BytewiseComparator) (\<lambda>_. True) es" and e: "\<forall>x \<in> set es. fst e < fst x"
    using Cons.prems by (auto simp: sorted_entries_def)
  show ?case
  proof (cases "fst e < k")
    case True
    then show ?thesis using Cons.IH [OF s] by (auto simp: seek_pos_def)
  next
    case False
    then have "k \<notin> fst ` set es" using e by auto
    then have "map_of es k = None" by (simp add: map_of_eq_None_iff)
    then show ?thesis using False by (auto simp: seek_pos_def)
  qed
qed (simp add: seek_pos_def)

abbreviation meta_at :: "block_iterator \<Rightarrow> entries \<Rightarrow> nat \<Rightarrow> bool" where
  "meta_at \<equiv> any_at (block_at BytewiseComparator (\<lambda>_. True))"

lemma meta_cursor: "cursor (Compare BytewiseComparator) (\<lambda>_. True) MetaOps meta_at"
  by (rule cursor.any_cursor [OF key_comparator.block_cursor [OF bytewise.key_comparator_axioms]])

lemma with_meta_at:
  assumes "meta_at iter es n"
  shows "\<exists>iter' n'. meta_at iter' es n' \<and>
    with_meta key read iter t = (case map_of es key of None \<Rightarrow> Some (iter', t) | Some v \<Rightarrow> map_option (Pair iter') (read v t))"
proof -
  let ?p = "seek_pos (Compare BytewiseComparator) key es"
  obtain iter' where i: "It_Seek MetaOps key iter = Some iter'" "meta_at iter' es ?p"
    using cursor.at_seek [OF meta_cursor assms] by blast
  note v = cursor.at_valid [OF meta_cursor i(2)] cursor.at_key [OF meta_cursor i(2)] cursor.at_value [OF meta_cursor i(2)]
  have m: "map_of es key = (if ?p < length es \<and> fst (es ! ?p) = key then Some (snd (es ! ?p)) else None)"
    by (rule seek_map_of [OF cursor.at_sorted [OF meta_cursor i(2)], symmetric])
  show ?thesis
    by (rule exI [of _ iter'], rule exI [of _ ?p]) (use i v m in \<open>auto simp: with_meta_def\<close>)
qed

lemma filter_key_less: "filter_key policy < range_deletions_key" and filter_key_neq: "filter_key policy \<noteq> range_deletions_key"
  by (simp_all add: filter_key_def range_deletions_key_def string_bytes_def of_char_def)

lemma meta_entries_lookup:
  shows "sorted_entries (Compare BytewiseComparator) (\<lambda>_. True) (meta_entries options b fh rh)"
    and "opt_filter_policy options = Some policy \<Longrightarrow> map_of (meta_entries options b fh rh) (filter_key policy) = Some (BlockHandle_EncodeTo fh [])"
    and "map_of (meta_entries options b fh rh) range_deletions_key = (if b then Some (BlockHandle_EncodeTo rh []) else None)"
  using filter_key_less filter_key_neq filter_key_neq [symmetric]
  by (auto simp: meta_entries_def sorted_entries_def split: option.splits)

section \<open>The parts of a table file\<close>

lemma image_index: "table_image options p = tp_after_meta options p @ stored_block kNoCompression (tp_index_block p) @
    Footer_EncodeTo \<lparr>metaindex_handle = part_handle (tp_after_filter options p) (tp_meta_block options p),
                     index_handle = part_handle (tp_after_meta options p) (tp_index_block p)\<rparr> []"
  by (rule table_image_def)

lemma image_meta: "\<exists>post. table_image options p = tp_after_filter options p @ stored_block kNoCompression (tp_meta_block options p) @ post"
  by (simp add: table_image_def tp_after_meta_def)

lemma image_filter:
  "opt_filter_policy options \<noteq> None \<Longrightarrow>
   \<exists>post. table_image options p = tp_after_range options p @ stored_block kNoCompression (tp_filter p) @ post"
  using image_meta [of options p] by (auto simp: tp_after_filter_def)

lemma image_range:
  "tp_range_dels p \<noteq> [] \<Longrightarrow> \<exists>post. table_image options p = tp_data options p @ stored_block kNoCompression (tp_range_block options p) @ post"
  using image_meta [of options p] by (auto simp: tp_after_filter_def tp_after_range_def)

lemma image_data:
  assumes "i < length (tp_blocks p)"
  shows "\<exists>post. table_image options p = data_images (opt_block_restart_interval options) (take i (tp_blocks p)) @
    stored_block kNoCompression (build_block (opt_block_restart_interval options) (tp_blocks p ! i)) @ post"
proof -
  let ?iv = "opt_block_restart_interval options" and ?bs = "tp_blocks p"
  have "data_images ?iv (take i ?bs @ [?bs ! i] @ drop (Suc i) ?bs) =
      data_images ?iv (take i ?bs) @ stored_block kNoCompression (build_block ?iv (?bs ! i)) @ data_images ?iv (drop (Suc i) ?bs)"
    by (simp only: data_images_simps)
  then have "tp_data options p =
      data_images ?iv (take i ?bs) @ stored_block kNoCompression (build_block ?iv (?bs ! i)) @ data_images ?iv (drop (Suc i) ?bs)"
    using id_take_nth_drop [OF assms] by (simp add: tp_data_def)
  then show ?thesis using image_meta [of options p] by (auto simp: tp_after_filter_def tp_after_range_def)
qed

lemma part_small:
  assumes "length (table_image options p) < 2 ^ 32" and "table_image options p = pre @ stored_block kNoCompression contents @ post"
  shows "length contents < 2 ^ 32" and "length pre + length contents + kBlockTrailerSize < 2 ^ 32"
  using assms by (simp_all add: length_stored_block)

context random_access_file
begin

lemma read_part:
  assumes f: "r_ok f" "r_contents f = table_image options p" "length (table_image options p) < 2 ^ 32"
    and split: "\<exists>post. table_image options p = pre @ stored_block kNoCompression contents @ post"
  shows "\<exists>b. ReadBlock prt r_ops f verify (part_handle pre contents) = Some (Inr \<lparr>bc_data = contents, bc_cachable = b, bc_heap_allocated = b\<rparr>)"
proof -
  obtain post where post: "table_image options p = pre @ stored_block kNoCompression contents @ post" using split by blast
  note small = part_small [OF f(3) post]
  show ?thesis
    by (rule ReadBlock_stored [OF f(1), of pre kNoCompression contents post])
       (use f(2) post small in \<open>simp_all add: part_handle_def unat_of_nat_small decompressed_def\<close>)
qed

end

text \<open>The table that opening the file gives.\<close>

definition opened :: "Options \<Rightarrow> table_parts \<Rightarrow> 'f \<Rightarrow> u64 \<Rightarrow> 'f Table" where
  "opened options p f cache_id =
     \<lparr>t_options = options, t_file = f, t_cache_id = cache_id,
      t_filter = map_option (\<lambda>_. make_FilterBlockReader (tp_filter p)) (opt_filter_policy options),
      t_metaindex_handle = part_handle (tp_after_filter options p) (tp_meta_block options p),
      t_index_block = make_Block (tp_index_block p),
      t_range_deletions = (if tp_range_dels p = [] then None else Some (foldl add_deletion [] (tp_range_dels p)))\<rparr>"

lemma opened_simps [simp]:
  "t_options (opened options p f i) = options" "t_file (opened options p f i) = f" "t_cache_id (opened options p f i) = i"
  "t_index_block (opened options p f i) = make_Block (tp_index_block p)"
  "t_range_deletions (opened options p f i) = (if tp_range_dels p = [] then None else Some (foldl add_deletion [] (tp_range_dels p)))"
  "t_filter (opened options p f i) = map_option (\<lambda>_. make_FilterBlockReader (tp_filter p)) (opt_filter_policy options)"
  by (simp_all add: opened_def)

definition open_cache :: "('h, block, 'c) Cache \<Rightarrow> 'c option \<Rightarrow> u64 \<times> 'c option" where
  "open_cache cops cache =
     (case cache of None \<Rightarrow> (0, None) | Some c \<Rightarrow> (case C_NewId cops c of (i, c) \<Rightarrow> (i, Some c)))"

context random_access_file
begin

lemma ReadMeta_image:
  assumes f: "r_ok f" "r_contents f = table_image options p" "length (table_image options p) < 2 ^ 32" and iv: "1 \<le> opt_block_restart_interval options"
    and t: "t = (opened options p f i)\<lparr>t_filter := None, t_range_deletions := None\<rparr>"
    and footer: "metaindex_handle footer = part_handle (tp_after_filter options p) (tp_meta_block options p)"
  shows "ReadMeta prt r_ops footer t = Some (opened options p f i)"
proof -
  let ?iv = "opt_block_restart_interval options" and ?fh = "part_handle (tp_after_range options p) (tp_filter p)"
  let ?rh = "part_handle (tp_data options p) (tp_range_block options p)"
  let ?es = "meta_entries options (tp_range_dels p \<noteq> []) ?fh ?rh"
  obtain b where read: "ReadBlock prt r_ops f (opt_paranoid_checks options) (metaindex_handle footer) =
      Some (Inr \<lparr>bc_data = tp_meta_block options p, bc_cachable = b, bc_heap_allocated = b\<rparr>)"
    using read_part [OF f image_meta] footer by auto
  have small: "length (build_block ?iv ?es) < 2 ^ 32"
    using image_meta [of options p] part_small(1) [OF f(3)] by (auto simp: tp_meta_block_def)
  obtain it where it: "Block_NewIterator (make_Block (tp_meta_block options p)) = it" "meta_at it ?es (length ?es)"
    using built_block_at [OF iv meta_entries_lookup(1) small] by (auto simp: tp_meta_block_def any_at_def)
  have filter: "ReadFilter prt r_ops (BlockHandle_EncodeTo ?fh []) u = Some (u\<lparr>t_filter := Some (make_FilterBlockReader (tp_filter p))\<rparr>)"
    if "opt_filter_policy options \<noteq> None" "t_file u = f" for u
    using read_part [OF f image_filter [OF that(1)], of prt "opt_paranoid_checks (t_options u)"] that(2) BlockHandle_Decode_Encode [of ?fh "[]"]
    by (auto simp: ReadFilter_def)
  have range: "ReadRangeDeletions prt r_ops (BlockHandle_EncodeTo ?rh []) u = Some (u\<lparr>t_range_deletions := Some (foldl add_deletion [] (tp_range_dels p))\<rparr>)"
    if "tp_range_dels p \<noteq> []" "t_file u = f" for u
  proof -
    have "length (build_block ?iv (tp_range_dels p)) < 2 ^ 32"
      using image_range [OF that(1), of options] part_small(1) [OF f(3)] by (auto simp: tp_range_block_def)
    then obtain i where "It_SeekToFirst MetaOps (Block_NewIterator (make_Block (tp_range_block options p))) = Some (Iter i)" "block_pos i (tp_range_dels p) 0"
      using block_pos_first [OF iv] by (auto simp: tp_range_block_def)
    then show ?thesis
      using read_part [OF f image_range [OF that(1)], of prt "opt_paranoid_checks (t_options u)"] that(2) BlockHandle_Decode_Encode [of ?rh "[]"]
        read_deletions_pos [of i "tp_range_dels p" 0 "[]"]
      by (auto simp: ReadRangeDeletions_def)
  qed
  define t1 where "t1 = (opened options p f i)\<lparr>t_range_deletions := None\<rparr>"
  have "\<exists>it1 n1. meta_at it1 ?es n1 \<and> (case opt_filter_policy options of None \<Rightarrow> Some (it, t)
      | Some policy \<Rightarrow> with_meta (filter_key policy) (ReadFilter prt r_ops) it t) = Some (it1, t1)"
  proof (cases "opt_filter_policy options")
    case None
    then show ?thesis using it(2) by (auto simp: t1_def t opened_def)
  next
    case (Some policy)
    then show ?thesis
      using with_meta_at [OF it(2), of "filter_key policy" "ReadFilter prt r_ops" t] meta_entries_lookup(2) [OF Some] filter [of t]
      by (auto simp: t1_def t opened_def)
  qed
  then obtain it1 n1 where 1: "meta_at it1 ?es n1" "(case opt_filter_policy options of None \<Rightarrow> Some (it, t)
      | Some policy \<Rightarrow> with_meta (filter_key policy) (ReadFilter prt r_ops) it t) = Some (it1, t1)" by blast
  have "\<exists>it2. with_meta range_deletions_key (ReadRangeDeletions prt r_ops) it1 t1 = Some (it2, opened options p f i)"
    using with_meta_at [OF 1(1), of range_deletions_key "ReadRangeDeletions prt r_ops" t1] meta_entries_lookup(3) range [of t1]
    by (auto simp: t1_def opened_def split: if_splits)
  moreover have "t_file t = f" "t_options t = options" by (simp_all add: t)
  ultimately show ?thesis using read it(1) 1(2) by (auto simp: ReadMeta_def Let_def)
qed

lemma Table_Open_image:
  assumes f: "r_ok f" "r_contents f = table_image options p" "length (table_image options p) < 2 ^ 32" and iv: "1 \<le> opt_block_restart_interval options"
    and c: "open_cache cops cache = (i, cache')"
  shows "Table_Open prt r_ops cops options f (length (table_image options p)) cache = Some (Inr (opened options p f i), cache')"
proof -
  let ?footer = "\<lparr>metaindex_handle = part_handle (tp_after_filter options p) (tp_meta_block options p),
      index_handle = part_handle (tp_after_meta options p) (tp_index_block p)\<rparr>"
  let ?n = "length (table_image options p)"
  have len: "?n = length (tp_after_meta options p @ stored_block kNoCompression (tp_index_block p)) + kEncodedLength"
    by (subst image_index) (simp add: Footer_Encode_length)
  have "drop (?n - kEncodedLength) (table_image options p) = Footer_EncodeTo ?footer []"
    unfolding len by (subst image_index) simp
  moreover obtain s where "RRead r_ops f (?n - kEncodedLength) kEncodedLength = (OK, take kEncodedLength (drop (?n - kEncodedLength) (r_contents f)), s)"
    using r_read [OF f(1), of "?n - kEncodedLength" kEncodedLength] f(2) by auto
  ultimately have read: "RRead r_ops f (?n - kEncodedLength) kEncodedLength = (OK, Footer_EncodeTo ?footer [], s)"
    using f(2) by (simp add: Footer_Encode_length)
  have footer: "Footer_DecodeFrom (Footer_EncodeTo ?footer []) = Inr (?footer, [])" using Footer_Decode_Encode [of ?footer "[]"] by simp
  obtain b where index: "ReadBlock prt r_ops f (opt_paranoid_checks options) (index_handle ?footer) =
      Some (Inr \<lparr>bc_data = tp_index_block p, bc_cachable = b, bc_heap_allocated = b\<rparr>)"
    using read_part [OF f, of "tp_after_meta options p" "tp_index_block p"] image_index [of options p] by auto
  have "ReadMeta prt r_ops ?footer ((opened options p f i)\<lparr>t_filter := None, t_range_deletions := None\<rparr>) = Some (opened options p f i)"
    by (rule ReadMeta_image [OF f iv]) simp_all
  then show ?thesis
    using read footer index c len
    by (auto simp: Table_Open_def open_cache_def opened_def Let_def split: option.splits prod.splits)
qed

end

section \<open>The blocks of an open table\<close>

lemma data_images_mono: "i < j \<Longrightarrow> j \<le> length bs \<Longrightarrow> length (data_images iv (take i bs)) < length (data_images iv (take j bs))"
proof -
  assume ij: "i < j" "j \<le> length bs"
  have "drop i bs = bs ! i # drop (Suc i) bs" using ij by (simp add: Cons_nth_drop_Suc)
  moreover have "j - i = Suc (j - Suc i)" using ij by simp
  ultimately have "take (j - i) (drop i bs) = bs ! i # take (j - Suc i) (drop (Suc i) bs)" by simp
  then have "take j bs = take i bs @ [bs ! i] @ take (j - Suc i) (drop (Suc i) bs)"
    using take_add [of i "j - i" bs] ij by simp
  then show ?thesis by (simp add: data_images_def kBlockTrailerSize_def)
qed

text \<open>What the cache may hold for the keys of a table.\<close>

definition block_loader :: "Options \<Rightarrow> table_parts \<Rightarrow> u64 \<Rightarrow> bytes \<rightharpoonup> block" where
  "block_loader options p cache_id =
     (let iv = opt_block_restart_interval options; bs = tp_blocks p in
      map_of (map (\<lambda>i. (EncodeFixed64 cache_id @ EncodeFixed64 (bh_offset (handle_at iv bs i)), make_Block (build_block iv (bs ! i))))
                [0..<length bs]))"

lemma EncodeFixed64_inj: "EncodeFixed64 a = EncodeFixed64 b \<Longrightarrow> a = b"
  by (metis DecodeFixed64_EncodeFixed64)

lemma block_loader_handle:
  assumes small: "length (table_image options p) < 2 ^ 32" and i: "i < length (tp_blocks p)"
  shows "block_loader options p (t_cache_id t) (cache_key t (handle_at (opt_block_restart_interval options) (tp_blocks p) i)) =
    Some (make_Block (build_block (opt_block_restart_interval options) (tp_blocks p ! i)))"
proof -
  let ?iv = "opt_block_restart_interval options" and ?bs = "tp_blocks p"
  let ?off = "\<lambda>i. length (data_images ?iv (take i ?bs))"
  let ?k = "\<lambda>i. EncodeFixed64 (t_cache_id t) @ EncodeFixed64 (bh_offset (handle_at ?iv ?bs i))"
  have off: "?off j < 2 ^ 32" if "j < length ?bs" for j
    using image_data [OF that, of options] part_small(2) [OF small] by fastforce
  have "unat (bh_offset (handle_at ?iv ?bs j)) = ?off j" if "j < length ?bs" for j
    using off [OF that] by (simp add: handle_at_def unat_of_nat_small)
  moreover have "?off a \<noteq> ?off b" if "a < length ?bs" "b < length ?bs" "a \<noteq> b" for a b
    using data_images_mono [of a b ?bs ?iv] data_images_mono [of b a ?bs ?iv] that by (cases "a < b") auto
  ultimately have "inj_on ?k {..<length ?bs}"
    by (intro inj_onI) (metis EncodeFixed64_inj lessThan_iff same_append_eq)
  then have "distinct (map ?k [0..<length ?bs])" by (simp add: distinct_map atLeast0LessThan)
  then have "distinct (map fst (map (\<lambda>i. (?k i, make_Block (build_block ?iv (?bs ! i)))) [0..<length ?bs]))" by (simp add: o_def)
  moreover have "(?k i, make_Block (build_block ?iv (?bs ! i))) \<in> set (map (\<lambda>i. (?k i, make_Block (build_block ?iv (?bs ! i)))) [0..<length ?bs])"
    using i by auto
  ultimately show ?thesis unfolding block_loader_def cache_key_def Let_def by (rule map_of_is_SomeI)
qed

locale table_reader = random_access_file r_ops r_contents r_ok + value_cache cops c_ok c_cached c_held + key_comparator cmp key_ok
  for r_ops :: "'f RandomAccessFile" and r_contents and r_ok and cops :: "('h, block, 'c) Cache" and c_ok and c_cached and c_held
    and cmp and key_ok
begin

definition table_file :: "Options \<Rightarrow> table_parts \<Rightarrow> 'f \<Rightarrow> bool" where
  "table_file options p f \<longleftrightarrow>
     r_ok f \<and> r_contents f = table_image options p \<and> length (table_image options p) < 2 ^ 32 \<and>
     1 \<le> opt_block_restart_interval options \<and> opt_comparator options = cmp \<and> table_parts_ok cmp key_ok options p"

definition cache_fine :: "Options \<Rightarrow> table_parts \<Rightarrow> u64 \<Rightarrow> 'c option \<Rightarrow> bool" where
  "cache_fine options p cache_id cache \<longleftrightarrow> (case cache of None \<Rightarrow> True | Some c \<Rightarrow> coherent (block_loader options p cache_id) c)"

definition cleanup_ok :: "'h option \<Rightarrow> 'c option \<Rightarrow> bool" where
  "cleanup_ok h cache \<longleftrightarrow> (\<forall>x. h = Some x \<longrightarrow> (\<exists>c. cache = Some c \<and> 0 < c_held c x))"

lemma fetch_block_at:
  assumes f: "table_file options p f" and i: "i < length (tp_blocks p)" and c: "cache_fine options p cache_id cache"
  shows "\<exists>h cache'. fetch_block prt r_ops cops (opened options p f cache_id) ro (handle_at (opt_block_restart_interval options) (tp_blocks p) i) cache =
      Some (Inr (make_Block (build_block (opt_block_restart_interval options) (tp_blocks p ! i))), h, cache') \<and>
    cache_fine options p cache_id cache' \<and> cleanup_ok h cache'"
proof -
  let ?iv = "opt_block_restart_interval options" and ?bs = "tp_blocks p" and ?t = "opened options p f cache_id"
  let ?h = "handle_at ?iv ?bs i" and ?b = "make_Block (build_block ?iv (?bs ! i))"
  have f': "r_ok f" "r_contents f = table_image options p" "length (table_image options p) < 2 ^ 32" using f by (auto simp: table_file_def)
  have "?h = part_handle (data_images ?iv (take i ?bs)) (build_block ?iv (?bs ! i))" by (simp add: handle_at_def part_handle_def)
  then obtain s where read: "ReadBlock prt r_ops f (ro_verify_checksums ro) ?h = Some (Inr \<lparr>bc_data = build_block ?iv (?bs ! i), bc_cachable = s, bc_heap_allocated = s\<rparr>)"
    using read_part [OF f' image_data [OF i]] by auto
  have load: "block_loader options p cache_id (cache_key ?t ?h) = Some ?b" using block_loader_handle [OF f'(3) i, of ?t] by simp
  show ?thesis
  proof (cases cache)
    case None
    then show ?thesis using read by (simp add: fetch_block_def cache_fine_def cleanup_ok_def)
  next
    case (Some c)
    have coh: "coherent (block_loader options p cache_id) c" using c Some by (simp add: cache_fine_def)
    then have ok: "c_ok c" by (simp add: coherent_def)
    obtain r c1 where l: "C_Lookup cops (cache_key ?t ?h) c = (r, c1)" by fastforce
    show ?thesis
    proof (cases r)
      case (Some x)
      have "C_Value cops x c1 = ?b" "coherent (block_loader options p cache_id) c1" using coherent_hit [OF coh l [unfolded Some] load] by auto
      moreover have "0 < c_held c1 x" using lookup_hit [OF ok l [unfolded Some]] by simp
      ultimately show ?thesis using l Some \<open>cache = Some c\<close> by (simp add: fetch_block_def cache_fine_def cleanup_ok_def)
    next
      case None
      then have c1: "c1 = c" using lookup_miss [OF ok] l by auto
      obtain x c2 where "C_Insert cops (cache_key ?t ?h) ?b (word_of_nat (bl_size ?b)) c = Some (x, c2)" "coherent (block_loader options p cache_id) c2"
          "0 < c_held c2 x"
        using coherent_insert [OF coh load, of "word_of_nat (bl_size ?b)"]
          insert_ok [OF ok, of "cache_key ?t ?h" ?b "word_of_nat (bl_size ?b)"] by auto
      then show ?thesis
        using l None c1 read coh \<open>cache = Some c\<close> by (simp add: fetch_block_def cache_fine_def cleanup_ok_def Let_def)
    qed
  qed
qed

lemma table_partsD:
  assumes "table_file options p f"
  shows "sorted_entries (Compare cmp) key_ok (concat (tp_blocks p))" "[] \<notin> set (tp_blocks p)" "length (tp_index p) = length (tp_blocks p)"
    "sorted_entries (Compare cmp) key_ok (tp_index p)" "separates (Compare cmp) (map fst (tp_index p)) (tp_blocks p)"
    "index_seps cmp (map fst (tp_index p)) (tp_blocks p)"
    "i < length (tp_blocks p) \<Longrightarrow> snd (tp_index p ! i) = BlockHandle_EncodeTo (handle_at (opt_block_restart_interval options) (tp_blocks p) i) []"
    "opt_comparator options = cmp" "1 \<le> opt_block_restart_interval options" "length (table_image options p) < 2 ^ 32"
    "opt_filter_policy options = Some policy \<Longrightarrow>
       \<exists>b i. tp_filter p = fst (FilterBlock_Finish policy b) \<and> fbb_ok policy b (promised (opt_block_restart_interval options) (tp_blocks p) []) i"
  using assms unfolding table_file_def table_parts_ok_def Let_def by blast+

abbreviation table_at :: "block_iterator \<Rightarrow> entries \<Rightarrow> nat \<Rightarrow> bool" where
  "table_at \<equiv> any_at (block_at cmp key_ok)"

abbreviation table_ops :: "block_iterator Iterator" where
  "table_ops \<equiv> AnyOps (BlockIterOps cmp)"

lemma table_cursor: "cursor (Compare cmp) key_ok table_ops table_at"
  by (rule cursor.any_cursor [OF block_cursor])

lemma index_at_start:
  assumes f: "table_file options p f"
  shows "table_at (Block_NewIterator (make_Block (tp_index_block p))) (tp_index p) (length (tp_index p))"
proof -
  have "length (build_block 1 (tp_index p)) < 2 ^ 32"
    using part_small(1) [OF table_partsD(10) [OF f] image_index] by (simp add: tp_index_block_def)
  then show ?thesis using built_block_at [OF _ table_partsD(4) [OF f], where interval = 1] by (auto simp: tp_index_block_def any_at_def)
qed

lemma BlockReader_at:
  assumes f: "table_file options p f" and i: "i < length (tp_blocks p)" and c: "cache_fine options p cache_id cache"
  shows "\<exists>it h cache'. BlockReader prt r_ops cops (opened options p f cache_id) ro (snd (tp_index p ! i)) cache = Some (it, h, cache') \<and>
    table_at it (tp_blocks p ! i) (length (tp_blocks p ! i)) \<and> cache_fine options p cache_id cache' \<and> cleanup_ok h cache'"
proof -
  let ?iv = "opt_block_restart_interval options" and ?bs = "tp_blocks p"
  obtain h cache' where b: "fetch_block prt r_ops cops (opened options p f cache_id) ro (handle_at ?iv ?bs i) cache =
      Some (Inr (make_Block (build_block ?iv (?bs ! i))), h, cache')" "cache_fine options p cache_id cache'" "cleanup_ok h cache'"
    using fetch_block_at [OF assms] by blast
  have "length (build_block ?iv (?bs ! i)) < 2 ^ 32"
    using image_data [OF i, of options] part_small(1) [OF table_partsD(10) [OF f]] by blast
  moreover have "sorted_entries (Compare cmp) key_ok (?bs ! i)"
    using table_partsD(1) [OF f] concat_split [OF i] unfolding sorted_entries_def by (auto simp: sorted_wrt_append)
  ultimately obtain it where "Block_NewIterator (make_Block (build_block ?iv (?bs ! i))) = Iter it" "block_at cmp key_ok it (?bs ! i) (length (?bs ! i))"
    using built_block_at [OF table_partsD(9) [OF f]] by blast
  then show ?thesis
    using b table_partsD(7) [OF f i] BlockHandle_Decode_Encode [of "handle_at ?iv ?bs i" "[]"] by (simp add: BlockReader_def any_at_def)
qed

text \<open>Iterators over the table walk over the concatenation of its blocks.\<close>

lemma NewIterator_at:
  assumes f: "table_file options p f" and c: "cache_fine options p cache_id cache"
  shows "cursor (Compare cmp) key_ok (TwoLevelOps table_ops table_ops) (two_at (Compare cmp) key_ok table_ops table_ops table_at table_at)"
    and "two_at (Compare cmp) key_ok table_ops table_ops table_at table_at (Table_NewIterator prt r_ops cops (opened options p f cache_id) ro cache)
      (concat (tp_blocks p)) (length (concat (tp_blocks p)))"
proof -
  have two: "two_cursors (Compare cmp) key_ok table_ops table_at table_ops table_at"
    by (rule two_cursors.intro [OF table_cursor table_cursor])
  show "cursor (Compare cmp) key_ok (TwoLevelOps table_ops table_ops) (two_at (Compare cmp) key_ok table_ops table_ops table_at table_at)"
    by (rule two_cursors.two_level_cursor [OF two])
  let ?bs = "tp_blocks p" and ?idx = "tp_index p" and ?iv = "opt_block_restart_interval options"
  let ?bf = "block_function prt r_ops cops (opened options p f cache_id) ro cache"
  define contents where "contents h = (case map_of (zip (map snd ?idx) ?bs) h of None \<Rightarrow> [] | Some b \<Rightarrow> b)" for h
  note pd = table_partsD [OF f]
  have "inj_on (\<lambda>i. snd (?idx ! i)) {..<length ?idx}"
  proof (rule inj_onI)
    fix a b assume ab: "a \<in> {..<length ?idx}" "b \<in> {..<length ?idx}" "snd (?idx ! a) = snd (?idx ! b)"
    then have "handle_at ?iv ?bs a = handle_at ?iv ?bs b" using pd(3,7) BlockHandle_Encode_inj by simp
    moreover have "unat (bh_offset (handle_at ?iv ?bs j)) = length (data_images ?iv (take j ?bs))" if "j < length ?bs" for j
      using image_data [OF that, of options] part_small(2) [OF pd(10)] by (fastforce simp: handle_at_def unat_of_nat_small)
    ultimately have "length (data_images ?iv (take a ?bs)) = length (data_images ?iv (take b ?bs))"
      using ab(1,2) pd(3) by (metis lessThan_iff)
    then show "a = b"
      using data_images_mono [of a b ?bs ?iv] data_images_mono [of b a ?bs ?iv] ab pd(3) by (cases "a < b"; cases "b < a") auto
  qed
  then have dist: "distinct (map snd ?idx)" by (simp add: distinct_conv_nth inj_on_def) blast
  have cont: "contents (snd (?idx ! i)) = ?bs ! i" if "i < length ?idx" for i
    using map_of_zip_nth [of "map snd ?idx" ?bs i] dist pd(3) that by (simp add: contents_def)
  have blocks: "blocks_of contents ?idx = ?bs"
    by (rule nth_equalityI) (simp_all add: blocks_of_def pd(3) cont)
  have "\<exists>n. table_at (?bf (snd e)) (contents (snd e)) n" if e: "e \<in> set ?idx" for e
  proof -
    obtain i where i: "i < length ?idx" "e = ?idx ! i" using e by (metis in_set_conv_nth)
    then show ?thesis using BlockReader_at [OF f _ c, of i prt ro] cont [OF i(1)] pd(3) by (auto simp: block_function_def)
  qed
  then have "two_level_ok (Compare cmp) key_ok table_at ?bf contents ?idx"
    unfolding two_level_ok_def blocks using pd(1,5) by blast
  from two_cursors.NewTwoLevelIterator_at [OF two this index_at_start [OF f]]
  show "two_at (Compare cmp) key_ok table_ops table_ops table_at table_at (Table_NewIterator prt r_ops cops (opened options p f cache_id) ro cache)
      (concat ?bs) (length (concat ?bs))"
    unfolding blocks by (simp add: Table_NewIterator_def pd(8))
qed

end

section \<open>Point lookups\<close>

abbreviation icmp :: comparator where
  "icmp \<equiv> InternalKeyComparator BytewiseComparator"

abbreviation ikey_ok :: "bytes \<Rightarrow> bool" where
  "ikey_ok \<equiv> internal_key_ok (\<lambda>_. True)"

text \<open>
  The answer to a lookup: the entry at the first key not before the target, if it has the user key of
  the target and is not hidden by a range deletion.
\<close>

definition table_answer :: "RangeDeletionList \<Rightarrow> entries \<Rightarrow> bytes \<Rightarrow> status \<times> (bytes \<times> bytes) option" where
  "table_answer dels es k =
     (let n = seek_pos (Compare icmp) k es; ukey = ExtractUserKey k; read_seq = drop_bit 8 (ExtractTag k) in
      if n < length es \<and> ExtractUserKey (fst (es ! n)) = ukey then
        if RDL_IsDeleted dels ukey (drop_bit 8 (ExtractTag (fst (es ! n)))) read_seq then (NotFound [], None)
        else (OK, Some (es ! n))
      else if RDL_IsDeleted dels ukey 0 read_seq then (NotFound [], None) else (OK, None))"

text \<open>A key between the last key of a block and its index key has another user key than the next block starts with.\<close>

lemma separator_user_key:
  assumes "\<not> IKC_Compare BytewiseComparator (IKC_FindShortestSeparator BytewiseComparator a b) k < 0" and "IKC_Compare BytewiseComparator a k < 0"
  shows "ExtractUserKey b \<noteq> ExtractUserKey k"
proof -
  let ?ua = "ExtractUserKey a" and ?ub = "ExtractUserKey b"
  let ?tmp = "FindShortestSeparator BytewiseComparator ?ua ?ub"
  have s: "length ?tmp < length ?ua \<and> ?ua < ?tmp" "IKC_FindShortestSeparator BytewiseComparator a b = PutFixed64 ?tmp (PackSequenceAndType kMaxSequenceNumber kValueTypeForSeek)"
    using assms by (auto simp: IKC_FindShortestSeparator_def Let_def split: if_splits)
  have "?ua < ?ub"
  proof (rule ccontr)
    assume "\<not> ?ua < ?ub"
    then have "?tmp = ?ua" using Bytewise_separator_unordered [of ?ua ?ub] by simp
    then show False using s(1) by simp
  qed
  then have "?tmp < ?ub" using Bytewise_separator_between [of ?ua ?ub] by simp
  moreover have "\<not> ?tmp < ExtractUserKey k" using assms(1) unfolding s(2) by (simp add: IKC_Compare_less PutFixed64_def)
  ultimately show ?thesis by auto
qed

lemma Filter_KeyMayMatch_user_key:
  "ExtractUserKey k = ExtractUserKey k' \<Longrightarrow>
   Filter_KeyMayMatch (InternalFilterPolicy up) r off k = Filter_KeyMayMatch (InternalFilterPolicy up) r off k'"
  by (simp add: Filter_KeyMayMatch_def InternalFilterPolicy_def Let_def)

lemma Filter_KeyMayMatch_defined: "Filter_KeyMayMatch policy r off k = None \<longleftrightarrow> Filter_KeyMayMatch policy r off k' = None"
  by (auto simp: Filter_KeyMayMatch_def Let_def)

text \<open>Filter policies as the database installs them: a policy of the user, wrapped to look at user keys only.\<close>

definition policy_ok :: "Options \<Rightarrow> bool" where
  "policy_ok options \<longleftrightarrow>
     (\<forall>policy. opt_filter_policy options = Some policy \<longrightarrow> (\<exists>up. policy = InternalFilterPolicy up \<and> filter_policy up))"

locale internal_table_reader = table_reader r_ops r_contents r_ok cops c_ok c_cached c_held icmp ikey_ok
  for r_ops :: "'f RandomAccessFile" and r_contents and r_ok and cops :: "('h, block, 'c) Cache" and c_ok and c_cached and c_held
begin

lemma filter_excludes_at:
  assumes f: "table_file options p f" and pol: "policy_ok options" and j: "j < length (tp_blocks p)"
  shows "\<exists>b. filter_excludes (opened options p f i) (snd (tp_index p ! j)) k = Some b \<and>
    (b \<longrightarrow> (\<forall>e \<in> set (tp_blocks p ! j). ExtractUserKey (fst e) \<noteq> ExtractUserKey k))"
proof (cases "opt_filter_policy options")
  case None
  then show ?thesis by (auto simp: filter_excludes_def)
next
  case (Some policy)
  let ?iv = "opt_block_restart_interval options" and ?bs = "tp_blocks p"
  let ?h = "handle_at ?iv ?bs j" and ?r = "make_FilterBlockReader (tp_filter p)"
  obtain up where up: "policy = InternalFilterPolicy up" "filter_policy up" using pol Some by (auto simp: policy_ok_def)
  note fp = filter_policy.internal_filter_policy [OF up(2)] and pd = table_partsD [OF f]
  obtain b n where b: "tp_filter p = fst (FilterBlock_Finish policy b)" "fbb_ok policy b (promised ?iv ?bs []) n" using pd(11) [OF Some] by blast
  have small: "length (fst (FilterBlock_Finish policy b)) < 2 ^ 32"
    using image_filter [of options p] Some part_small(1) [OF pd(10)] b(1) by auto
  have off: "unat (bh_offset ?h) = length (data_images ?iv (take j ?bs))"
    using image_data [OF j, of options] part_small(2) [OF pd(10)] by (fastforce simp: handle_at_def unat_of_nat_small)
  have may: "Filter_KeyMayMatch policy ?r (bh_offset ?h) (fst e) = Some True" if "e \<in> set (?bs ! j)" for e
  proof -
    have "(unat (bh_offset ?h), fst e) \<in> promised ?iv ?bs []" unfolding off using j that by (auto simp: promised_def)
    then show ?thesis
      using filter_policy.Finish_finds [OF fp b(2) [unfolded up(1)] _ small [unfolded up(1)]] b(1) by (simp add: up(1))
  qed
  have "?bs ! j \<noteq> []" using pd(2) j by (metis nth_mem)
  then obtain e where "e \<in> set (?bs ! j)" by (cases "?bs ! j") auto
  then have "Filter_KeyMayMatch policy ?r (bh_offset ?h) k \<noteq> None" using may Filter_KeyMayMatch_defined [of policy ?r "bh_offset ?h" k "fst e"] by simp
  then obtain m where m: "Filter_KeyMayMatch policy ?r (bh_offset ?h) k = Some m" by blast
  have "ExtractUserKey (fst e) \<noteq> ExtractUserKey k" if "\<not> m" "e \<in> set (?bs ! j)" for e
    using Filter_KeyMayMatch_user_key [of "fst e" k up ?r "bh_offset ?h"] may [OF that(2)] m that(1) by (auto simp: up(1))
  then show ?thesis
    using m Some pd(7) [OF j] BlockHandle_Decode_Encode [of ?h "[]"] by (auto simp: filter_excludes_def)
qed

text \<open>Where a lookup ends: behind the index, or in a block that has the entry if the table has it.\<close>

lemma lookup_position:
  assumes f: "table_file options p f" and k: "ikey_ok k"
  defines "j \<equiv> seek_pos (Compare icmp) k (tp_index p)" and "n \<equiv> seek_pos (Compare icmp) k (concat (tp_blocks p))"
  shows "\<not> j < length (tp_blocks p) \<Longrightarrow> n = length (concat (tp_blocks p))"
    and "j < length (tp_blocks p) \<Longrightarrow> seek_pos (Compare icmp) k (tp_blocks p ! j) < length (tp_blocks p ! j) \<Longrightarrow>
      n < length (concat (tp_blocks p)) \<and> concat (tp_blocks p) ! n = tp_blocks p ! j ! seek_pos (Compare icmp) k (tp_blocks p ! j)"
    and "j < length (tp_blocks p) \<Longrightarrow> \<not> seek_pos (Compare icmp) k (tp_blocks p ! j) < length (tp_blocks p ! j) \<Longrightarrow>
      n < length (concat (tp_blocks p)) \<Longrightarrow> ExtractUserKey (fst (concat (tp_blocks p) ! n)) \<noteq> ExtractUserKey k"
proof -
  let ?bs = "tp_blocks p" and ?ks = "map fst (tp_index p)" and ?c = "Compare icmp"
  note pd = table_partsD [OF f]
  have ok: "ikey_ok (fst e)" if "e \<in> set (concat ?bs)" for e using pd(1) that unfolding sorted_entries_def by blast
  have iok: "ikey_ok (?ks ! i)" if "i < length ?ks" for i using sorted_entries_ok [OF pd(4)] that by simp
  have less: "?c (?ks ! i) k < 0" if "i < j" for i
    using seek_pos_less [of i ?c k "tp_index p"] seek_pos_le [of ?c k "tp_index p"] that unfolding j_def by simp
  show "n = length (concat ?bs)" if "\<not> j < length ?bs"
    unfolding n_def by (rule seek_concat_end [OF ok iok k pd(5)]) (use less that in auto)
  assume j: "j < length ?bs"
  let ?p = "seek_pos ?c k (?bs ! j)"
  have nless: "\<not> ?c (?ks ! j) k < 0" using seek_pos_at [of ?c k "tp_index p"] j pd(3) unfolding j_def by simp
  have n: "n = block_off ?bs j + ?p" unfolding n_def by (rule seek_concat [OF ok iok k pd(5) j less nless])
  show "n < length (concat ?bs) \<and> concat ?bs ! n = ?bs ! j ! ?p" if "?p < length (?bs ! j)"
    using concat_nth [OF j that] n by simp
  assume p: "\<not> ?p < length (?bs ! j)" and nl: "n < length (concat ?bs)"
  have pl: "?p = length (?bs ! j)" using p seek_pos_le [of ?c k "?bs ! j"] by simp
  have nS: "n = block_off ?bs (Suc j)" using n pl block_off_Suc [OF j] by simp
  have Sj: "Suc j < length ?bs"
  proof (rule ccontr)
    assume "\<not> Suc j < length ?bs"
    then have "Suc j = length ?bs" using j by simp
    then show False using nS nl by (metis block_off_length less_irrefl)
  qed
  have ne: "?bs ! j \<noteq> []" "?bs ! Suc j \<noteq> []" using pd(2) j Sj by (metis nth_mem)+
  have e: "concat ?bs ! n = hd (?bs ! Suc j)" using concat_nth(2) [OF Sj, of 0] ne(2) nS by (simp add: hd_conv_nth)
  have sep: "?ks ! j = FindShortestSeparator icmp (fst (last (?bs ! j))) (fst (hd (?bs ! Suc j)))"
    using pd(6) Sj ne(2) pd(3) unfolding index_seps_def by simp
  have "?c (fst (?bs ! j ! (length (?bs ! j) - 1))) k < 0" by (rule seek_pos_less) (use pl ne(1) in simp)
  then have "?c (fst (last (?bs ! j))) k < 0" using ne(1) by (simp add: last_conv_nth)
  then show "ExtractUserKey (fst (concat ?bs ! n)) \<noteq> ExtractUserKey k"
    using separator_user_key [of "fst (last (?bs ! j))" "fst (hd (?bs ! Suc j))" k] nless e sep by simp
qed

lemma lookup_in_block:
  assumes f: "table_file options p f" and k: "ikey_ok k"
  defines "j \<equiv> seek_pos (Compare icmp) k (tp_index p)"
  assumes j: "j < length (tp_blocks p)"
  shows "table_answer dels (concat (tp_blocks p)) k = table_answer dels (tp_blocks p ! j) k"
  using lookup_position [OF f k] j unfolding j_def table_answer_def Let_def
  by (cases "seek_pos (Compare icmp) k (tp_blocks p ! seek_pos (Compare icmp) k (tp_index p)) <
      length (tp_blocks p ! seek_pos (Compare icmp) k (tp_index p))") auto

lemma delete_block_iter_fine:
  assumes "cache_fine options p i cache" and "cleanup_ok h cache"
  shows "cache_fine options p i (delete_block_iter cops h cache)"
  using assms release_ok by (fastforce simp: delete_block_iter_def cache_fine_def cleanup_ok_def coherent_def split: option.splits)

lemma InternalGet_at:
  assumes f: "table_file options p f" and pol: "policy_ok options" and c: "cache_fine options p i cache" and k: "ikey_ok k"
  shows "\<exists>cache'. Table_InternalGet prt r_ops cops (opened options p f i) ro k cache =
      (case table_answer (foldl add_deletion [] (tp_range_dels p)) (concat (tp_blocks p)) k of (s, saved) \<Rightarrow> Some (s, saved, cache')) \<and>
    cache_fine options p i cache'"
proof -
  let ?t = "opened options p f i" and ?bs = "tp_blocks p" and ?c = "Compare icmp" and ?dels = "foldl add_deletion [] (tp_range_dels p)"
  let ?j = "seek_pos ?c k (tp_index p)" and ?es = "concat (tp_blocks p)"
  note pd = table_partsD [OF f] and tc = table_cursor
  note at = cursor.at_valid [OF tc] cursor.at_key [OF tc] cursor.at_value [OF tc] cursor.at_status [OF tc]
  obtain iiter where ii: "It_Seek table_ops k (Block_NewIterator (make_Block (tp_index_block p))) = Some iiter" "table_at iiter (tp_index p) ?j"
    using cursor.at_seek [OF tc index_at_start [OF f] k] by blast
  show ?thesis
  proof (cases "?j < length ?bs")
    case False
    then have "seek_pos ?c k ?es = length ?es" by (rule lookup_position(1) [OF f k])
    then show ?thesis using ii at(1) [OF ii(2)] at(4) [OF ii(2)] False pd(3) c
      by (auto simp: Table_InternalGet_def get_point_def pd(8) table_answer_def Let_def)
  next
    case True
    note valid = at(1) [OF ii(2)] at(3) [OF ii(2)] at(4) [OF ii(2)]
    obtain b where b: "filter_excludes ?t (snd (tp_index p ! ?j)) k = Some b"
        "b \<longrightarrow> (\<forall>e \<in> set (?bs ! ?j). ExtractUserKey (fst e) \<noteq> ExtractUserKey k)"
      using filter_excludes_at [OF f pol True] by blast
    obtain it h cache1 where br: "BlockReader prt r_ops cops ?t ro (snd (tp_index p ! ?j)) cache = Some (it, h, cache1)"
        "table_at it (?bs ! ?j) (length (?bs ! ?j))" "cache_fine options p i cache1" "cleanup_ok h cache1"
      using BlockReader_at [OF f True c] by blast
    obtain it' where it': "It_Seek table_ops k it = Some it'" "table_at it' (?bs ! ?j) (seek_pos ?c k (?bs ! ?j))"
      using cursor.at_seek [OF tc br(2) k] by blast
    note bat = at(1) [OF it'(2)] at(2) [OF it'(2)] at(3) [OF it'(2)] at(4) [OF it'(2)]
    show ?thesis unfolding lookup_in_block [OF f k True]
    proof (cases b)
      case True
      then have "\<not> (seek_pos ?c k (?bs ! ?j) < length (?bs ! ?j) \<and> ExtractUserKey (fst (?bs ! ?j ! seek_pos ?c k (?bs ! ?j))) = ExtractUserKey k)"
        using b(2) by (meson nth_mem)
      then show "\<exists>cache'. Table_InternalGet prt r_ops cops ?t ro k cache =
          (case table_answer ?dels (?bs ! ?j) k of (s, saved) \<Rightarrow> Some (s, saved, cache')) \<and> cache_fine options p i cache'"
        using ii(1) valid b(1) True \<open>?j < length ?bs\<close> pd(3) c
        by (auto simp: Table_InternalGet_def get_point_def pd(8) table_answer_def Let_def)
    next
      case False
      then show "\<exists>cache'. Table_InternalGet prt r_ops cops ?t ro k cache =
          (case table_answer ?dels (?bs ! ?j) k of (s, saved) \<Rightarrow> Some (s, saved, cache')) \<and> cache_fine options p i cache'"
        using ii(1) valid b(1) \<open>?j < length ?bs\<close> pd(3) br(1) it'(1) bat delete_block_iter_fine [OF br(3,4)]
        by (auto simp: Table_InternalGet_def get_point_def get_in_block_def pd(8) table_answer_def Let_def)
    qed
  qed
qed

end

section \<open>Tables in memory files, read through the block cache\<close>

interpretation mem_table: table_reader mem_RandomAccessFile fs_contents fs_ok LRU_Cache sc_inv cached held
    "InternalKeyComparator BytewiseComparator" "internal_key_ok (\<lambda>_. True)"
  ..

interpretation mem_internal_table: internal_table_reader mem_RandomAccessFile fs_contents fs_ok LRU_Cache sc_inv cached held
  ..

lemma fresh_cache_fine:
  assumes "open_cache LRU_Cache cache = (i, cache')" and "cache = None \<or> cache = Some (NewLRUCache capacity)"
  shows "mem_table.cache_fine options p i cache'"
proof (cases cache)
  case (Some c)
  obtain c' where "Cache_NewId (NewLRUCache capacity) = (i, c')" "cache' = Some c'"
    using assms Some by (auto simp: open_cache_def LRU_Cache_def split: prod.splits)
  then show ?thesis
    using Cache_NewId_ok(1,2) [OF NewLRUCache_inv, of capacity i c']
    by (simp add: NewLRUCache_cached mem_table.cache_fine_def lru.coherent_def)
qed (use assms in \<open>simp add: open_cache_def mem_table.cache_fine_def\<close>)

text \<open>Writing entries to a table file, and opening the file: what there is then.\<close>

lemma build_and_open:
  assumes o: "table_options_ok prt icmp options" and es: "sorted_entries (Compare icmp) ikey_ok (point_entries es)"
    and f: "fs_ok f" "fs_contents f = []" and cache: "cache = None \<or> cache = Some (NewLRUCache capacity)"
    and fin: "TB_Finish prt mem_WritableFile (TB_Add_all prt mem_WritableFile es (make_TableBuilder options f)) = (s, r)"
    and small: "fs_size (tb_file r) < 2 ^ 32"
  shows "\<exists>p i cache'. s = OK \<and> mem_table.table_file options p (tb_file r) \<and> mem_table.cache_fine options p i cache' \<and>
    Table_Open prt mem_RandomAccessFile LRU_Cache options (tb_file r) (fs_size (tb_file r)) cache = Some (Inr (opened options p (tb_file r) i), cache') \<and>
    concat (tp_blocks p) = point_entries es \<and> tp_range_dels p = range_entries es"
proof -
  obtain bs idx cur where inv: "tb_inv icmp ikey_ok fs_contents fs_ok options (TB_Add_all prt mem_WritableFile es (make_TableBuilder options f))
      bs idx cur (range_entries es)" "concat bs @ cur = point_entries es"
    using mem_table_writer.TB_Add_all_inv [OF o make_TableBuilder_inv [where w_ok = fs_ok and written = fs_contents, OF f], of es] es by auto
  obtain p where p: "s = OK" "fs_ok (tb_file r)" "fs_contents (tb_file r) = table_image options p" "table_parts_ok icmp ikey_ok options p"
      "concat (tp_blocks p) = point_entries es" "tp_range_dels p = range_entries es"
    using mem_table_writer.TB_Finish_image [OF inv(1) o] fin inv(2) by auto
  have len: "fs_size (tb_file r) = length (table_image options p)" using p(2,3) by (metis length_fs_contents)
  have tf: "mem_table.table_file options p (tb_file r)"
    using p small len o unfolding mem_table.table_file_def table_options_ok_def by simp
  obtain i cache' where c: "open_cache LRU_Cache cache = (i, cache')" by fastforce
  have "Table_Open prt mem_RandomAccessFile LRU_Cache options (tb_file r) (fs_size (tb_file r)) cache = Some (Inr (opened options p (tb_file r) i), cache')"
    unfolding len by (rule mem_random.Table_Open_image [OF p(2,3) _ _ c]) (use small len o in \<open>auto simp: table_options_ok_def\<close>)
  then show ?thesis using p tf fresh_cache_fine [OF c cache] by blast
qed

text \<open>Lookups one after the other, each with the cache the last one left.\<close>

fun lookups ::
  "port \<Rightarrow> 'f RandomAccessFile \<Rightarrow> ('h, block, 'c) Cache \<Rightarrow> 'f Table \<Rightarrow> ReadOptions \<Rightarrow> bytes list \<Rightarrow> 'c option \<Rightarrow>
     (status \<times> (bytes \<times> bytes) option) list option" where
  "lookups prt rops cops t ro [] cache = Some []"
| "lookups prt rops cops t ro (k # ks) cache =
     (case Table_InternalGet prt rops cops t ro k cache of
        None \<Rightarrow> None
      | Some (s, saved, cache) \<Rightarrow> map_option (Cons (s, saved)) (lookups prt rops cops t ro ks cache))"

lemma lookups_at:
  assumes f: "mem_table.table_file options p f" and pol: "policy_ok options"
  shows "mem_table.cache_fine options p i cache \<Longrightarrow> \<forall>k \<in> set ks. ikey_ok k \<Longrightarrow>
    lookups prt mem_RandomAccessFile LRU_Cache (opened options p f i) ro ks cache =
      Some (map (table_answer (foldl add_deletion [] (tp_range_dels p)) (concat (tp_blocks p))) ks)"
proof (induction ks arbitrary: cache)
  case (Cons k ks)
  then obtain cache' where "Table_InternalGet prt mem_RandomAccessFile LRU_Cache (opened options p f i) ro k cache =
      (case table_answer (foldl add_deletion [] (tp_range_dels p)) (concat (tp_blocks p)) k of (s, saved) \<Rightarrow> Some (s, saved, cache'))"
      "mem_table.cache_fine options p i cache'"
    using mem_internal_table.InternalGet_at [OF f pol, of i cache k prt ro] by auto
  then show ?case using Cons by (auto split: prod.splits)
qed simp

section \<open>A small table\<close>

text \<open>A small table: a point entry and a range deletion, no compression library.\<close>

definition small_port :: port where
  "small_port = \<lparr>HAVE_SNAPPY = None, HAVE_ZSTD = None\<rparr>"

definition small_options :: Options where
  "small_options = SanitizeOptions make_Options"

definition small_entries :: entries where
  "small_entries = [(PutFixed64 [1] (PackSequenceAndType 7 kTypeValue), [2]), (PutFixed64 [3] (PackSequenceAndType 8 kTypeRangeDeletion), [5])]"

lemma small_port_raw: "compress_block small_port options raw = (raw, kNoCompression)"
  by (simp add: compress_block_def small_port_def Snappy_Compress_def Zstd_Compress_def Let_def split: CompressionType.splits)

lemma WriteBlock_size:
  assumes "fs_ok (tb_file r)"
  shows "\<exists>f. WriteBlock small_port mem_WritableFile block r =
      (\<lparr>bh_offset = tb_offset r, bh_size = word_of_nat (length (fst (BlockBuilder_Finish block)))\<rparr>, make_BlockBuilder,
       r\<lparr>tb_status := OK, tb_file := f, tb_offset := tb_offset r + word_of_nat (length (fst (BlockBuilder_Finish block)) + kBlockTrailerSize)\<rparr>) \<and>
    fs_ok f \<and> fs_size f = fs_size (tb_file r) + length (fst (BlockBuilder_Finish block)) + kBlockTrailerSize"
proof -
  obtain raw b where raw: "BlockBuilder_Finish block = (raw, b)" by fastforce
  obtain f where f: "WriteRawBlock mem_WritableFile raw kNoCompression r = (\<lparr>bh_offset = tb_offset r, bh_size = word_of_nat (length raw)\<rparr>,
      r\<lparr>tb_status := OK, tb_file := f, tb_offset := tb_offset r + word_of_nat (length raw + kBlockTrailerSize)\<rparr>)"
      "fs_ok f" "fs_contents f = fs_contents (tb_file r) @ stored_block kNoCompression raw"
    using mem_writable.WriteRawBlock_spec [OF assms, of raw kNoCompression] by blast
  have "fs_size f = fs_size (tb_file r) + (length raw + kBlockTrailerSize)"
    using f(2,3) assms by (metis length_append length_fs_contents length_stored_block)
  then show ?thesis using f raw by (intro exI [of _ f]) (simp add: WriteBlock_def small_port_raw)
qed

lemma one_entry_size: "length (fst (BlockBuilder_Finish (BlockBuilder_Add interval k v make_BlockBuilder))) \<le> length k + length v + 30"
  using length_EncodeVarint32 [of 0] length_EncodeVarint32 [of "word_of_nat (length k)"] length_EncodeVarint32 [of "size32 v"]
  by (simp add: BlockBuilder_Finish_def BlockBuilder_Add_def make_BlockBuilder_def Let_def PutVarint32_def PutFixed32_def)

lemma small_table_size:
  "fs_size (tb_file (snd (TB_Finish small_port mem_WritableFile
     (TB_Add_all small_port mem_WritableFile small_entries (make_TableBuilder small_options new_FileState))))) < 2 ^ 32"
proof -
  define k rk where "k = PutFixed64 [1] (PackSequenceAndType 7 kTypeValue)" and "rk = PutFixed64 [3] (PackSequenceAndType 8 kTypeRangeDeletion)"
  let ?db = "BlockBuilder_Add 16 k [2] make_BlockBuilder" and ?rb = "BlockBuilder_Add 16 rk [5] make_BlockBuilder"
  define r1 where "r1 = (make_TableBuilder small_options new_FileState)\<lparr>tb_last_key := k, tb_num_entries := 2, tb_data_block := ?db, tb_range_del_block := ?rb\<rparr>"
  have o: "opt_block_restart_interval small_options = 16" "opt_block_size small_options = 4096" "opt_filter_policy small_options = None"
    by (simp_all add: small_options_def SanitizeOptions_def make_Options_def ClipToRange_def)
  have k: "\<not> is_range_deletion k" "is_range_deletion rk" unfolding k_def rk_def by code_simp+
  have e: "CurrentSizeEstimate ?db < 4096" "\<not> BlockBuilder_empty ?db" "\<not> BlockBuilder_empty ?rb" unfolding k_def rk_def by code_simp+
  have add: "TB_Add_all small_port mem_WritableFile small_entries (make_TableBuilder small_options new_FileState) = r1"
    using k e by (simp add: TB_Add_all_def small_entries_def TB_Add_def r1_def make_TableBuilder_def o Let_def flip: k_def rk_def)
  have ok: "fs_ok (tb_file r1)" "fs_size (tb_file r1) = 0" "tb_status r1 = OK"
    by (simp_all add: r1_def make_TableBuilder_def new_FileState_def fs_ok_def)
  let ?len = "\<lambda>b. length (fst (BlockBuilder_Finish b))"
  obtain f1 h1 n1 where w1: "WriteBlock small_port mem_WritableFile ?db r1 = (h1, make_BlockBuilder, r1\<lparr>tb_status := OK, tb_file := f1, tb_offset := n1\<rparr>)"
      "fs_ok f1" "fs_size f1 = ?len ?db + kBlockTrailerSize"
    using WriteBlock_size [OF ok(1), of ?db] ok(2) by auto
  define r2 where "r2 = r1\<lparr>tb_status := OK, tb_file := f1, tb_offset := n1, tb_pending_handle := h1, tb_data_block := make_BlockBuilder,
      tb_pending_index_entry := True, tb_closed := True\<rparr>"
  have flush: "(TB_Flush small_port mem_WritableFile r1)\<lparr>tb_closed := True\<rparr> = r2"
    using w1(1) e(2) ok(3) by (simp add: TB_Flush_def r1_def r2_def make_TableBuilder_def o mem_WritableFile_def)
  obtain f2 h2 n2 where w2: "WriteBlock small_port mem_WritableFile ?rb r2 = (h2, make_BlockBuilder, r2\<lparr>tb_status := OK, tb_file := f2, tb_offset := n2\<rparr>)"
      "fs_ok f2" "fs_size f2 = fs_size f1 + ?len ?rb + kBlockTrailerSize"
    using WriteBlock_size [of r2 ?rb] w1(2) by (auto simp: r2_def)
  define r3 where "r3 = r2\<lparr>tb_status := OK, tb_file := f2, tb_offset := n2, tb_range_del_block := make_BlockBuilder\<rparr>"
  have range: "finish_range_dels small_port mem_WritableFile r2 = (h2, r3)" "\<not> BlockBuilder_empty (tb_range_del_block r2)"
    using w2(1) e(3) by (simp_all add: finish_range_dels_def r1_def r2_def r3_def)
  have "tb_range_del_block (TB_Flush small_port mem_WritableFile r1) = tb_range_del_block r2" unfolding flush [symmetric] by simp
  then have rd: "\<not> BlockBuilder_empty (tb_range_del_block (TB_Flush small_port mem_WritableFile r1))" using range(2) by simp
  let ?mb = "BlockBuilder_Add 16 range_deletions_key (BlockHandle_EncodeTo h2 []) make_BlockBuilder"
  obtain f3 h3 n3 where w3: "WriteBlock small_port mem_WritableFile ?mb r3 = (h3, make_BlockBuilder, r3\<lparr>tb_status := OK, tb_file := f3, tb_offset := n3\<rparr>)"
      "fs_ok f3" "fs_size f3 = fs_size f2 + ?len ?mb + kBlockTrailerSize"
    using WriteBlock_size [of r3 ?mb] w2(2) by (auto simp: r3_def)
  have r3: "tb_filter_block r3 = None" "tb_options r3 = small_options" "tb_status r3 = OK" by (simp_all add: r1_def r2_def r3_def make_TableBuilder_def o)
  have filter: "finish_filter mem_WritableFile r3 = (make_BlockHandle, r3)" using r3 by (simp add: finish_filter_def)
  define r4 where "r4 = r3\<lparr>tb_status := OK, tb_file := f3, tb_offset := n3\<rparr>"
  have meta: "finish_metaindex small_port mem_WritableFile True h2 make_BlockHandle r3 = (h3, r4)"
    using w3(1) r3 by (simp add: finish_metaindex_def o r4_def)
  define s where "s = FindShortSuccessor (opt_comparator small_options) k"
  let ?ib = "BlockBuilder_Add 1 s (BlockHandle_EncodeTo h1 []) make_BlockBuilder"
  have pend: "finish_index small_port mem_WritableFile r4 = (case WriteBlock small_port mem_WritableFile ?ib (add_index_entry s r4) of
      (h, b, r) \<Rightarrow> (h, r\<lparr>tb_index_block := b\<rparr>))"
    by (simp add: finish_index_def r1_def r2_def r3_def r4_def make_TableBuilder_def add_index_entry_def s_def)
  obtain f4 h4 n4 where w4: "WriteBlock small_port mem_WritableFile ?ib (add_index_entry s r4) =
        (h4, make_BlockBuilder, (add_index_entry s r4)\<lparr>tb_status := OK, tb_file := f4, tb_offset := n4\<rparr>)"
      "fs_ok f4" "fs_size f4 = fs_size f3 + ?len ?ib + kBlockTrailerSize"
    using WriteBlock_size [of "add_index_entry s r4" ?ib] w3(2) by (auto simp: r4_def add_index_entry_def)
  obtain f5 where w5: "WAppend mem_WritableFile f4 (Footer_EncodeTo \<lparr>metaindex_handle = h3, index_handle = h4\<rparr> []) = (OK, f5)" "fs_ok f5"
      "fs_contents f5 = fs_contents f4 @ Footer_EncodeTo \<lparr>metaindex_handle = h3, index_handle = h4\<rparr> []"
    using mem_writable.w_append [OF w4(2)] by blast
  then have s5: "fs_size f5 = fs_size f4 + kEncodedLength" using w4(2) by (metis Footer_Encode_length length_append length_fs_contents)
  define r5 where "r5 = (add_index_entry s r4)\<lparr>tb_status := OK, tb_file := f4, tb_offset := n4, tb_index_block := make_BlockBuilder\<rparr>"
  have index: "finish_index small_port mem_WritableFile r4 = (h4, r5)" using pend w4(1) by (simp add: r5_def)
  have "tb_file (finish_footer mem_WritableFile h3 h4 r5) = f5" using w5(1) by (simp add: finish_footer_def r5_def Let_def)
  moreover have "snd (TB_Finish small_port mem_WritableFile r1) = finish_footer mem_WritableFile h3 h4 r5"
    unfolding TB_Finish_def using flush range(1) filter meta index rd by (simp add: Let_def)
  ultimately have "tb_file (snd (TB_Finish small_port mem_WritableFile r1)) = f5" by simp
  moreover have kl: "length k = 9" "length rk = 9" by (simp_all add: k_def rk_def PutFixed64_def)
  moreover have "length s \<le> 20"
    using kl by (auto simp: s_def small_options_def SanitizeOptions_def make_Options_def IKC_FindShortSuccessor_def Let_def PutFixed64_def ExtractUserKey_def)
  moreover have "length range_deletions_key = 23" by code_simp
  moreover have "?len ?db \<le> length k + 31" "?len ?rb \<le> length rk + 31"
    using one_entry_size [of 16 k "[2]"] one_entry_size [of 16 rk "[5]"] by simp_all
  moreover have "?len ?mb \<le> length range_deletions_key + 50" "?len ?ib \<le> length s + 50"
    using one_entry_size [of 16 range_deletions_key "BlockHandle_EncodeTo h2 []"] one_entry_size [of 1 s "BlockHandle_EncodeTo h1 []"]
      BlockHandle_Encode_length [of h1] BlockHandle_Encode_length [of h2] by (simp_all add: kMaxEncodedLength_def)
  ultimately show ?thesis unfolding add using w1(3) w2(3) w3(3) w4(3) s5 by (simp add: kBlockTrailerSize_def kEncodedLength_def kMaxEncodedLength_def)
qed

lemma small_table_ok:
  "table_options_ok small_port icmp small_options" "sorted_entries (Compare icmp) ikey_ok (point_entries small_entries)"
  "point_entries small_entries = [hd small_entries]"
proof -
  show "table_options_ok small_port icmp small_options"
    by (simp add: table_options_ok_def small_port_raw) (simp add: small_options_def SanitizeOptions_def make_Options_def)
  show "point_entries small_entries = [hd small_entries]" by code_simp
  then show "sorted_entries (Compare icmp) ikey_ok (point_entries small_entries)"
    by (simp add: sorted_entries_def small_entries_def internal_key_ok_def PutFixed64_def)
qed

lemma small_answers:
  "map (table_answer (foldl add_deletion [] (range_entries small_entries)) (point_entries small_entries))
     [PutFixed64 [1] (PackSequenceAndType 9 kValueTypeForSeek), PutFixed64 [1] (PackSequenceAndType 6 kValueTypeForSeek),
       PutFixed64 [4] (PackSequenceAndType 9 kValueTypeForSeek)] =
   [(OK, Some (hd small_entries)), (OK, None), (NotFound [], None)]"
proof -
  have "range_entries small_entries = [last small_entries]" by code_simp
  then have "foldl add_deletion [] (range_entries small_entries) = [\<lparr>start_key = [3], end_key = [5], del_seq = 8\<rparr>]"
    by (simp add: small_entries_def add_deletion_def PutFixed64_def RDL_Add_def PackSequenceAndType_def)
  moreover have "ExtractTag (PutFixed64 u t) = t" "ExtractUserKey (PutFixed64 u t) = u" for u t
    by (simp_all add: PutFixed64_def ExtractTag_def)
  ultimately show ?thesis
    unfolding small_table_ok(3)
    by (simp add: small_entries_def table_answer_def seek_pos_def IKC_Compare_less PackSequenceAndType_def kValueTypeForSeek_def)
qed

lemma new_file: "fs_ok new_FileState" "fs_contents new_FileState = []"
  by (simp_all add: new_FileState_def fs_ok_def fs_contents_def)

section \<open>Properties\<close>





end
