(* ===== verification/Spec2Isabelle.thy ===== *)
theory Spec2Isabelle
  imports Log Memtable Version_Edit Filename Merger Table
begin

text \<open>
  A verification development of a LevelDB fork with range deletions (sources under src/leveldb).

  Coding models util/coding; Comparators models Slice and util/comparator; Dbformat models
  db/dbformat.
\<close>

end
